(* ===== verification/Flux_Prelude.thy ===== *)
theory Flux_Prelude
  imports Main "HOL-Library.Word"
begin

text \<open>
  Shared vocabulary of the fluxkv development: the machine types of the C++ sources, byte
  strings, the little-endian memory image of an integer (the server targets x86-64 and
  aarch64, both little-endian), byte swapping (\<open>htons\<close>, \<open>htonl\<close>,
  \<open>folly::Endian::big\<close>), and the generic list facts the component theories share.
\<close>

unbundle bit_operations_syntax

type_synonym u8 = "8 word"
type_synonym u16 = "16 word"
type_synonym u32 = "32 word"
type_synonym u64 = "64 word"
type_synonym bytes = "u8 list"

named_theorems byte_simps \<open>memory images of integers\<close>

subsection \<open>Memory images of integers\<close>

text \<open>
  \<open>bytes_le n w\<close> is what \<open>memcpy\<close> of the low \<open>n\<close> bytes of \<open>w\<close> stores;
  \<open>le_word\<close> is what a load of those bytes reads.
\<close>

primrec bytes_le :: "nat \<Rightarrow> 'a::len word \<Rightarrow> bytes" where
  "bytes_le 0 w = []"
| "bytes_le (Suc n) w = ucast w # bytes_le n (drop_bit 8 w)"

primrec le_word :: "bytes \<Rightarrow> 'a::len word" where
  "le_word [] = 0"
| "le_word (b # bs) = ucast b OR push_bit 8 (le_word bs)"

definition bswap :: "nat \<Rightarrow> 'a::len word \<Rightarrow> 'a word" where
  "bswap n w = le_word (rev (bytes_le n w))"

lemma length_bytes_le [simp, byte_simps]: "length (bytes_le n w) = n"
  by (induction n arbitrary: w) simp_all

lemma nth_bytes_le: "i < n \<Longrightarrow> bytes_le n w ! i = ucast (drop_bit (8 * i) w)"
  by (induction n arbitrary: w i) (auto simp: less_Suc_eq_0_disj ac_simps)

lemma bit_le_word:
  "bit (le_word bs :: 'a::len word) n \<longleftrightarrow>
     n < LENGTH('a) \<and> n div 8 < length bs \<and> bit (bs ! (n div 8)) (n mod 8)"
proof (induction bs arbitrary: n)
  case Nil
  then show ?case by simp
next
  case (Cons b bs)
  show ?case
  proof (cases "n < 8")
    case True
    then show ?thesis
      by (auto simp: bit_or_iff bit_push_bit_iff bit_ucast_iff)
  next
    case False
    then have "n div 8 = Suc ((n - 8) div 8)" "n mod 8 = (n - 8) mod 8"
      by (simp_all add: div_if mod_if)
    moreover have "\<not> bit b n"
      using False bit_imp_le_length [of b n] by auto
    ultimately show ?thesis
      using False Cons.IH [of "n - 8"]
      by (auto simp: bit_or_iff bit_push_bit_iff bit_ucast_iff)
  qed
qed

lemma le_word_bytes_le [simp, byte_simps]:
  assumes "LENGTH('a) \<le> 8 * n"
  shows "le_word (bytes_le n w) = (w :: 'a::len word)"
proof (rule bit_word_eqI)
  fix m assume "m < LENGTH('a)"
  then have "m div 8 < n" using assms by (simp add: less_mult_imp_div_less mult.commute)
  then show "bit (le_word (bytes_le n w) :: 'a word) m = bit w m"
    using \<open>m < LENGTH('a)\<close>
    by (simp add: bit_le_word nth_bytes_le bit_ucast_iff bit_drop_bit_eq)
qed

lemma bytes_le_le_word [byte_simps]:
  assumes "8 * length bs \<le> LENGTH('a)" and "n = length bs"
  shows "bytes_le n (le_word bs :: 'a::len word) = bs"
proof (rule nth_equalityI)
  show "length (bytes_le n (le_word bs :: 'a word)) = length bs"
    using assms by simp
next
  fix i assume "i < length (bytes_le n (le_word bs :: 'a word))"
  then have i: "i < length bs" using assms by simp
  show "bytes_le n (le_word bs :: 'a word) ! i = bs ! i"
  proof (rule bit_word_eqI)
    fix m :: nat assume m: "m < LENGTH(8)"
    then have "8 * i + m < LENGTH('a)" "(8 * i + m) div 8 = i" "(8 * i + m) mod 8 = m"
      using assms i by simp_all
    then show "bit (bytes_le n (le_word bs :: 'a word) ! i) m = bit (bs ! i) m"
      using m i assms
      by (simp add: nth_bytes_le bit_ucast_iff bit_drop_bit_eq bit_le_word)
  qed
qed

lemma bytes_le_bswap:
  "8 * n \<le> LENGTH('a) \<Longrightarrow> bytes_le n (bswap n (w :: 'a::len word)) = rev (bytes_le n w)"
  by (simp add: bswap_def bytes_le_le_word)

lemma bswap_bswap [simp, byte_simps]:
  "8 * n = LENGTH('a) \<Longrightarrow> bswap n (bswap n w) = (w :: 'a::len word)"
  by (simp add: bswap_def bytes_le_le_word)

lemmas mem_image_defs = bytes_le.simps le_word.simps bswap_def

declare bytes_le.simps [simp del] and le_word.simps [simp del]

text \<open>The bits of the two numerals of base-128 varints, at every word length.\<close>

lemma bit_127 [simp]: "bit (127 :: int) k \<longleftrightarrow> k < 7"
  using mask_eq_exp_minus_1 [of 7, where 'a = int] bit_mask_iff [of 7 k, where 'a = int] by simp

lemma bit_128 [simp]: "bit (128 :: int) k \<longleftrightarrow> k = 7"
  using bit_exp_iff [of 7 k, where 'a = int] by simp

lemma word_less_exp_bit:
  fixes w :: "'a::len word"
  assumes "unat w < 2 ^ n" and "bit w k"
  shows "k < n"
proof -
  have "unat w = take_bit n (unat w)" using assms(1) by (simp add: take_bit_nat_eq_self)
  moreover have "bit (unat w) k" using assms(2) by (simp add: bit_unsigned_iff bit_imp_le_length)
  ultimately show ?thesis by (metis bit_take_bit_iff)
qed

subsection \<open>Lists\<close>

lemma take_drop_split:
  "i + n \<le> length xs \<Longrightarrow> take i xs @ take n (drop i xs) @ drop (i + n) xs = xs"
  by (metis append_take_drop_id drop_drop add.commute)

text \<open>Where a proper prefix of a concatenation ends.\<close>

lemma take_concat_cut:
  assumes "n < length (concat xs)"
  obtains i j where "i < length xs" and "j < length (xs ! i)"
    and "take n (concat xs) = concat (take i xs) @ take j (xs ! i)"
proof -
  have "\<exists>i j. i < length xs \<and> j < length (xs ! i) \<and>
      take n (concat xs) = concat (take i xs) @ take j (xs ! i)"
    using assms
  proof (induction xs arbitrary: n)
    case Nil
    then show ?case by simp
  next
    case (Cons x xs)
    show ?case
    proof (cases "n < length x")
      case True
      then show ?thesis by (intro exI [of _ 0] exI [of _ n]) simp
    next
      case False
      then have "n - length x < length (concat xs)" using Cons.prems by simp
      then obtain i j where "i < length xs" "j < length (xs ! i)"
        "take (n - length x) (concat xs) = concat (take i xs) @ take j (xs ! i)"
        using Cons.IH [of "n - length x"] by blast
      then show ?thesis using False by (intro exI [of _ "Suc i"] exI [of _ j]) simp
    qed
  qed
  then show thesis using that by blast
qed

end
