(* ===== verification/Flat_Index.thy ===== *)
theory Flat_Index
  imports Flux_Prelude "HOL-Library.Multiset"
begin

text \<open>
  The open-addressing index of the document cache (\<open>FlatIndex\<close> in
  \<^verbatim>\<open>server/cache/s3fifo_cache.cc\<close>): power-of-two tables, linear probing,
  backward-shift deletion, doubling at a load of 0.7. Entry pointers are addresses. The
  probe loops of the source have no bound of their own; here they take as many steps as the
  table has slots and return \<open>None\<close> when those do not suffice, and the lemmas show that
  under the index invariant they never do.
\<close>

type_synonym addr = nat

record Slot =
  s_hash :: u64
  s_e :: "addr option"

record Table =
  t_mask :: nat
  t_slots :: "Slot list"

text \<open>\<open>t_\<close>, \<open>count_\<close>, and the tables of \<open>tables_\<close> that \<open>grow\<close> replaced.\<close>

record FlatIndex =
  fi_t :: "Table option"
  fi_count :: nat
  fi_retired :: "Table list"

definition empty_slot :: Slot where "empty_slot = \<lparr>s_hash = 0, s_e = None\<rparr>"

definition empty_index :: FlatIndex where
  "empty_index = \<lparr>fi_t = None, fi_count = 0, fi_retired = []\<rparr>"

definition home_slot :: "u64 \<Rightarrow> nat \<Rightarrow> nat" where
  "home_slot h m = unat (h AND of_nat m)"

definition next_slot :: "nat \<Rightarrow> nat \<Rightarrow> nat" where
  "next_slot i m = (i + 1) AND m"

subsection \<open>Operations\<close>

primrec find_loop :: "nat \<Rightarrow> Table \<Rightarrow> u64 \<Rightarrow> (addr \<Rightarrow> bool) \<Rightarrow> nat \<Rightarrow> addr option option" where
  "find_loop 0 t h eq i = None"
| "find_loop (Suc f) t h eq i =
     (case s_e (t_slots t ! i) of
        None \<Rightarrow> Some None
      | Some e \<Rightarrow> if s_hash (t_slots t ! i) = h \<and> eq e then Some (Some e)
                 else find_loop f t h eq (next_slot i (t_mask t)))"

definition fi_find :: "FlatIndex \<Rightarrow> u64 \<Rightarrow> (addr \<Rightarrow> bool) \<Rightarrow> addr option option" where
  "fi_find ix h eq =
     (case fi_t ix of
        None \<Rightarrow> Some None
      | Some t \<Rightarrow> find_loop (t_mask t + 1) t h eq (home_slot h (t_mask t)))"

primrec place_loop :: "nat \<Rightarrow> Table \<Rightarrow> nat \<Rightarrow> nat option" where
  "place_loop 0 t i = None"
| "place_loop (Suc f) t i =
     (if s_e (t_slots t ! i) \<noteq> None then place_loop f t (next_slot i (t_mask t)) else Some i)"

definition place :: "Table \<Rightarrow> u64 \<Rightarrow> addr \<Rightarrow> Table option" where
  "place t h e =
     (case place_loop (t_mask t + 1) t (home_slot h (t_mask t)) of
        None \<Rightarrow> None
      | Some i \<Rightarrow> Some (t\<lparr>t_slots := (t_slots t)[i := \<lparr>s_hash = h, s_e = Some e\<rparr>]\<rparr>))"

primrec rehash :: "Slot list \<Rightarrow> Table \<Rightarrow> Table option" where
  "rehash [] fresh = Some fresh"
| "rehash (s # ss) fresh =
     (case s_e s of
        None \<Rightarrow> rehash ss fresh
      | Some e \<Rightarrow> (case place fresh (s_hash s) e of None \<Rightarrow> None | Some fresh \<Rightarrow> rehash ss fresh))"

definition new_table :: "nat \<Rightarrow> Table" where
  "new_table cap = \<lparr>t_mask = cap - 1, t_slots = replicate cap empty_slot\<rparr>"

definition fi_grow :: "FlatIndex \<Rightarrow> FlatIndex option" where
  "fi_grow ix =
     (let cap = (case fi_t ix of None \<Rightarrow> 1024 | Some old \<Rightarrow> (t_mask old + 1) * 2);
          fresh = new_table cap
      in case fi_t ix of
           None \<Rightarrow> Some (ix\<lparr>fi_t := Some fresh\<rparr>)
         | Some old \<Rightarrow>
             (case rehash (t_slots old) fresh of
                None \<Rightarrow> None
              | Some t \<Rightarrow> Some (ix\<lparr>fi_t := Some t, fi_retired := fi_retired ix @ [old]\<rparr>)))"

definition needs_grow :: "FlatIndex \<Rightarrow> bool" where
  "needs_grow ix = (case fi_t ix of None \<Rightarrow> True
     | Some t \<Rightarrow> (fi_count ix + 1) * 10 > (t_mask t + 1) * 7)"

definition fi_insert :: "FlatIndex \<Rightarrow> u64 \<Rightarrow> addr \<Rightarrow> FlatIndex option" where
  "fi_insert ix h e =
     (case (if needs_grow ix then fi_grow ix else Some ix) of
        None \<Rightarrow> None
      | Some ix \<Rightarrow>
          (case fi_t ix of None \<Rightarrow> None
           | Some t \<Rightarrow> (case place t h e of None \<Rightarrow> None
              | Some t \<Rightarrow> Some (ix\<lparr>fi_t := Some t, fi_count := fi_count ix + 1\<rparr>))))"

text \<open>\<open>Some None\<close>: the probe met a hole first, the entry is not in the table.\<close>

primrec erase_probe :: "nat \<Rightarrow> Table \<Rightarrow> addr \<Rightarrow> nat \<Rightarrow> nat option option" where
  "erase_probe 0 t e i = None"
| "erase_probe (Suc f) t e i =
     (if s_e (t_slots t ! i) \<noteq> Some e
      then if s_e (t_slots t ! i) = None then Some None
           else erase_probe f t e (next_slot i (t_mask t))
      else Some (Some i))"

definition in_range :: "nat \<Rightarrow> nat \<Rightarrow> nat \<Rightarrow> bool" where
  "in_range i j home = (if i \<le> j then home > i \<and> home \<le> j else home > i \<or> home \<le> j)"

primrec shift_loop :: "nat \<Rightarrow> Table \<Rightarrow> nat \<Rightarrow> nat \<Rightarrow> (Table \<times> nat) option" where
  "shift_loop 0 t i j = None"
| "shift_loop (Suc f) t i j =
     (let m = t_mask t; s = t_slots t
      in if s_e (s ! j) = None then Some (t, i)
         else if \<not> in_range i j (home_slot (s_hash (s ! j)) m)
              then shift_loop f (t\<lparr>t_slots := s[i := s ! j]\<rparr>) j (next_slot j m)
              else shift_loop f t i (next_slot j m))"

definition fi_erase :: "FlatIndex \<Rightarrow> u64 \<Rightarrow> addr \<Rightarrow> FlatIndex option" where
  "fi_erase ix h e =
     (case fi_t ix of None \<Rightarrow> Some ix
      | Some t \<Rightarrow>
        (case erase_probe (t_mask t + 1) t e (home_slot h (t_mask t)) of
           None \<Rightarrow> None
         | Some None \<Rightarrow> Some ix
         | Some (Some i) \<Rightarrow>
           (case shift_loop (t_mask t + 1) t i (next_slot i (t_mask t)) of
              None \<Rightarrow> None
            | Some (t, i) \<Rightarrow>
                Some (ix\<lparr>fi_t := Some (t\<lparr>t_slots := (t_slots t)[i := (t_slots t ! i)\<lparr>s_e := None\<rparr>]\<rparr>),
                         fi_count := fi_count ix - 1\<rparr>))))"

definition fi_clear :: "FlatIndex \<Rightarrow> FlatIndex" where
  "fi_clear ix = \<lparr>fi_t = None, fi_count = 0, fi_retired = []\<rparr>"

text \<open>\<open>prefetchEntry\<close>: the entry whose cache lines are prefetched, looking at no more than
  four slots.\<close>

primrec prefetch_loop :: "nat \<Rightarrow> Table \<Rightarrow> u64 \<Rightarrow> nat \<Rightarrow> addr option" where
  "prefetch_loop 0 t h i = None"
| "prefetch_loop (Suc n) t h i =
     (case s_e (t_slots t ! i) of
        None \<Rightarrow> None
      | Some e \<Rightarrow> if s_hash (t_slots t ! i) = h then Some e
                 else prefetch_loop n t h (next_slot i (t_mask t)))"

definition prefetchEntry :: "FlatIndex \<Rightarrow> u64 \<Rightarrow> addr option" where
  "prefetchEntry ix h =
     (case fi_t ix of None \<Rightarrow> None
      | Some t \<Rightarrow> prefetch_loop 4 t h (home_slot h (t_mask t)))"

subsection \<open>Cyclic distance\<close>

text \<open>Steps from slot \<open>a\<close> to slot \<open>b\<close> in probe order, in a table of \<open>n\<close> slots.\<close>

definition cdist :: "nat \<Rightarrow> nat \<Rightarrow> nat \<Rightarrow> nat" where
  "cdist n a b = (if a \<le> b then b - a else b + n - a)"

lemma cdist_less: "a < n \<Longrightarrow> b < n \<Longrightarrow> cdist n a b < n"
  by (auto simp: cdist_def)

lemma cdist_eq_0: "a < n \<Longrightarrow> b < n \<Longrightarrow> cdist n a b = 0 \<longleftrightarrow> a = b"
  by (auto simp: cdist_def)

lemma cdist_inj: "a < n \<Longrightarrow> b < n \<Longrightarrow> c < n \<Longrightarrow> cdist n a b = cdist n a c \<Longrightarrow> b = c"
  unfolding cdist_def by (cases "a \<le> b"; cases "a \<le> c"; simp)

definition wrap_suc :: "nat \<Rightarrow> nat \<Rightarrow> nat" where
  "wrap_suc n i = (if i + 1 = n then 0 else i + 1)"

lemma wrap_suc_less: "i < n \<Longrightarrow> wrap_suc n i < n"
  by (auto simp: wrap_suc_def)

lemma next_slot_wrap:
  assumes "m + 1 = 2 ^ k" and "i < m + 1"
  shows "next_slot i m = wrap_suc (m + 1) i"
proof -
  have "m = mask k" using assms(1) by (simp add: mask_eq_exp_minus_1 flip: assms(1))
  then have "next_slot i m = (i + 1) mod 2 ^ k"
    by (simp add: next_slot_def take_bit_eq_mod flip: take_bit_eq_mask)
  then show ?thesis using assms by (auto simp: wrap_suc_def)
qed

lemma home_slot_mod:
  assumes "m + 1 = 2 ^ k"
  shows "home_slot h m = unat h mod 2 ^ k"
proof -
  have "m = mask k" using assms by (simp add: mask_eq_exp_minus_1 flip: assms)
  then have "h AND of_nat m = take_bit k h"
    by (simp add: of_nat_mask_eq take_bit_eq_mask)
  moreover have "unat (take_bit k h) = unat h mod 2 ^ k"
    unfolding unsigned_take_bit_eq by (rule take_bit_eq_mod)
  ultimately show ?thesis by (simp only: home_slot_def)
qed

lemma home_slot_less: "m + 1 = 2 ^ k \<Longrightarrow> home_slot h m < m + 1"
  by (simp add: home_slot_mod)

subsection \<open>Probe sequences\<close>

text \<open>The three probe loops are the same scan with different stopping conditions.\<close>

primrec scan :: "nat \<Rightarrow> nat \<Rightarrow> (nat \<Rightarrow> bool) \<Rightarrow> nat \<Rightarrow> nat option" where
  "scan 0 m P i = None"
| "scan (Suc f) m P i = (if P i then Some i else scan f m P (next_slot i m))"

abbreviation slot_e :: "Table \<Rightarrow> nat \<Rightarrow> addr option" where
  "slot_e t i \<equiv> s_e (t_slots t ! i)"
abbreviation slot_hash :: "Table \<Rightarrow> nat \<Rightarrow> u64" where
  "slot_hash t i \<equiv> s_hash (t_slots t ! i)"
abbreviation occ :: "Table \<Rightarrow> nat \<Rightarrow> bool" where
  "occ t i \<equiv> slot_e t i \<noteq> None"
abbreviation tcap :: "Table \<Rightarrow> nat" where
  "tcap t \<equiv> t_mask t + 1"

lemma find_loop_scan:
  "find_loop f t h eq i = map_option (slot_e t)
     (scan f (t_mask t) (\<lambda>p. \<not> occ t p \<or> slot_hash t p = h \<and> eq (the (slot_e t p))) i)"
  by (induction f arbitrary: i) (auto split: option.splits)

lemma place_loop_scan: "place_loop f t i = scan f (t_mask t) (\<lambda>p. \<not> occ t p) i"
  by (induction f arbitrary: i) auto

lemma erase_probe_scan:
  "erase_probe f t e i = map_option (\<lambda>j. if occ t j then Some j else None)
     (scan f (t_mask t) (\<lambda>p. slot_e t p = Some e \<or> \<not> occ t p) i)"
  by (induction f arbitrary: i) auto

lemma cdist_wrap_suc:
  assumes "a < n" and "p < n" and "p \<noteq> a"
  shows "cdist n a p = cdist n (wrap_suc n a) p + 1"
  using assms by (auto simp: cdist_def wrap_suc_def)

lemma scan_ends:
  assumes "m + 1 = 2 ^ k" and "a < m + 1" and "q < m + 1" and "P q" and "cdist (m + 1) a q < f"
  obtains j where "scan f m P a = Some j" and "j < m + 1" and "P j"
    and "\<And>p. p < m + 1 \<Longrightarrow> cdist (m + 1) a p < cdist (m + 1) a j \<Longrightarrow> \<not> P p"
proof -
  have "\<exists>j. scan f m P a = Some j \<and> j < m + 1 \<and> P j \<and>
      (\<forall>p<m + 1. cdist (m + 1) a p < cdist (m + 1) a j \<longrightarrow> \<not> P p)"
    using assms(2,5)
  proof (induction f arbitrary: a)
    case 0
    then show ?case by simp
  next
    case (Suc f)
    show ?case
    proof (cases "P a")
      case True
      then show ?thesis using Suc.prems by (intro exI [of _ a]) (simp add: cdist_def)
    next
      case False
      let ?b = "wrap_suc (m + 1) a"
      have "a \<noteq> q" using False assms(4) by auto
      have step: "cdist (m + 1) a p = cdist (m + 1) ?b p + 1" if "p < m + 1" "p \<noteq> a" for p
        using cdist_wrap_suc [OF Suc.prems(1) that] .
      have "?b < m + 1" using Suc.prems(1) by (rule wrap_suc_less)
      moreover have "cdist (m + 1) ?b q < f"
        using Suc.prems(2) step [OF assms(3)] \<open>a \<noteq> q\<close> by simp
      ultimately obtain j where j: "scan f m P ?b = Some j" "j < m + 1" "P j"
        "\<forall>p<m + 1. cdist (m + 1) ?b p < cdist (m + 1) ?b j \<longrightarrow> \<not> P p"
        using Suc.IH by blast
      have "scan (Suc f) m P a = Some j"
        using False j(1) next_slot_wrap [OF assms(1) Suc.prems(1)] by simp
      moreover have "j \<noteq> a" using j(3) False by auto
      then have "\<not> P p" if "p < m + 1" "cdist (m + 1) a p < cdist (m + 1) a j" for p
        using that j False step [of p] step [of j] by (cases "p = a") auto
      ultimately show ?thesis using j(2,3) by blast
    qed
  qed
  then show thesis using that by blast
qed

subsection \<open>Invariant and contents\<close>

definition table_shape :: "Table \<Rightarrow> bool" where
  "table_shape t \<longleftrightarrow> (\<exists>k. tcap t = 2 ^ k) \<and> length (t_slots t) = tcap t"

abbreviation slot_home :: "Table \<Rightarrow> nat \<Rightarrow> nat" where
  "slot_home t i \<equiv> home_slot (slot_hash t i) (t_mask t)"

text \<open>No hole between an element's home and its slot.\<close>

definition probe_ok :: "Table \<Rightarrow> bool" where
  "probe_ok t \<longleftrightarrow> (\<forall>k<tcap t. occ t k \<longrightarrow> (\<forall>p<tcap t.
     cdist (tcap t) (slot_home t k) p < cdist (tcap t) (slot_home t k) k \<longrightarrow> occ t p))"

lemma probe_okD:
  assumes "probe_ok t" and "k < tcap t" and "occ t k" and "p < tcap t"
    and "cdist (tcap t) (slot_home t k) p < cdist (tcap t) (slot_home t k) k"
  shows "occ t p"
  using assms(1) [unfolded probe_ok_def, rule_format, OF assms(2-5)] .

definition slot_pairs :: "Slot \<Rightarrow> (u64 \<times> addr) multiset" where
  "slot_pairs s = (case s_e s of None \<Rightarrow> {#} | Some e \<Rightarrow> {#(s_hash s, e)#})"

definition contents :: "Slot list \<Rightarrow> (u64 \<times> addr) multiset" where
  "contents ss = sum_list (map slot_pairs ss)"

lemma contents_simps [simp]:
  "contents [] = {#}" "contents (s # ss) = slot_pairs s + contents ss"
  "contents (ss @ ts) = contents ss + contents ts"
  by (simp_all add: contents_def)

lemma contents_update:
  assumes "i < length ss"
  shows "contents (ss[i := x]) + slot_pairs (ss ! i) = contents ss + slot_pairs x"
proof -
  have "contents ss = contents (take i ss) + (slot_pairs (ss ! i) + contents (drop (Suc i) ss))"
    by (subst id_take_nth_drop [OF assms]) simp
  moreover have "contents (ss[i := x]) =
      contents (take i ss) + (slot_pairs x + contents (drop (Suc i) ss))"
    by (subst upd_conv_take_nth_drop [OF assms]) simp
  ultimately show ?thesis by (simp add: ac_simps)
qed

lemma mem_contents:
  "(h, e) \<in># contents ss \<longleftrightarrow> (\<exists>i<length ss. s_hash (ss ! i) = h \<and> s_e (ss ! i) = Some e)"
proof (induction ss)
  case (Cons s ss)
  then show ?case
    by (auto simp: slot_pairs_def less_Suc_eq_0_disj split: option.splits)
qed simp

lemma size_contents_le: "size (contents ss) \<le> length ss"
  by (induction ss) (auto simp: slot_pairs_def split: option.splits)

lemma contents_hole:
  "size (contents ss) < length ss \<Longrightarrow> \<exists>i<length ss. s_e (ss ! i) = None"
proof (induction ss)
  case (Cons s ss)
  then show ?case
    by (cases "s_e s") (auto simp: slot_pairs_def)
qed simp

subsection \<open>Lookup\<close>

lemma find_loop_correct:
  assumes "table_shape t" and "probe_ok t" and "size (contents (t_slots t)) < tcap t"
  obtains r where "find_loop (tcap t) t h eq (home_slot h (t_mask t)) = Some r"
    and "\<And>e. r = Some e \<Longrightarrow> (h, e) \<in># contents (t_slots t) \<and> eq e"
    and "\<And>e. r = None \<Longrightarrow> (h, e) \<in># contents (t_slots t) \<Longrightarrow> \<not> eq e"
proof -
  let ?n = "tcap t" and ?a = "home_slot h (t_mask t)"
  let ?P = "\<lambda>p. \<not> occ t p \<or> slot_hash t p = h \<and> eq (the (slot_e t p))"
  from assms(1) obtain k where k: "?n = 2 ^ k" and len: "length (t_slots t) = ?n"
    by (auto simp: table_shape_def)
  have a: "?a < ?n" using home_slot_less [OF k] .
  obtain q where q: "q < ?n" "\<not> occ t q" using contents_hole assms(3) len by metis
  obtain j where j: "scan ?n (t_mask t) ?P ?a = Some j" "j < ?n" "?P j"
      and before: "\<And>p. p < ?n \<Longrightarrow> cdist ?n ?a p < cdist ?n ?a j \<Longrightarrow> \<not> ?P p"
    by (rule scan_ends [OF k a q(1), of ?P ?n]) (use q cdist_less [OF a q(1)] in blast)+
  show thesis
  proof (rule that [of "slot_e t j"])
    show "find_loop ?n t h eq ?a = Some (slot_e t j)" 
      using j(1) by (simp add: find_loop_scan del: scan.simps)
    show "(h, e) \<in># contents (t_slots t) \<and> eq e" if "slot_e t j = Some e" for e
      using that j(2,3) len by (auto simp: mem_contents)
    show "\<not> eq e" if none: "slot_e t j = None" and mem: "(h, e) \<in># contents (t_slots t)" for e
    proof
      assume "eq e"
      from mem len obtain i where i: "i < ?n" "slot_hash t i = h" "slot_e t i = Some e"
        by (auto simp: mem_contents)
      then have "\<not> cdist ?n ?a i < cdist ?n ?a j" using before [of i] \<open>eq e\<close> by auto
      moreover have "cdist ?n ?a i \<noteq> cdist ?n ?a j"
        using cdist_inj [OF a i(1) j(2)] i(3) none by auto
      ultimately have "cdist ?n ?a j < cdist ?n (slot_home t i) i" using i(2) by simp
      then have "occ t j" using probe_okD [OF assms(2) i(1) _ j(2)] i(2,3) by simp
      then show False using none by simp
    qed
  qed
qed

subsection \<open>Placement and growth\<close>

lemma place_correct:
  assumes "table_shape t" and "probe_ok t" and "size (contents (t_slots t)) < tcap t"
  obtains t' where "place t h e = Some t'" and "table_shape t'" and "probe_ok t'"
    and "t_mask t' = t_mask t" and "contents (t_slots t') = add_mset (h, e) (contents (t_slots t))"
proof -
  let ?n = "tcap t" and ?a = "home_slot h (t_mask t)"
  from assms(1) obtain k where k: "?n = 2 ^ k" and len: "length (t_slots t) = ?n"
    by (auto simp: table_shape_def)
  have a: "?a < ?n" using home_slot_less [OF k] .
  obtain q where q: "q < ?n" "\<not> occ t q" using contents_hole assms(3) len by metis
  obtain j where j: "scan ?n (t_mask t) (\<lambda>p. \<not> occ t p) ?a = Some j" "j < ?n" "\<not> occ t j"
      and before: "\<And>p. p < ?n \<Longrightarrow> cdist ?n ?a p < cdist ?n ?a j \<Longrightarrow> occ t p"
    by (rule scan_ends [OF k a q(1), of "\<lambda>p. \<not> occ t p" ?n]) (use q cdist_less [OF a q(1)] in blast)+
  define t' where "t' = t\<lparr>t_slots := (t_slots t)[j := \<lparr>s_hash = h, s_e = Some e\<rparr>]\<rparr>"
  have slots: "t_slots t' ! p = (if p = j then \<lparr>s_hash = h, s_e = Some e\<rparr> else t_slots t ! p)"
    if "p < ?n" for p
    using that len by (simp add: t'_def nth_list_update)
  show thesis
  proof (rule that [of t'])
    show "place t h e = Some t'" 
      using j(1) by (simp add: place_def place_loop_scan t'_def del: scan.simps)
    show "table_shape t'" using assms(1) by (simp add: table_shape_def t'_def)
    show "t_mask t' = t_mask t" by (simp add: t'_def)
    show "probe_ok t'"
      unfolding probe_ok_def \<open>t_mask t' = t_mask t\<close>
    proof (intro allI impI)
      fix k p
      assume k: "k < ?n" "occ t' k" and p: "p < ?n"
        and lt: "cdist ?n (home_slot (slot_hash t' k) (t_mask t)) p
          < cdist ?n (home_slot (slot_hash t' k) (t_mask t)) k"
      have "occ t p" if "p \<noteq> j"
      proof (cases "k = j")
        case True
        then show ?thesis using lt before [OF p] slots [OF j(2)] by simp
      next
        case False
        then have "t_slots t' ! k = t_slots t ! k" using slots [OF k(1)] by simp
        then show ?thesis using probe_okD [OF assms(2) k(1) _ p] lt k(2) by simp
      qed
      then show "occ t' p" using slots [OF p] by (cases "p = j") simp_all
    qed
    have "slot_pairs (t_slots t ! j) = {#}" using j(3) by (auto simp: slot_pairs_def)
    then show "contents (t_slots t') = add_mset (h, e) (contents (t_slots t))"
      using contents_update [of j "t_slots t" "\<lparr>s_hash = h, s_e = Some e\<rparr>"] j(2) len
      by (simp add: t'_def slot_pairs_def)
  qed
qed

lemma rehash_correct:
  assumes "table_shape t" and "probe_ok t"
    and "size (contents ss) + size (contents (t_slots t)) < tcap t"
  obtains t' where "rehash ss t = Some t'" and "table_shape t'" and "probe_ok t'"
    and "t_mask t' = t_mask t" and "contents (t_slots t') = contents ss + contents (t_slots t)"
proof -
  have "\<exists>t'. rehash ss t = Some t' \<and> table_shape t' \<and> probe_ok t' \<and> t_mask t' = t_mask t \<and>
      contents (t_slots t') = contents ss + contents (t_slots t)"
    using assms
  proof (induction ss arbitrary: t)
    case Nil
    then show ?case by simp
  next
    case (Cons s ss)
    show ?case
    proof (cases "s_e s")
      case None
      then show ?thesis using Cons.IH [of t] Cons.prems by (simp add: slot_pairs_def)
    next
      case (Some e)
      have "size (contents (t_slots t)) < tcap t" using Cons.prems(3) by simp
      with Cons.prems(1,2) obtain t1 where t1: "place t (s_hash s) e = Some t1" "table_shape t1"
        "probe_ok t1" "t_mask t1 = t_mask t"
        "contents (t_slots t1) = add_mset (s_hash s, e) (contents (t_slots t))"
        by (rule place_correct)
      then show ?thesis
        using Cons.IH [of t1] Cons.prems(3) Some by (simp add: slot_pairs_def)
    qed
  qed
  then show thesis using that by blast
qed

lemma new_table_ok:
  "table_shape (new_table (2 ^ k))" "probe_ok (new_table (2 ^ k))"
  "contents (t_slots (new_table (2 ^ k))) = {#}" "tcap (new_table (2 ^ k)) = 2 ^ k"
proof -
  have "contents (replicate n empty_slot) = {#}" for n
    by (induction n) (simp_all add: slot_pairs_def empty_slot_def)
  then show "contents (t_slots (new_table (2 ^ k))) = {#}" by (simp add: new_table_def)
qed (auto simp: table_shape_def new_table_def probe_ok_def empty_slot_def)

subsection \<open>Backward-shift deletion\<close>

text \<open>
  The state of the shift loop: \<open>i\<close> is the hole (its stored slot is stale), \<open>j\<close> the slot
  being examined. Every element's probe path avoids holes other than \<open>i\<close>, the slots strictly
  between \<open>i\<close> and \<open>j\<close> are occupied by elements whose path does not cross \<open>i\<close>, and some
  other slot is empty.
\<close>

definition crosses :: "Table \<Rightarrow> nat \<Rightarrow> nat \<Rightarrow> bool" where
  "crosses t k i \<longleftrightarrow> cdist (tcap t) (slot_home t k) i < cdist (tcap t) (slot_home t k) k"

definition shift_inv :: "Table \<Rightarrow> nat \<Rightarrow> nat \<Rightarrow> bool" where
  "shift_inv t i j \<longleftrightarrow> i < tcap t \<and> j < tcap t \<and> i \<noteq> j \<and>
     (\<forall>k<tcap t. k \<noteq> i \<longrightarrow> occ t k \<longrightarrow> (\<forall>p<tcap t. p \<noteq> i \<longrightarrow> crosses t k p \<longrightarrow> occ t p)) \<and>
     (\<forall>k<tcap t. 0 < cdist (tcap t) i k \<longrightarrow> cdist (tcap t) i k < cdist (tcap t) i j \<longrightarrow>
        occ t k \<and> \<not> crosses t k i)"

lemma shift_invD:
  assumes "shift_inv t i j"
  shows "i < tcap t" and "j < tcap t" and "i \<noteq> j"
    and "\<And>k p. \<lbrakk>k < tcap t; k \<noteq> i; occ t k; p < tcap t; p \<noteq> i; crosses t k p\<rbrakk> \<Longrightarrow> occ t p"
    and "\<And>k. \<lbrakk>k < tcap t; 0 < cdist (tcap t) i k; cdist (tcap t) i k < cdist (tcap t) i j\<rbrakk>
      \<Longrightarrow> occ t k \<and> \<not> crosses t k i"
  using assms unfolding shift_inv_def by blast+

lemma in_range_crosses:
  assumes "i < n" and "j < n" and "h < n" and "i \<noteq> j"
  shows "in_range i j h \<longleftrightarrow> \<not> cdist n h i < cdist n h j"
  unfolding in_range_def cdist_def using assms
  by (cases "i \<le> j"; cases "h \<le> i"; cases "h \<le> j"; simp; linarith)

lemma cdist_triangle:
  assumes "a < n" and "b < n" and "c < n"
  shows "cdist n a c = (if cdist n a b + cdist n b c < n then cdist n a b + cdist n b c
    else cdist n a b + cdist n b c - n)"
  using assms unfolding cdist_def by (cases "a \<le> b"; cases "b \<le> c"; cases "a \<le> c"; simp add: add.commute)

lemma cdist_through:
  assumes "h < n" and "i < n" and "j < n" and "k < n" and "j \<noteq> k"
    and "cdist n h i < cdist n h k" and "\<not> cdist n i k < cdist n i j"
  shows "cdist n h j < cdist n h k"
proof -
  have "cdist n i k < n" using assms cdist_less by blast
  then have "cdist n h k = cdist n h i + cdist n i k" "cdist n h i + cdist n i k < n"
    using cdist_triangle [OF assms(1,2,4)] assms(6) by (auto split: if_splits)
  moreover have "cdist n i j < cdist n i k"
    using assms cdist_inj [OF assms(2,3,4)] by linarith
  ultimately show ?thesis
    using cdist_triangle [OF assms(1,2,3)] by simp
qed

lemma cdist_suc_right:
  assumes "i < n" and "j < n" and "wrap_suc n j \<noteq> i"
  shows "cdist n i (wrap_suc n j) = cdist n i j + 1"
  using assms unfolding cdist_def wrap_suc_def
  by (cases "j + 1 = n"; cases "i \<le> j"; simp)

lemma cdist_last: "i < n \<Longrightarrow> j < n \<Longrightarrow> q < n \<Longrightarrow> wrap_suc n j = i \<Longrightarrow> cdist n i q \<le> cdist n i j"
  unfolding cdist_def wrap_suc_def by (cases "j + 1 = n"; cases "i \<le> j"; cases "i \<le> q"; simp)

lemma shape_home_less: "table_shape t \<Longrightarrow> home_slot h (t_mask t) < tcap t"
  using home_slot_less by (auto simp: table_shape_def)

definition punch :: "Table \<Rightarrow> nat \<Rightarrow> Table" where
  "punch t i = t\<lparr>t_slots := (t_slots t)[i := (t_slots t ! i)\<lparr>s_e := None\<rparr>]\<rparr>"

lemma punch_simps [simp]:
  "t_mask (punch t i) = t_mask t" "length (t_slots (punch t i)) = length (t_slots t)"
  "p \<noteq> i \<Longrightarrow> t_slots (punch t i) ! p = t_slots t ! p"
  "i < length (t_slots t) \<Longrightarrow> slot_e (punch t i) i = None"
  by (simp_all add: punch_def)

lemma shift_inv_done:
  assumes inv: "shift_inv t i j" and "\<not> occ t j" and shape: "table_shape t"
  shows "probe_ok (punch t i)"
  unfolding probe_ok_def punch_simps(1)
proof (intro allI impI)
  let ?n = "tcap t"
  note D = shift_invD [OF inv]
  have len: "length (t_slots t) = ?n" using shape by (simp add: table_shape_def)
  fix k p assume k: "k < ?n" "occ (punch t i) k" and p: "p < ?n"
    and lt: "cdist ?n (home_slot (slot_hash (punch t i) k) (t_mask t)) p
          < cdist ?n (home_slot (slot_hash (punch t i) k) (t_mask t)) k"
  have ki: "k \<noteq> i" using k(2) D(1) len by auto
  with k lt have occ: "occ t k" and cr: "crosses t k p" by (simp_all add: crosses_def)
  have "j \<noteq> k" using occ assms(2) by auto
  have "p \<noteq> i"
  proof
    assume "p = i"
    then have "\<not> cdist ?n i k < cdist ?n i j"
      using D(5) [OF k(1)] cr ki cdist_eq_0 [OF D(1) k(1)] by auto
    then have "crosses t k j"
      using cdist_through [OF shape_home_less [OF shape] D(1,2) k(1) \<open>j \<noteq> k\<close>] cr \<open>p = i\<close>
      by (auto simp: crosses_def)
    then show False using D(4) [OF k(1) ki occ D(2)] D(3) assms(2) by auto
  qed
  then show "occ (punch t i) p"
    using D(4) [OF k(1) ki occ p _ cr] by simp
qed

lemma shift_inv_keep:
  assumes inv: "shift_inv t i j" and "occ t j" and "\<not> crosses t j i"
    and q: "q < tcap t" "q \<noteq> i" "\<not> occ t q"
  shows "shift_inv t i (wrap_suc (tcap t) j)"
proof -
  let ?n = "tcap t" and ?j = "wrap_suc (tcap t) j"
  note D = shift_invD [OF inv]
  have upto: "occ t k \<and> \<not> crosses t k i"
    if "k < ?n" "0 < cdist ?n i k" "cdist ?n i k \<le> cdist ?n i j" for k
  proof (cases "k = j")
    case True
    then show ?thesis using assms(2,3) by simp
  next
    case False
    then have "cdist ?n i k \<noteq> cdist ?n i j" using cdist_inj [OF D(1) that(1) D(2)] by blast
    then show ?thesis using D(5) that by simp
  qed
  have "\<not> cdist ?n i q \<le> cdist ?n i j"
    using upto [OF q(1)] q cdist_eq_0 [OF D(1) q(1)] by auto
  then have ji: "?j \<noteq> i" using cdist_last [OF D(1,2) q(1)] by auto
  show ?thesis
    unfolding shift_inv_def
  proof (intro conjI allI impI)
    show "i < ?n" "?j < ?n" "i \<noteq> ?j" using D(1,2) ji wrap_suc_less by auto
    fix k assume k: "k < ?n"
    show "occ t p" if "k \<noteq> i" "occ t k" "p < ?n" "p \<noteq> i" "crosses t k p" for p
      using D(4) k that by blast
    assume "0 < cdist ?n i k" "cdist ?n i k < cdist ?n i ?j"
    then show "occ t k" "\<not> crosses t k i"
      using upto [OF k] cdist_suc_right [OF D(1,2) ji] by simp_all
  qed
qed

lemma shift_inv_move:
  assumes inv: "shift_inv t i j" and occj: "occ t j" and cr: "crosses t j i"
    and shape: "table_shape t" and q: "q < tcap t" "q \<noteq> i" "\<not> occ t q"
  defines "t' \<equiv> t\<lparr>t_slots := (t_slots t)[i := t_slots t ! j]\<rparr>"
  shows "shift_inv t' j (wrap_suc (tcap t) j)" and "q \<noteq> j" and "\<not> occ t' q"
proof -
  let ?n = "tcap t"
  note D = shift_invD [OF inv]
  have len: "length (t_slots t) = ?n" using shape by (simp add: table_shape_def)
  have m [simp]: "t_mask t' = t_mask t" by (simp add: t'_def)
  have si: "t_slots t' ! i = t_slots t ! j" using D(1) len by (simp add: t'_def)
  have so: "t_slots t' ! p = t_slots t ! p" if "p \<noteq> i" for p using that by (simp add: t'_def)
  show "q \<noteq> j" using occj q by auto
  show "\<not> occ t' q" using q so by simp
  have "i \<noteq> j" and "?n > 1" using D(1-3) by auto
  show "shift_inv t' j (wrap_suc ?n j)"
    unfolding shift_inv_def m
  proof (intro conjI allI impI)
    show "j < ?n" "wrap_suc ?n j < ?n" "j \<noteq> wrap_suc ?n j"
      using D(2) \<open>?n > 1\<close> wrap_suc_less by (auto simp: wrap_suc_def)
    fix k assume k: "k < ?n"
    show "occ t' p" if "k \<noteq> j" "occ t' k" "p < ?n" "p \<noteq> j" "crosses t' k p" for p
    proof (cases "p = i")
      case True
      then show ?thesis using si occj by simp
    next
      case False
      have "occ t p"
      proof (cases "k = i")
        case True
        then have "crosses t j p"
          using that(5) cr si by (simp add: crosses_def)
        then show ?thesis using D(4) [OF D(2) _ occj that(3) False] D(3) by auto
      next
        case k: False
        then show ?thesis
          using D(4) [OF \<open>k < ?n\<close> k _ that(3) False] that(2,5) so [OF k] by (simp add: crosses_def)
      qed
      then show ?thesis using so [OF False] by simp
    qed
    assume "0 < cdist ?n j k" "cdist ?n j k < cdist ?n j (wrap_suc ?n j)"
    moreover have "cdist ?n j (wrap_suc ?n j) = 1"
      using cdist_suc_right [OF D(2,2)] \<open>j \<noteq> wrap_suc ?n j\<close> by (simp add: cdist_def)
    ultimately show "occ t' k" "\<not> crosses t' k j" by simp_all
  qed
qed

text \<open>The loop ends, and leaves the same elements with a sound probe order.\<close>

lemma contents_punch:
  "i < length (t_slots t) \<Longrightarrow>
     contents (t_slots (punch t i)) + slot_pairs (t_slots t ! i) = contents (t_slots t)"
  using contents_update [of i "t_slots t" "(t_slots t ! i)\<lparr>s_e := None\<rparr>"]
  by (simp add: punch_def slot_pairs_def)

lemma contents_punch_move:
  assumes "i < length ss" and "j < length ss" and "i \<noteq> j" and "t_slots t = ss"
  shows "contents (t_slots (punch (t\<lparr>t_slots := ss[i := ss ! j]\<rparr>) j)) =
    contents (t_slots (punch t i))"
proof -
  let ?t = "t\<lparr>t_slots := ss[i := ss ! j]\<rparr>"
  have a: "contents (t_slots (punch ?t j)) + slot_pairs (ss ! j) = contents (ss[i := ss ! j])"
    using contents_punch [of j ?t] assms by simp
  have b: "contents (t_slots (punch t i)) + slot_pairs (ss ! i) = contents ss"
    using contents_punch [of i t] assms by simp
  have "contents (ss[i := ss ! j]) + slot_pairs (ss ! i) = contents ss + slot_pairs (ss ! j)"
    using contents_update [OF assms(1)] .
  then show ?thesis unfolding a [symmetric] b [symmetric] by (simp add: ac_simps)
qed

lemma shift_loop_correct:
  assumes "shift_inv t i j" and "table_shape t" and "q < tcap t" and "q \<noteq> i" and "\<not> occ t q"
    and "cdist (tcap t) j q < f"
  shows "\<exists>t' i'. shift_loop f t i j = Some (t', i') \<and> probe_ok (punch t' i') \<and>
    table_shape (punch t' i') \<and> t_mask t' = t_mask t \<and>
    contents (t_slots (punch t' i')) = contents (t_slots (punch t i))"
  using assms
proof (induction f arbitrary: t i j)
  case 0
  then show ?case by simp
next
  case (Suc f)
  let ?n = "tcap t"
  note D = shift_invD [OF Suc.prems(1)]
  have len: "length (t_slots t) = ?n" and "\<exists>k. ?n = 2 ^ k"
    using Suc.prems(2) by (auto simp: table_shape_def)
  then have nx: "next_slot j (t_mask t) = wrap_suc ?n j" using next_slot_wrap D(2) by blast
  have range: "in_range i j (slot_home t j) \<longleftrightarrow> \<not> crosses t j i"
    using in_range_crosses [OF D(1,2) shape_home_less [OF Suc.prems(2)] D(3)]
    by (simp add: crosses_def)
  have dist: "cdist ?n (wrap_suc ?n j) q < f" if "occ t j"
  proof -
    have "q \<noteq> j" using that Suc.prems(5) by auto
    then show ?thesis using cdist_wrap_suc [OF D(2) Suc.prems(3)] Suc.prems(6) by simp
  qed
  consider "\<not> occ t j" | "occ t j" "\<not> crosses t j i" | "occ t j" "crosses t j i" by blast
  then show ?case
  proof cases
    case 1
    then have "shift_loop (Suc f) t i j = Some (t, i)" by (simp add: Let_def)
    then show ?thesis
      using shift_inv_done [OF Suc.prems(1) 1 Suc.prems(2)] Suc.prems(2)
      by (auto simp: table_shape_def)
  next
    case 2
    then have "shift_loop (Suc f) t i j = shift_loop f t i (wrap_suc ?n j)"
      using nx range by (auto simp: Let_def)
    then show ?thesis
      using Suc.IH [OF shift_inv_keep [OF Suc.prems(1) 2 Suc.prems(3-5)] Suc.prems(2-5)] dist 2
      by (simp del: shift_loop.simps)
  next
    case 3
    define t' where "t' = t\<lparr>t_slots := (t_slots t)[i := t_slots t ! j]\<rparr>"
    have "shift_loop (Suc f) t i j = shift_loop f t' j (wrap_suc ?n j)"
      using nx range 3 by (auto simp: Let_def t'_def)
    moreover have m: "t_mask t' = t_mask t" "table_shape t'"
      using Suc.prems(2) by (simp_all add: t'_def table_shape_def)
    moreover note mv = shift_inv_move [OF Suc.prems(1) 3 Suc.prems(2-5), folded t'_def]
    moreover have "contents (t_slots (punch t' j)) = contents (t_slots (punch t i))"
      unfolding t'_def using D(1-3) len by (intro contents_punch_move) auto
    ultimately show ?thesis
      using Suc.IH [of t' j "wrap_suc ?n j"] Suc.prems(3) dist [OF 3(1)]
      by (simp del: shift_loop.simps)
  qed
qed

subsection \<open>The index invariant\<close>

definition fi_contents :: "FlatIndex \<Rightarrow> (u64 \<times> addr) multiset" where
  "fi_contents ix = (case fi_t ix of None \<Rightarrow> {#} | Some t \<Rightarrow> contents (t_slots t))"

definition retired_slots :: "FlatIndex \<Rightarrow> nat" where
  "retired_slots ix = sum_list (map tcap (fi_retired ix))"

definition fi_inv :: "FlatIndex \<Rightarrow> bool" where
  "fi_inv ix = (case fi_t ix of
     None \<Rightarrow> fi_count ix = 0 \<and> fi_retired ix = []
   | Some t \<Rightarrow> table_shape t \<and> probe_ok t \<and> fi_count ix = size (contents (t_slots t)) \<and>
       fi_count ix * 10 \<le> tcap t * 7 \<and> retired_slots ix < tcap t \<and> 1024 \<le> tcap t)"

lemma fi_inv_Some:
  assumes "fi_inv ix" and "fi_t ix = Some t"
  shows "table_shape t" and "probe_ok t" and "fi_count ix = size (contents (t_slots t))"
    and "fi_count ix * 10 \<le> tcap t * 7" and "retired_slots ix < tcap t"
    and "size (contents (t_slots t)) < tcap t" and "1024 \<le> tcap t"
  using assms by (auto simp: fi_inv_def)

lemma fi_find_correct:
  assumes "fi_inv ix"
  obtains r where "fi_find ix h eq = Some r"
    and "\<And>e. r = Some e \<Longrightarrow> (h, e) \<in># fi_contents ix \<and> eq e"
    and "\<And>e. r = None \<Longrightarrow> (h, e) \<in># fi_contents ix \<Longrightarrow> \<not> eq e"
proof (cases "fi_t ix")
  case None
  then show thesis using that [of None] by (simp add: fi_find_def fi_contents_def)
next
  case (Some t)
  note I = fi_inv_Some [OF assms Some]
  show thesis
    by (rule find_loop_correct [OF I(1,2,6), of h eq], rule that)
      (auto simp: fi_find_def fi_contents_def Some)
qed

lemma fi_grow_correct:
  assumes "fi_inv ix"
  obtains ix' t where "fi_grow ix = Some ix'" and "fi_inv ix'" and "fi_t ix' = Some t"
    and "fi_contents ix' = fi_contents ix" and "fi_count ix' = fi_count ix"
    and "(fi_count ix' + 1) * 10 \<le> tcap t * 7"
proof (cases "fi_t ix")
  case None
  have c: "(1024 :: nat) = 2 ^ 10" by simp
  define ix' where "ix' = ix\<lparr>fi_t := Some (new_table 1024)\<rparr>"
  have *: "fi_count ix = 0" "fi_retired ix = []" using assms None by (auto simp: fi_inv_def)
  note T = new_table_ok [of 10, folded c]
  show thesis
    by (rule that [of ix' "new_table 1024"])
      (use None * T in \<open>simp_all add: ix'_def fi_grow_def fi_inv_def fi_contents_def
        retired_slots_def\<close>)
next
  case (Some old)
  note I = fi_inv_Some [OF assms Some]
  from I(1) obtain k where k: "tcap old = 2 ^ k" by (auto simp: table_shape_def)
  have cap: "(t_mask old + 1) * 2 = 2 ^ Suc k" using k by simp
  note T = new_table_ok [of "Suc k", folded cap]
  have "size (contents (t_slots old)) + size (contents (t_slots (new_table ((t_mask old + 1) * 2))))
      < tcap (new_table ((t_mask old + 1) * 2))"
    unfolding T(3,4) using I(6) by simp
  from rehash_correct [OF T(1,2) this] obtain t where
    t: "rehash (t_slots old) (new_table ((t_mask old + 1) * 2)) = Some t" "table_shape t" "probe_ok t"
      "t_mask t = t_mask (new_table ((t_mask old + 1) * 2))" "contents (t_slots t) = contents (t_slots old)"
    using T(3) by auto
  define ix' where "ix' = ix\<lparr>fi_t := Some t, fi_retired := fi_retired ix @ [old]\<rparr>"
  have tc: "tcap t = tcap old * 2" using t(4) T(4) by simp
  show thesis
  proof (rule that [of ix' t])
    show "fi_grow ix = Some ix'" using t(1) Some by (simp add: fi_grow_def ix'_def Let_def)
    show "fi_inv ix'"
      using t(2,3,5) I(3,4,5,7) tc by (simp add: fi_inv_def ix'_def retired_slots_def)
    show "(fi_count ix' + 1) * 10 \<le> tcap t * 7"
      using I(4,7) tc by (simp add: ix'_def)
  qed (use Some t(5) in \<open>simp_all add: ix'_def fi_contents_def\<close>)
qed

lemma fi_insert_correct:
  assumes "fi_inv ix"
  obtains ix' where "fi_insert ix h e = Some ix'" and "fi_inv ix'"
    and "fi_contents ix' = add_mset (h, e) (fi_contents ix)"
proof -
  obtain ix1 t where ix1: "(if needs_grow ix then fi_grow ix else Some ix) = Some ix1"
    "fi_inv ix1" "fi_t ix1 = Some t" "fi_contents ix1 = fi_contents ix"
    "(fi_count ix1 + 1) * 10 \<le> tcap t * 7"
  proof (cases "needs_grow ix")
    case True
    then show thesis using fi_grow_correct [OF assms] that by metis
  next
    case False
    then obtain t where "fi_t ix = Some t" by (auto simp: needs_grow_def split: option.splits)
    then show thesis using that [of ix t] False assms by (simp add: needs_grow_def)
  qed
  note I = fi_inv_Some [OF ix1(2,3)]
  obtain t' where t': "place t h e = Some t'" "table_shape t'" "probe_ok t'" "t_mask t' = t_mask t"
    "contents (t_slots t') = add_mset (h, e) (contents (t_slots t))"
    using place_correct [OF I(1,2,6)] by blast
  define ix2 where "ix2 = ix1\<lparr>fi_t := Some t', fi_count := fi_count ix1 + 1\<rparr>"
  show thesis
  proof (rule that [of ix2])
    show "fi_insert ix h e = Some ix2"
      using ix1(1,3) t'(1) by (simp add: fi_insert_def ix2_def)
    show "fi_inv ix2"
      using t' I ix1(5) by (simp add: fi_inv_def ix2_def retired_slots_def)
    show "fi_contents ix2 = add_mset (h, e) (fi_contents ix)"
      using t'(5) ix1(3,4) by (simp add: fi_contents_def ix2_def)
  qed
qed

lemma shift_inv_start:
  assumes "probe_ok t" and "i < tcap t" and "q < tcap t" and "q \<noteq> i"
  shows "shift_inv t i (wrap_suc (tcap t) i)"
  unfolding shift_inv_def
proof (intro conjI allI impI)
  let ?n = "tcap t"
  show "i < ?n" "wrap_suc ?n i < ?n" "i \<noteq> wrap_suc ?n i"
    using assms wrap_suc_less by (auto simp: wrap_suc_def)
  fix k assume k: "k < ?n"
  show "occ t p" if "k \<noteq> i" "occ t k" "p < ?n" "p \<noteq> i" "crosses t k p" for p
    using probe_okD [OF assms(1) k that(2,3)] that(5) by (simp add: crosses_def)
  assume "0 < cdist ?n i k" "cdist ?n i k < cdist ?n i (wrap_suc ?n i)"
  moreover have "cdist ?n i (wrap_suc ?n i) = 1"
    using cdist_suc_right [OF assms(2,2)] \<open>i \<noteq> wrap_suc ?n i\<close> by (simp add: cdist_def)
  ultimately show "occ t k" "\<not> crosses t k i" by simp_all
qed

lemma erase_probe_correct:
  assumes "table_shape t" and "probe_ok t" and "size (contents (t_slots t)) < tcap t"
    and "(h, e) \<in># contents (t_slots t)"
  obtains i where "erase_probe (tcap t) t e (home_slot h (t_mask t)) = Some (Some i)"
    and "i < tcap t" and "slot_e t i = Some e"
proof -
  let ?n = "tcap t" and ?a = "home_slot h (t_mask t)"
  let ?P = "\<lambda>p. slot_e t p = Some e \<or> \<not> occ t p"
  from assms(1) obtain k where k: "?n = 2 ^ k" and len: "length (t_slots t) = ?n"
    by (auto simp: table_shape_def)
  have a: "?a < ?n" using home_slot_less [OF k] .
  from assms(4) len obtain i where i: "i < ?n" "slot_hash t i = h" "slot_e t i = Some e"
    by (auto simp: mem_contents)
  obtain j where j: "scan ?n (t_mask t) ?P ?a = Some j" "j < ?n" "?P j"
      and before: "\<And>p. p < ?n \<Longrightarrow> cdist ?n ?a p < cdist ?n ?a j \<Longrightarrow> \<not> ?P p"
    by (rule scan_ends [OF k a i(1), of ?P ?n]) (use i(3) cdist_less [OF a i(1)] in blast)+
  have "slot_e t j = Some e"
  proof (cases "j = i")
    case False
    then have "cdist ?n ?a j < cdist ?n ?a i"
      using before [OF i(1)] i(3) cdist_inj [OF a j(2) i(1)] by fastforce
    then have "occ t j" using probe_okD [OF assms(2) i(1) _ j(2)] i(2,3) by simp
    then show ?thesis using j(3) by simp
  qed (use i in simp)
  then show thesis
    using that [of j] j(1,2) by (simp add: erase_probe_scan del: scan.simps)
qed

lemma fi_erase_correct:
  assumes "fi_inv ix" and "(h, e) \<in># fi_contents ix"
    and uniq: "\<And>h'. (h', e) \<in># fi_contents ix \<Longrightarrow> h' = h"
  obtains ix' where "fi_erase ix h e = Some ix'" and "fi_inv ix'"
    and "fi_contents ix' = fi_contents ix - {#(h, e)#}"
proof -
  obtain t where t: "fi_t ix = Some t"
    using assms(2) by (cases "fi_t ix") (auto simp: fi_contents_def)
  note I = fi_inv_Some [OF assms(1) t]
  have c: "fi_contents ix = contents (t_slots t)" by (simp add: fi_contents_def t)
  have len: "length (t_slots t) = tcap t" and "\<exists>k. tcap t = 2 ^ k"
    using I(1) by (auto simp: table_shape_def)
  obtain i where i: "erase_probe (tcap t) t e (home_slot h (t_mask t)) = Some (Some i)"
    "i < tcap t" "slot_e t i = Some e"
    using erase_probe_correct [OF I(1,2,6)] assms(2) c by metis
  then have nx: "next_slot i (t_mask t) = wrap_suc (tcap t) i"
    using next_slot_wrap \<open>\<exists>k. tcap t = 2 ^ k\<close> by blast
  obtain q where q: "q < tcap t" "\<not> occ t q" using contents_hole I(6) len by metis
  then have "q \<noteq> i" using i(3) by auto
  then obtain t' i' where s: "shift_loop (tcap t) t i (wrap_suc (tcap t) i) = Some (t', i')"
    "probe_ok (punch t' i')" "table_shape (punch t' i')" "t_mask t' = t_mask t"
    "contents (t_slots (punch t' i')) = contents (t_slots (punch t i))"
    using shift_loop_correct [OF shift_inv_start [OF I(2) i(2) q(1)] I(1) q(1) _ q(2), of "tcap t"]
      cdist_less [OF wrap_suc_less [OF i(2)] q(1)] by blast
  have "slot_hash t i = h"
    using uniq [of "slot_hash t i"] i(2,3) len unfolding c by (auto simp: mem_contents)
  then have "add_mset (h, e) (contents (t_slots (punch t i))) = contents (t_slots t)"
    using contents_punch [of i t] i(2,3) len by (simp add: slot_pairs_def)
  then have ct: "contents (t_slots (punch t i)) = contents (t_slots t) - {#(h, e)#}"
    by (metis add_mset_remove_trivial)
  define ix' where "ix' = ix\<lparr>fi_t := Some (punch t' i'), fi_count := fi_count ix - 1\<rparr>"
  show thesis
  proof (rule that [of ix'])
    show "fi_erase ix h e = Some ix'"
      using t i(1) s(1) nx by (simp add: fi_erase_def ix'_def punch_def)
    show "fi_contents ix' = fi_contents ix - {#(h, e)#}"
      using s(5) ct c by (simp add: fi_contents_def ix'_def)
    show "fi_inv ix'"
      using s(2-5) ct I(3-7) assms(2) c
      by (simp add: fi_inv_def ix'_def retired_slots_def size_Diff_singleton)
  qed
qed

lemma fi_inv_empty [simp]: "fi_inv empty_index" "fi_contents empty_index = {#}"
  by (simp_all add: fi_inv_def empty_index_def fi_contents_def)

lemma fi_clear_correct [simp]: "fi_clear ix = empty_index"
  by (simp add: fi_clear_def empty_index_def)

subsection \<open>The interface\<close>

text \<open>
  The total versions the cache shard calls: under the invariant the loops end, so these are
  the results of the operations above.
\<close>

definition ix_find :: "FlatIndex \<Rightarrow> u64 \<Rightarrow> (addr \<Rightarrow> bool) \<Rightarrow> addr option" where
  "ix_find ix h eq = (case fi_find ix h eq of Some r \<Rightarrow> r | None \<Rightarrow> None)"

definition ix_insert :: "FlatIndex \<Rightarrow> u64 \<Rightarrow> addr \<Rightarrow> FlatIndex" where
  "ix_insert ix h e = (case fi_insert ix h e of Some ix' \<Rightarrow> ix' | None \<Rightarrow> ix)"

definition ix_erase :: "FlatIndex \<Rightarrow> u64 \<Rightarrow> addr \<Rightarrow> FlatIndex" where
  "ix_erase ix h e = (case fi_erase ix h e of Some ix' \<Rightarrow> ix' | None \<Rightarrow> ix)"

locale key_index =
  fixes empty :: 'ix
    and lookup :: "'ix \<Rightarrow> u64 \<Rightarrow> (addr \<Rightarrow> bool) \<Rightarrow> addr option"
    and ins :: "'ix \<Rightarrow> u64 \<Rightarrow> addr \<Rightarrow> 'ix"
    and del :: "'ix \<Rightarrow> u64 \<Rightarrow> addr \<Rightarrow> 'ix"
    and inv :: "'ix \<Rightarrow> bool"
    and elems :: "'ix \<Rightarrow> (u64 \<times> addr) multiset"
  assumes inv_empty: "inv empty" and elems_empty: "elems empty = {#}"
    and lookup_sound: "inv ix \<Longrightarrow> lookup ix h eq = Some e \<Longrightarrow> (h, e) \<in># elems ix \<and> eq e"
    and lookup_complete: "inv ix \<Longrightarrow> lookup ix h eq = None \<Longrightarrow> (h, e) \<in># elems ix \<Longrightarrow> \<not> eq e"
    and ins: "inv ix \<Longrightarrow> inv (ins ix h e) \<and> elems (ins ix h e) = add_mset (h, e) (elems ix)"
    and del: "inv ix \<Longrightarrow> (h, e) \<in># elems ix \<Longrightarrow> (\<And>h'. (h', e) \<in># elems ix \<Longrightarrow> h' = h) \<Longrightarrow>
      inv (del ix h e) \<and> elems (del ix h e) = elems ix - {#(h, e)#}"
begin

text \<open>A lookup whose match is unique returns it; an absent key is not found.\<close>

lemma lookup_unique:
  assumes "inv ix" and "(h, e) \<in># elems ix" and "eq e"
    and "\<And>e'. (h, e') \<in># elems ix \<Longrightarrow> eq e' \<Longrightarrow> e' = e"
  shows "lookup ix h eq = Some e"
proof (cases "lookup ix h eq")
  case None
  then show ?thesis using lookup_complete [OF assms(1) None assms(2)] assms(3) by simp
next
  case (Some e')
  then show ?thesis using lookup_sound [OF assms(1) Some] assms(4) by blast
qed

lemma lookup_absent:
  "inv ix \<Longrightarrow> (\<And>e. (h, e) \<in># elems ix \<Longrightarrow> \<not> eq e) \<Longrightarrow> lookup ix h eq = None"
  using lookup_sound [of ix h eq] by (cases "lookup ix h eq") auto

end

lemma ix_find_correct:
  assumes "fi_inv ix"
  shows "fi_find ix h eq = Some (ix_find ix h eq)"
    and "ix_find ix h eq = Some e \<Longrightarrow> (h, e) \<in># fi_contents ix \<and> eq e"
    and "ix_find ix h eq = None \<Longrightarrow> (h, e) \<in># fi_contents ix \<Longrightarrow> \<not> eq e"
  by (rule fi_find_correct [OF assms, of h eq], simp add: ix_find_def)+

lemma ix_insert_correct:
  assumes "fi_inv ix"
  shows "fi_insert ix h e = Some (ix_insert ix h e) \<and> fi_inv (ix_insert ix h e) \<and>
    fi_contents (ix_insert ix h e) = add_mset (h, e) (fi_contents ix)"
  by (rule fi_insert_correct [OF assms, of h e]) (simp add: ix_insert_def)

lemma ix_erase_correct:
  assumes "fi_inv ix" and "(h, e) \<in># fi_contents ix"
    and "\<And>h'. (h', e) \<in># fi_contents ix \<Longrightarrow> h' = h"
  shows "fi_erase ix h e = Some (ix_erase ix h e) \<and> fi_inv (ix_erase ix h e) \<and>
    fi_contents (ix_erase ix h e) = fi_contents ix - {#(h, e)#}"
  by (rule fi_erase_correct [OF assms]) (simp_all add: ix_erase_def)

interpretation fi: key_index empty_index ix_find ix_insert ix_erase fi_inv fi_contents
proof (unfold_locales, goal_cases)
  case (3 ix h eq e)
  then show ?case by (rule ix_find_correct(2))
next
  case (4 ix h eq e)
  then show ?case by (rule ix_find_correct(3))
next
  case (5 ix h e)
  then show ?case using ix_insert_correct by blast
next
  case (6 ix h e)
  then show ?case using ix_erase_correct by blast
qed simp_all

subsection \<open>Properties\<close>

text \<open>C3. The index is a correct table whatever the hashes: on every index satisfying the
  invariant, lookup, insertion (with its growth) and deletion end, a lookup returns an
  element with the probed hash that satisfies the comparison and misses only if there is
  none, an insertion adds exactly one element, and the backward-shift deletion of an element
  removes exactly that one and leaves every other element reachable from its home slot; all
  of them keep the load at or below 0.7.\<close>

theorem flat_index_correct:
  assumes "fi_inv ix"
  shows "(\<exists>r. fi_find ix h eq = Some r \<and>
           (case r of Some e \<Rightarrow> (h, e) \<in># fi_contents ix \<and> eq e
            | None \<Rightarrow> \<forall>e. (h, e) \<in># fi_contents ix \<longrightarrow> \<not> eq e)) \<and>
    (\<exists>ix'. fi_insert ix h e = Some ix' \<and> fi_inv ix' \<and>
       fi_contents ix' = add_mset (h, e) (fi_contents ix)) \<and>
    ((h, e) \<in># fi_contents ix \<and> (\<forall>h'. (h', e) \<in># fi_contents ix \<longrightarrow> h' = h) \<longrightarrow>
      (\<exists>ix'. fi_erase ix h e = Some ix' \<and> fi_inv ix' \<and>
         fi_contents ix' = fi_contents ix - {#(h, e)#}))"
proof -
  have "case ix_find ix h eq of Some e \<Rightarrow> (h, e) \<in># fi_contents ix \<and> eq e
      | None \<Rightarrow> \<forall>e. (h, e) \<in># fi_contents ix \<longrightarrow> \<not> eq e"
    using ix_find_correct(2,3) [OF assms, of h eq] by (cases "ix_find ix h eq") simp_all
  then show ?thesis
    using ix_find_correct(1) [OF assms] ix_insert_correct [OF assms] ix_erase_correct [OF assms]
    by blast
qed

theorem flat_index_correct_witness:
  "\<exists>ix'. fi_insert empty_index 5 7 = Some ix' \<and> fi_inv ix' \<and> fi_contents ix' = {#(5, 7)#}"
  using flat_index_correct [of empty_index 5 "\<lambda>_. True" 7] by simp

inductive index_reach :: "FlatIndex \<Rightarrow> bool" where
  start: "index_reach empty_index"
| insert: "index_reach ix \<Longrightarrow> fi_insert ix h e = Some ix' \<Longrightarrow> index_reach ix'"
| erase: "index_reach ix \<Longrightarrow> (h, e) \<in># fi_contents ix \<Longrightarrow>
    (\<And>h'. (h', e) \<in># fi_contents ix \<Longrightarrow> h' = h) \<Longrightarrow> fi_erase ix h e = Some ix' \<Longrightarrow> index_reach ix'"

lemma index_reach_inv: "index_reach ix \<Longrightarrow> fi_inv ix"
proof (induction rule: index_reach.induct)
  case (insert ix h e ix')
  then show ?case using ix_insert_correct [of ix h e] by simp
next
  case (erase ix h e ix')
  have "fi_erase ix h e = Some (ix_erase ix h e) \<and> fi_inv (ix_erase ix h e)"
    using ix_erase_correct [OF erase.IH erase.hyps(2,3)] by blast
  then show ?case using erase.hyps(4) by simp
qed simp

text \<open>The tables an index has outgrown, which are kept so that an unlocked prefetch never
  touches freed memory, together have fewer slots than the live one; this holds of every
  index reached from the empty one by insertions and deletions.\<close>

theorem retired_smaller_than_live:
  assumes "index_reach ix" and "fi_t ix = Some t"
  shows "retired_slots ix < length (t_slots t) \<and> fi_count ix * 10 \<le> length (t_slots t) * 7"
  using fi_inv_Some [OF index_reach_inv [OF assms(1)] assms(2)] by (simp add: table_shape_def)

theorem retired_smaller_than_live_witness:
  "\<exists>ix t. index_reach ix \<and> fi_t ix = Some t \<and> retired_slots ix < length (t_slots t)"
proof -
  obtain ix where ix: "fi_insert empty_index 5 7 = Some ix" "fi_contents ix = {#(5, 7)#}"
    using fi_insert_correct [of empty_index 5 7] by auto
  then have r: "index_reach ix" by (blast intro: index_reach.intros)
  obtain t where t: "fi_t ix = Some t" using ix(2) by (cases "fi_t ix") (auto simp: fi_contents_def)
  show ?thesis using retired_smaller_than_live [OF r t] r t by blast
qed

end
