(* ===== verification/Intrusive_Fifo.thy ===== *)
theory Intrusive_Fifo
  imports Flat_Index
begin

text \<open>
  Cache entries and the intrusive FIFO queues they are linked into (\<open>Entry\<close> and \<open>Fifo\<close> in
  \<^verbatim>\<open>server/cache/s3fifo_cache.cc\<close>). Entries live in a heap, a finite map from addresses;
  the queue operations update the \<open>prev\<close> and \<open>next\<close> fields of the heap exactly as the source
  does, and \<open>dll\<close> relates the pointers to the list of addresses they link. Key and value are
  byte lists (keys are at most 65535 bytes and values below 4 GiB on the wire, so the
  \<open>uint32_t\<close> lengths are exact), and a shared value carries its buffer's capacity.
\<close>

subsection \<open>Entries\<close>

datatype Queue = kSmall | kMain

record Entry =
  e_prev :: "addr option"
  e_next :: "addr option"
  e_seqno :: u64
  e_flags :: u32
  e_expiry :: u32
  e_pending :: u32
  e_vbid :: u16
  e_datatype :: u8
  e_deleted :: bool
  e_freq :: nat
  e_queue :: Queue
  e_key :: bytes
  e_value :: bytes
  e_shared :: "nat option"

type_synonym heap = "addr \<rightharpoonup> Entry"

definition kMapSlotOverhead :: nat where "kMapSlotOverhead = 24"
definition sizeof_Entry :: nat where "sizeof_Entry = 56"
definition sizeof_Ext :: nat where "sizeof_Ext = 16"

definition mapKey :: "Entry \<Rightarrow> bytes" where
  "mapKey e = bytes_le 2 (e_vbid e) @ e_key e"

definition charge :: "Entry \<Rightarrow> nat" where
  "charge e = sizeof_Entry + 2 + length (e_key e)
     + (case e_shared e of Some cap \<Rightarrow> sizeof_Ext + cap | None \<Rightarrow> length (e_value e))
     + kMapSlotOverhead"

definition create :: "u16 \<Rightarrow> bytes \<Rightarrow> bytes \<Rightarrow> u64 \<Rightarrow> u32 \<Rightarrow> u32 \<Rightarrow> u8 \<Rightarrow> bool \<Rightarrow> Entry" where
  "create vbid key value seqno flags expiry datatype deleted =
     \<lparr>e_prev = None, e_next = None, e_seqno = seqno, e_flags = flags, e_expiry = expiry,
      e_pending = 0, e_vbid = vbid, e_datatype = datatype, e_deleted = deleted, e_freq = 0,
      e_queue = kSmall, e_key = key, e_value = value, e_shared = None\<rparr>"

text \<open>\<open>ownerCap\<close> is the capacity of the buffer handed over with the value.\<close>

definition createShared :: "u16 \<Rightarrow> bytes \<Rightarrow> bytes \<Rightarrow> nat \<Rightarrow> u32 \<Rightarrow> u32 \<Rightarrow> u8 \<Rightarrow> bool \<Rightarrow> Entry" where
  "createShared vbid key value ownerCap flags expiry datatype deleted =
     \<lparr>e_prev = None, e_next = None, e_seqno = 0, e_flags = flags, e_expiry = expiry,
      e_pending = 0, e_vbid = vbid, e_datatype = datatype, e_deleted = deleted, e_freq = 0,
      e_queue = kSmall, e_key = key, e_value = value, e_shared = Some ownerCap\<rparr>"

text \<open>Field update through a pointer; following a pointer.\<close>

definition upd :: "heap \<Rightarrow> addr \<Rightarrow> (Entry \<Rightarrow> Entry) \<Rightarrow> heap" where
  "upd hp a f = (case hp a of Some e \<Rightarrow> hp(a \<mapsto> f e) | None \<Rightarrow> hp)"

abbreviation ent :: "heap \<Rightarrow> addr \<Rightarrow> Entry" where
  "ent hp a \<equiv> the (hp a)"

subsection \<open>Queue operations\<close>

record Fifo =
  f_head :: "addr option"
  f_tail :: "addr option"
  f_bytes :: nat
  f_count :: nat

definition empty_fifo :: Fifo where
  "empty_fifo = \<lparr>f_head = None, f_tail = None, f_bytes = 0, f_count = 0\<rparr>"

definition pushHead :: "heap \<Rightarrow> Fifo \<Rightarrow> addr \<Rightarrow> heap \<times> Fifo" where
  "pushHead hp q a =
     (let hp = upd hp a (\<lambda>e. e\<lparr>e_prev := None, e_next := f_head q\<rparr>);
          (hp, q) = (case f_head q of
                       Some h \<Rightarrow> (upd hp h (\<lambda>e. e\<lparr>e_prev := Some a\<rparr>), q)
                     | None \<Rightarrow> (hp, q\<lparr>f_tail := Some a\<rparr>))
      in (hp, q\<lparr>f_head := Some a, f_bytes := f_bytes q + charge (ent hp a),
                f_count := f_count q + 1\<rparr>))"

definition remove :: "heap \<Rightarrow> Fifo \<Rightarrow> addr \<Rightarrow> heap \<times> Fifo" where
  "remove hp q a =
     (let prv = e_prev (ent hp a); nxt = e_next (ent hp a);
          (hp, q) = (case prv of
                       Some p \<Rightarrow> (upd hp p (\<lambda>e. e\<lparr>e_next := nxt\<rparr>), q)
                     | None \<Rightarrow> (hp, q\<lparr>f_head := nxt\<rparr>));
          (hp, q) = (case nxt of
                       Some n \<Rightarrow> (upd hp n (\<lambda>e. e\<lparr>e_prev := prv\<rparr>), q)
                     | None \<Rightarrow> (hp, q\<lparr>f_tail := prv\<rparr>));
          hp = upd hp a (\<lambda>e. e\<lparr>e_prev := None, e_next := None\<rparr>)
      in (hp, q\<lparr>f_bytes := f_bytes q - charge (ent hp a), f_count := f_count q - 1\<rparr>))"

definition popTail :: "heap \<Rightarrow> Fifo \<Rightarrow> addr option \<times> heap \<times> Fifo" where
  "popTail hp q =
     (case f_tail q of
        Some a \<Rightarrow> (Some a, remove hp q a)
      | None \<Rightarrow> (None, hp, q))"

subsection \<open>Linked chains\<close>

lemma upd_apply [simp]: "upd hp a f b = (if b = a then map_option f (hp a) else hp b)"
  by (simp add: upd_def split: option.splits)

lemma dom_upd [simp]: "dom (upd hp a f) = dom hp"
  by (auto simp: dom_def split: if_splits)

definition hd_or :: "addr list \<Rightarrow> addr option \<Rightarrow> addr option" where
  "hd_or xs n = (case xs of [] \<Rightarrow> n | x # _ \<Rightarrow> Some x)"

definition last_or :: "addr option \<Rightarrow> addr list \<Rightarrow> addr option" where
  "last_or p xs = (if xs = [] then p else Some (last xs))"

lemma hd_or_simps [simp]: "hd_or [] n = n" "hd_or (x # xs) n = Some x"
  "hd_or (xs @ ys) n = hd_or xs (hd_or ys n)"
  by (simp_all add: hd_or_def split: list.splits)

lemma last_or_simps [simp]: "last_or p [] = p" "last_or p (x # xs) = last_or (Some x) xs"
  "last_or p (xs @ ys) = last_or (last_or p xs) ys"
  by (simp_all add: last_or_def)

primrec chain :: "heap \<Rightarrow> addr option \<Rightarrow> addr list \<Rightarrow> addr option \<Rightarrow> bool" where
  "chain hp p [] n \<longleftrightarrow> True"
| "chain hp p (x # xs) n \<longleftrightarrow>
     (\<exists>e. hp x = Some e \<and> e_prev e = p \<and> e_next e = hd_or xs n) \<and> chain hp (Some x) xs n"

lemma chain_append:
  "chain hp p (xs @ ys) n \<longleftrightarrow> chain hp p xs (hd_or ys n) \<and> chain hp (last_or p xs) ys n"
  by (induction xs arbitrary: p) auto

lemma chain_frame:
  "(\<And>x. x \<in> set xs \<Longrightarrow> hp' x = hp x) \<Longrightarrow> chain hp' p xs n \<longleftrightarrow> chain hp p xs n"
  by (induction xs arbitrary: p) auto

lemma chain_alloc: "chain hp p xs n \<Longrightarrow> x \<in> set xs \<Longrightarrow> x \<in> dom hp"
  by (induction xs arbitrary: p) auto

lemma chain_set_prev:
  assumes "chain hp p (x # xs) n" and "x \<notin> set xs"
  shows "chain (upd hp x (\<lambda>e. e\<lparr>e_prev := p'\<rparr>)) p' (x # xs) n"
proof -
  have "chain (upd hp x (\<lambda>e. e\<lparr>e_prev := p'\<rparr>)) (Some x) xs n = chain hp (Some x) xs n"
    by (rule chain_frame) (use assms(2) in auto)
  then show ?thesis using assms(1) by auto
qed

lemma chain_set_next:
  assumes "chain hp p (xs @ [x]) n" and "x \<notin> set xs"
  shows "chain (upd hp x (\<lambda>e. e\<lparr>e_next := n'\<rparr>)) p (xs @ [x]) n'"
proof -
  have "chain (upd hp x (\<lambda>e. e\<lparr>e_next := n'\<rparr>)) p xs (Some x) = chain hp p xs (Some x)"
    by (rule chain_frame) (use assms(2) in auto)
  then show ?thesis using assms(1) by (auto simp: chain_append)
qed

subsection \<open>Refinement to lists\<close>

text \<open>Everything of an entry but its links.\<close>

definition strip :: "Entry \<Rightarrow> Entry" where
  "strip e = e\<lparr>e_prev := None, e_next := None\<rparr>"

definition data :: "heap \<Rightarrow> heap" where
  "data hp = (\<lambda>a. map_option strip (hp a))"

lemma strip_links [simp]:
  "strip (e\<lparr>e_prev := p\<rparr>) = strip e" "strip (e\<lparr>e_next := n\<rparr>) = strip e" "strip (strip e) = strip e"
  by (simp_all add: strip_def)

lemma strip_fields [simp]:
  "e_seqno (strip e) = e_seqno e" "e_flags (strip e) = e_flags e" "e_expiry (strip e) = e_expiry e"
  "e_pending (strip e) = e_pending e" "e_vbid (strip e) = e_vbid e"
  "e_datatype (strip e) = e_datatype e" "e_deleted (strip e) = e_deleted e"
  "e_freq (strip e) = e_freq e" "e_queue (strip e) = e_queue e" "e_key (strip e) = e_key e"
  "e_value (strip e) = e_value e" "e_shared (strip e) = e_shared e"
  by (simp_all add: strip_def)

lemma charge_strip [simp]: "charge (strip e) = charge e"
  by (simp add: charge_def split: option.split)

lemma data_upd_links [simp]:
  "data (upd hp a (\<lambda>e. e\<lparr>e_prev := p\<rparr>)) = data hp"
  "data (upd hp a (\<lambda>e. e\<lparr>e_next := n\<rparr>)) = data hp"
  "data (upd hp a (\<lambda>e. e\<lparr>e_prev := p, e_next := n\<rparr>)) = data hp"
  by (rule ext, simp add: data_def option.map_comp comp_def)+

lemma data_eq_dom: "data hp = data hp' \<Longrightarrow> dom hp = dom hp'"
  by (auto simp: data_def fun_eq_iff dom_def) (metis not_None_eq option.map_disc_iff)+

lemma data_eq_ent:
  assumes "data hp = data hp'" and "a \<in> dom hp"
  shows "strip (ent hp a) = strip (ent hp' a)"
proof -
  have "map_option strip (hp a) = map_option strip (hp' a)"
    using fun_cong [OF assms(1), of a] by (simp add: data_def)
  then show ?thesis using assms(2) by (cases "hp' a") auto
qed

lemma data_eq_charge:
  assumes "data hp = data hp'" and "a \<in> dom hp"
  shows "charge (ent hp a) = charge (ent hp' a)"
  using data_eq_ent [OF assms] by (metis charge_strip)

definition bytes_of :: "heap \<Rightarrow> addr list \<Rightarrow> nat" where
  "bytes_of hp xs = sum_list (map (\<lambda>a. charge (ent hp a)) xs)"

lemma bytes_of_simps [simp]: "bytes_of hp [] = 0"
  "bytes_of hp (x # xs) = charge (ent hp x) + bytes_of hp xs"
  "bytes_of hp (xs @ ys) = bytes_of hp xs + bytes_of hp ys"
  by (simp_all add: bytes_of_def)

lemma bytes_of_data:
  "data hp = data hp' \<Longrightarrow> set xs \<subseteq> dom hp \<Longrightarrow> bytes_of hp xs = bytes_of hp' xs"
  by (induction xs) (auto simp: data_eq_charge)

definition dll :: "heap \<Rightarrow> Fifo \<Rightarrow> addr list \<Rightarrow> bool" where
  "dll hp q xs \<longleftrightarrow> chain hp None xs None \<and> distinct xs \<and> f_head q = hd_or xs None \<and>
     f_tail q = last_or None xs \<and> f_bytes q = bytes_of hp xs \<and> f_count q = length xs"

lemma dll_alloc: "dll hp q xs \<Longrightarrow> set xs \<subseteq> dom hp"
  unfolding dll_def using chain_alloc by blast

lemma dll_empty [simp]: "dll hp empty_fifo []"
  by (simp add: dll_def empty_fifo_def)

lemma dll_frame:
  assumes "dll hp q xs" and "\<And>x. x \<in> set xs \<Longrightarrow> hp' x = hp x"
  shows "dll hp' q xs"
proof -
  have "bytes_of hp' xs = bytes_of hp xs" using assms(2) by (simp add: bytes_of_def cong: map_cong)
  then show ?thesis using assms chain_frame [of xs hp' hp] by (simp add: dll_def)
qed

text \<open>What an operation of one queue leaves alone.\<close>

definition links_only :: "heap \<Rightarrow> heap \<Rightarrow> addr set \<Rightarrow> bool" where
  "links_only hp hp' A \<longleftrightarrow> data hp' = data hp \<and> (\<forall>b. b \<notin> A \<longrightarrow> hp' b = hp b)"

lemma pushHead_correct:
  assumes "dll hp q xs" and "a \<notin> set xs" and "a \<in> dom hp" and "pushHead hp q a = (hp', q')"
  shows "dll hp' q' (a # xs) \<and> links_only hp hp' (insert a (set xs))"
proof -
  let ?hp1 = "upd hp a (\<lambda>e. e\<lparr>e_prev := None, e_next := f_head q\<rparr>)"
  from assms(1) have ch: "chain hp None xs None" and "distinct xs" and hd: "f_head q = hd_or xs None"
    and tl: "f_tail q = last_or None xs" and bts: "f_bytes q = bytes_of hp xs" and
    cnt: "f_count q = length xs" by (auto simp: dll_def)
  have ch1: "chain ?hp1 None xs None" 
    using ch assms(2) by (subst chain_frame [of xs _ hp]) auto
  have hp': "hp' = (case xs of [] \<Rightarrow> ?hp1 | x # _ \<Rightarrow> upd ?hp1 x (\<lambda>e. e\<lparr>e_prev := Some a\<rparr>))"
    using assms(4) hd by (cases xs) (auto simp: pushHead_def Let_def)
  have d: "data hp' = data hp" unfolding hp' by (cases xs) simp_all
  have fr: "hp' b = hp b" if "b \<notin> insert a (set xs)" for b
    using that unfolding hp' by (cases xs) auto
  have chx: "chain hp' (Some a) xs None"
  proof (cases xs)
    case (Cons x ys)
    then show ?thesis
      using chain_set_prev [of ?hp1 None x ys None "Some a"] ch1 \<open>distinct xs\<close> hp' by simp
  qed simp
  have a': "\<exists>e. hp' a = Some e \<and> e_prev e = None \<and> e_next e = hd_or xs None"
    using assms(2,3) hd unfolding hp' by (cases xs) auto
  have bts': "f_bytes q' = bytes_of hp xs + charge (ent hp' a)"
    using assms(4) bts hd unfolding hp' by (cases xs) (auto simp: pushHead_def Let_def)
  have "bytes_of hp' xs = bytes_of hp xs"
    using bytes_of_data [OF d] data_eq_dom [OF d] dll_alloc [OF assms(1)] by simp
  then have "dll hp' q' (a # xs)"
    using assms(2,4) chx a' hd tl cnt \<open>distinct xs\<close> bts'
    by (cases xs) (auto simp: dll_def pushHead_def Let_def)
  then show ?thesis using d fr by (simp add: links_only_def)
qed

lemma remove_heap:
  assumes "distinct (as @ a # bs)" and "chain hp None (as @ a # bs) None"
  defines "hp1 \<equiv> (case last_or None as of Some p \<Rightarrow> upd hp p (\<lambda>e. e\<lparr>e_next := hd_or bs None\<rparr>) | None \<Rightarrow> hp)"
  defines "hp2 \<equiv> (case hd_or bs None of Some n \<Rightarrow> upd hp1 n (\<lambda>e. e\<lparr>e_prev := last_or None as\<rparr>) | None \<Rightarrow> hp1)"
  defines "hp3 \<equiv> upd hp2 a (\<lambda>e. e\<lparr>e_prev := None, e_next := None\<rparr>)"
  shows "chain hp3 None (as @ bs) None" and "links_only hp hp3 (set (as @ a # bs))"
proof -
  have c: "chain hp None as (Some a)" "chain hp (Some a) bs None"
    using assms(2) by (simp_all add: chain_append)
  have fr1: "hp1 b = hp b" if "b \<notin> set as" for b
    using that by (auto simp: hp1_def last_or_def)
  have fr2: "hp2 b = hp1 b" if "b \<notin> set bs" for b
    using that by (cases bs) (auto simp: hp2_def)
  have fr3: "hp3 b = hp2 b" if "b \<noteq> a" for b
    using that by (simp add: hp3_def)
  have "chain hp1 None as (hd_or bs None)"
  proof (cases as rule: rev_cases)
    case (snoc ys y)
    then show ?thesis
      using chain_set_next [of hp None ys y "Some a" "hd_or bs None"] c(1) assms(1)
      by (simp add: hp1_def)
  qed simp
  moreover have "hp3 x = hp1 x" if "x \<in> set as" for x
  proof -
    have "x \<notin> set bs" "x \<noteq> a" using that assms(1) by auto
    then show ?thesis using fr2 fr3 by simp
  qed
  ultimately have as: "chain hp3 None as (hd_or bs None)"
    by (subst chain_frame [of as hp3 hp1]) auto
  have "chain hp1 (Some a) bs None"
    using c(2) fr1 assms(1) by (subst chain_frame [of bs hp1 hp]) auto
  then have "chain hp2 (last_or None as) bs None"
  proof (cases bs)
    case (Cons b cs)
    then show ?thesis
      using chain_set_prev [of hp1 "Some a" b cs None "last_or None as"]
        \<open>chain hp1 (Some a) bs None\<close> assms(1) by (simp add: hp2_def del: chain.simps)
  qed simp
  moreover have "hp3 x = hp2 x" if "x \<in> set bs" for x
    by (rule fr3) (use that assms(1) in auto)
  ultimately have "chain hp3 (last_or None as) bs None"
    by (subst chain_frame [of bs hp3 hp2]) auto
  with as show "chain hp3 None (as @ bs) None" by (simp add: chain_append)
  have "data hp1 = data hp" unfolding hp1_def by (cases "last_or None as") simp_all
  moreover have "data hp2 = data hp1" unfolding hp2_def by (cases "hd_or bs None") simp_all
  moreover have "data hp3 = data hp2" by (simp add: hp3_def)
  ultimately show "links_only hp hp3 (set (as @ a # bs))"
    using fr1 fr2 fr3 by (auto simp: links_only_def)
qed

lemma remove_correct:
  assumes "dll hp q (as @ a # bs)" and "remove hp q a = (hp', q')"
  shows "dll hp' q' (as @ bs) \<and> links_only hp hp' (set (as @ a # bs))"
proof -
  from assms(1) have ch: "chain hp None (as @ a # bs) None" and dis: "distinct (as @ a # bs)"
    and hd: "f_head q = hd_or (as @ a # bs) None" and tl: "f_tail q = last_or None (as @ a # bs)"
    and bts: "f_bytes q = bytes_of hp (as @ a # bs)" and cnt: "f_count q = length (as @ a # bs)"
    by (auto simp: dll_def)
  from ch obtain e where e: "hp a = Some e" "e_prev e = last_or None as" "e_next e = hd_or bs None"
    by (auto simp: chain_append)
  note H = remove_heap [OF dis ch]
  have hp': "hp' = upd (case hd_or bs None of
        Some n \<Rightarrow> upd (case last_or None as of
            Some p \<Rightarrow> upd hp p (\<lambda>e. e\<lparr>e_next := hd_or bs None\<rparr>) | None \<Rightarrow> hp)
          n (\<lambda>e. e\<lparr>e_prev := last_or None as\<rparr>)
      | None \<Rightarrow> (case last_or None as of
            Some p \<Rightarrow> upd hp p (\<lambda>e. e\<lparr>e_next := hd_or bs None\<rparr>) | None \<Rightarrow> hp))
      a (\<lambda>e. e\<lparr>e_prev := None, e_next := None\<rparr>)"
    using assms(2) e
    by (auto simp: remove_def Let_def split: option.splits prod.splits)
  have H1: "chain hp' None (as @ bs) None" and H2: "links_only hp hp' (set (as @ a # bs))"
    using H unfolding hp' by auto
  then have d: "data hp' = data hp" by (simp add: links_only_def)
  have al: "set (as @ a # bs) \<subseteq> dom hp" using dll_alloc [OF assms(1)] .
  have byt: "bytes_of hp' xs = bytes_of hp xs" if "set xs \<subseteq> set (as @ a # bs)" for xs
    by (rule bytes_of_data [OF d]) (use data_eq_dom [OF d] al that in auto)
  have "f_bytes q' = f_bytes q - charge (ent hp' a)" "f_count q' = f_count q - 1"
    using assms(2) by (auto simp: remove_def Let_def split: option.splits prod.splits)
  moreover have "charge (ent hp' a) = charge (ent hp a)"
    using data_eq_charge [OF d] data_eq_dom [OF d] al by auto
  ultimately have "f_bytes q' = bytes_of hp' (as @ bs)" "f_count q' = length (as @ bs)"
    using byt [of as] byt [of bs] bts cnt by (auto simp: subset_iff)
  moreover have "f_head q' = hd_or (as @ bs) None"
    using assms(2) e hd
    by (cases as rule: rev_cases; cases bs; cases as) (auto simp: remove_def Let_def)
  moreover have "f_tail q' = last_or None (as @ bs)"
    using assms(2) e tl
    by (cases as rule: rev_cases; cases bs) (auto simp: remove_def Let_def)
  ultimately show ?thesis using H1 H2 dis by (simp add: dll_def)
qed

lemma popTail_correct:
  assumes "dll hp q (xs @ [a])" and "popTail hp q = (r, hp', q')"
  shows "r = Some a \<and> dll hp' q' xs \<and> links_only hp hp' (insert a (set xs))"
proof -
  have "f_tail q = Some a" using assms(1) by (simp add: dll_def)
  then have "r = Some a" "remove hp q a = (hp', q')" using assms(2) by (auto simp: popTail_def)
  then show ?thesis using remove_correct [of hp q xs a "[]" hp' q'] assms(1) by simp
qed

lemma popTail_empty: "dll hp q [] \<Longrightarrow> popTail hp q = (None, hp, q)"
  by (simp add: dll_def popTail_def)

text \<open>
  A changed entry keeps its queue when its size does not change, and a queue is unaffected by
  changes outside it.
\<close>

lemma dll_upd_outside: "dll hp q xs \<Longrightarrow> a \<notin> set xs \<Longrightarrow> dll (hp(a := v)) q xs"
  by (erule dll_frame) auto

lemma chain_upd_data:
  "(\<And>e. e_prev (f e) = e_prev e \<and> e_next (f e) = e_next e) \<Longrightarrow>
     chain (upd hp a f) p xs n \<longleftrightarrow> chain hp p xs n"
  by (induction xs arbitrary: p) auto

lemma dll_upd_data:
  assumes "dll hp q xs"
    and "\<And>e. e_prev (f e) = e_prev e \<and> e_next (f e) = e_next e \<and> charge (f e) = charge e"
  shows "dll (upd hp a f) q xs"
proof -
  have "charge (ent (upd hp a f) x) = charge (ent hp x)" if "x \<in> set xs" for x
    using that dll_alloc [OF assms(1)] assms(2) by auto
  then have "bytes_of (upd hp a f) xs = bytes_of hp xs"
    unfolding bytes_of_def by (metis (mono_tags, lifting) map_eq_conv)
  then show ?thesis using assms chain_upd_data [of f hp a None xs None] by (simp add: dll_def)
qed

lemma links_only_dll:
  "links_only hp hp' A \<Longrightarrow> dll hp q xs \<Longrightarrow> A \<inter> set xs = {} \<Longrightarrow> dll hp' q xs"
  by (erule dll_frame) (auto simp: links_only_def)

subsection \<open>The queue contract\<close>

text \<open>What the eviction policy relies on: a double-ended list with arbitrary removal whose
  entries keep their contents.\<close>

locale entry_queue =
  fixes emptyq :: 'q
    and push :: "heap \<Rightarrow> 'q \<Rightarrow> addr \<Rightarrow> heap \<times> 'q"
    and rem :: "heap \<Rightarrow> 'q \<Rightarrow> addr \<Rightarrow> heap \<times> 'q"
    and pop :: "heap \<Rightarrow> 'q \<Rightarrow> addr option \<times> heap \<times> 'q"
    and is_queue :: "heap \<Rightarrow> 'q \<Rightarrow> addr list \<Rightarrow> bool"
    and qbytes :: "'q \<Rightarrow> nat"
  assumes is_queue_empty: "is_queue hp emptyq []"
    and push: "is_queue hp q xs \<Longrightarrow> a \<notin> set xs \<Longrightarrow> a \<in> dom hp \<Longrightarrow> push hp q a = (hp', q') \<Longrightarrow>
      is_queue hp' q' (a # xs) \<and> links_only hp hp' (insert a (set xs))"
    and rem: "is_queue hp q (as @ a # bs) \<Longrightarrow> rem hp q a = (hp', q') \<Longrightarrow>
      is_queue hp' q' (as @ bs) \<and> links_only hp hp' (set (as @ a # bs))"
    and pop: "is_queue hp q (xs @ [a]) \<Longrightarrow> pop hp q = (r, hp', q') \<Longrightarrow>
      r = Some a \<and> is_queue hp' q' xs \<and> links_only hp hp' (insert a (set xs))"
    and qbytes: "is_queue hp q xs \<Longrightarrow> qbytes q = bytes_of hp xs"
    and alloc: "is_queue hp q xs \<Longrightarrow> set xs \<subseteq> dom hp \<and> distinct xs"
begin

text \<open>Moving the tail to the head: one step of a scan over the queue.\<close>

lemma rotate:
  assumes "is_queue hp q (xs @ [a])" and "pop hp q = (r, hp1, q1)" and "push hp1 q1 a = (hp2, q2)"
  shows "is_queue hp2 q2 (a # xs) \<and> links_only hp hp2 (insert a (set xs)) \<and> qbytes q2 = qbytes q"
proof -
  have p: "is_queue hp1 q1 xs" "links_only hp hp1 (insert a (set xs))"
    using pop [OF assms(1,2)] by auto
  have al: "set (xs @ [a]) \<subseteq> dom hp" "distinct (xs @ [a])" using alloc [OF assms(1)] by auto
  then have "a \<in> dom hp1" using p(2) data_eq_dom [of hp1 hp] by (auto simp: links_only_def)
  then have h: "is_queue hp2 q2 (a # xs)" "links_only hp1 hp2 (insert a (set xs))"
    using push [OF p(1) _ _ assms(3)] al by auto
  then have l: "links_only hp hp2 (insert a (set xs))" using p(2) by (auto simp: links_only_def)
  then have "bytes_of hp2 (a # xs) = bytes_of hp (a # xs)"
    using al data_eq_dom [of hp2 hp] by (intro bytes_of_data) (auto simp: links_only_def)
  then show ?thesis using h l qbytes [OF h(1)] qbytes [OF assms(1)] by simp
qed

end

interpretation fq: entry_queue empty_fifo pushHead remove popTail dll f_bytes
proof (unfold_locales, goal_cases)
  case (2 hp q xs a hp' q')
  then show ?case by (rule pushHead_correct)
next
  case (3 hp q as a bs hp' q')
  then show ?case by (rule remove_correct)
next
  case (4 hp q xs a r hp' q')
  then show ?case by (rule popTail_correct)
next
  case (6 hp q xs)
  then show ?case using dll_alloc [of hp q xs] unfolding dll_def by blast
qed (simp_all add: dll_def empty_fifo_def)



end
