(* ===== verification/Seqno_Index.thy ===== *)
theory Seqno_Index
  imports Flux_Prelude "HOL-Library.DAList"
begin

text \<open>
  The seqno index of a cache shard (\<open>SeqEntry\<close>, \<open>SeqPart\<close>, \<open>noteSeqno\<close>, \<open>evictSeq\<close> and the
  cache methods built on them in \<^verbatim>\<open>server/cache/s3fifo_cache.cc\<close>): key hash to latest applied
  seqno and the place the document was found, kept across value eviction, in 64 parts with a
  byte cap and a CLOCK hand each. The hash table (folly's F14) is not part of the program: it
  is a parameter, the record \<open>F14\<close> of the operations the code calls, and \<open>f14_ok\<close> states what is
  documented of them (iteration visits each key once, in an order that a value update keeps).
\<close>

definition kSeqnoDeleted :: u64 where "kSeqnoDeleted = push_bit 63 1"
definition kSeqnoUsed :: u64 where "kSeqnoUsed = push_bit 62 1"
definition kSeqnoFlags :: u64 where "kSeqnoFlags = kSeqnoDeleted OR kSeqnoUsed"
definition kSeqParts :: nat where "kSeqParts = 64"

record SeqEntry =
  v_seqno :: u64
  v_valuePtr :: u64

definition zero_entry :: SeqEntry where "zero_entry = \<lparr>v_seqno = 0, v_valuePtr = 0\<rparr>"

text \<open>\<open>items\<close> lists the map in iteration order.\<close>

record 'm F14 =
  items :: "'m \<Rightarrow> (u64 \<times> SeqEntry) list"
  emplace :: "'m \<Rightarrow> u64 \<Rightarrow> 'm"
  erase_key :: "'m \<Rightarrow> u64 \<Rightarrow> 'm"
  assign :: "'m \<Rightarrow> u64 \<Rightarrow> SeqEntry \<Rightarrow> 'm"
  bucket_count :: "'m \<Rightarrow> nat"
  allocated :: "'m \<Rightarrow> nat"

definition f14_ok :: "'m F14 \<Rightarrow> bool" where
  "f14_ok F \<longleftrightarrow>
     (\<forall>m. distinct (map fst (items F m))) \<and>
     (\<forall>m h. map_of (items F m) h = None \<longrightarrow>
        map_of (items F (emplace F m h)) = (map_of (items F m))(h \<mapsto> zero_entry)) \<and>
     (\<forall>m h. map_of (items F (erase_key F m h)) = (map_of (items F m))(h := None)) \<and>
     (\<forall>m h v. items F (assign F m h v) =
        map (\<lambda>(k, w). (k, if k = h then v else w)) (items F m))"

record 'm SeqPart =
  p_map :: 'm
  p_bytes :: nat
  p_hand :: u64
  p_handSet :: bool

record 'm SeqIndex =
  seqParts :: "'m SeqPart list"
  seqCap :: nat
  seqBytes :: nat
  seqEvictions :: nat
  seqRejected :: nat

subsection \<open>Operations\<close>

definition seqPart :: "u64 \<Rightarrow> nat" where
  "seqPart h = unat (drop_bit 40 h) mod kSeqParts"

definition seqFits :: "'m F14 \<Rightarrow> 'm SeqIndex \<Rightarrow> 'm SeqPart \<Rightarrow> bool" where
  "seqFits F s p =
     (if seqCap s = 0 then True
      else let grows = length (items F (p_map p)) \<ge> bucket_count F (p_map p)
           in seqBytes s + (if grows then 2 * p_bytes p else 0) \<le> seqCap s)"

text \<open>
  The CLOCK scan: an iterator is a position in iteration order, the length standing for
  \<open>end()\<close>. It returns the map with the bits it cleared and the position it stopped at.
\<close>

primrec clock_scan :: "nat \<Rightarrow> 'm F14 \<Rightarrow> 'm \<Rightarrow> nat \<Rightarrow> 'm \<times> nat" where
  "clock_scan 0 F m it = (m, it)"
| "clock_scan (Suc n) F m it =
     (let it = (if it = length (items F m) then 0 else it);
          (k, v) = items F m ! it
      in if v_seqno v AND kSeqnoUsed = 0 then (m, it)
         else clock_scan n F (assign F m k (v\<lparr>v_seqno := v_seqno v AND NOT kSeqnoUsed\<rparr>)) (it + 1))"

primrec position :: "u64 \<Rightarrow> (u64 \<times> SeqEntry) list \<Rightarrow> nat" where
  "position h [] = 0"
| "position h (x # xs) = (if fst x = h then 0 else Suc (position h xs))"

definition evictSeq :: "'m F14 \<Rightarrow> 'm SeqPart \<Rightarrow> 'm SeqPart" where
  "evictSeq F p =
     (let m = p_map p;
          it = (if p_handSet p then position (p_hand p) (items F m) else length (items F m));
          (m, it) = clock_scan 64 F m it;
          it = (if it = length (items F m) then 0 else it);
          handSet = (it + 1 \<noteq> length (items F m));
          hand = (if handSet then fst (items F m ! (it + 1)) else p_hand p)
      in p\<lparr>p_map := erase_key F m (fst (items F m ! it)), p_hand := hand, p_handSet := handSet\<rparr>)"

text \<open>The update of an existing entry's value.\<close>

definition note_value :: "SeqEntry \<Rightarrow> u64 \<Rightarrow> bool \<Rightarrow> u64 \<Rightarrow> SeqEntry" where
  "note_value v seqno deleted valuePtr =
     (let cur = v_seqno v AND NOT kSeqnoFlags
      in if seqno > cur \<or> (seqno = cur \<and> deleted)
         then \<lparr>v_seqno = (if deleted then seqno OR kSeqnoDeleted else seqno)
                         OR (v_seqno v AND kSeqnoUsed),
               v_valuePtr = (if deleted then 0 else valuePtr)\<rparr>
         else if seqno = cur \<and> valuePtr \<noteq> 0 \<and> v_seqno v AND kSeqnoDeleted = 0
         then v\<lparr>v_valuePtr := valuePtr\<rparr>
         else v)"

definition set_part :: "'m SeqIndex \<Rightarrow> nat \<Rightarrow> 'm SeqPart \<Rightarrow> 'm SeqIndex" where
  "set_part s i p = s\<lparr>seqParts := (seqParts s)[i := p]\<rparr>"

text \<open>The part of \<open>noteSeqno\<close> that makes an entry for a new key: the index with the entry, or
  without it when the key was refused.\<close>

definition admit_key :: "'m F14 \<Rightarrow> 'm SeqIndex \<Rightarrow> u64 \<Rightarrow> bool \<Rightarrow> 'm SeqIndex" where
  "admit_key F s h admit =
     (let i = seqPart h; p = seqParts s ! i
      in if \<not> admit \<and> seqEvictions s > 0 then s\<lparr>seqRejected := seqRejected s + 1\<rparr>
         else if \<not> seqFits F s p \<and> items F (p_map p) = [] then s\<lparr>seqRejected := seqRejected s + 1\<rparr>
         else let (s, p) = (if \<not> seqFits F s p
                            then (s\<lparr>seqEvictions := seqEvictions s + 1\<rparr>, evictSeq F p) else (s, p));
                  m = emplace F (p_map p) h; b = allocated F m
              in set_part (s\<lparr>seqBytes := seqBytes s + b - p_bytes p\<rparr>) i (p\<lparr>p_map := m, p_bytes := b\<rparr>))"

definition noteSeqno :: "'m F14 \<Rightarrow> 'm SeqIndex \<Rightarrow> u64 \<Rightarrow> u64 \<Rightarrow> bool \<Rightarrow> u64 \<Rightarrow> bool \<Rightarrow> 'm SeqIndex" where
  "noteSeqno F s h seqno deleted valuePtr admit =
     (let i = seqPart h;
          s = (if map_of (items F (p_map (seqParts s ! i))) h = None then admit_key F s h admit else s);
          p = seqParts s ! i
      in case map_of (items F (p_map p)) h of
           None \<Rightarrow> s
         | Some v \<Rightarrow> set_part s i
             (p\<lparr>p_map := assign F (p_map p) h (note_value v seqno deleted valuePtr)\<rparr>))"

text \<open>The cache methods on it, on the index of the shard the hash selects.\<close>

definition NoteValuePtr :: "'m F14 \<Rightarrow> 'm SeqIndex \<Rightarrow> u64 \<Rightarrow> u64 \<Rightarrow> u64 \<Rightarrow> 'm SeqIndex" where
  "NoteValuePtr F s h seqno valuePtr =
     (let i = seqPart h; p = seqParts s ! i
      in if seqno = 0 \<or> valuePtr = 0 then s
         else case map_of (items F (p_map p)) h of
           None \<Rightarrow> s
         | Some v \<Rightarrow> if v_seqno v AND NOT kSeqnoUsed = seqno
             then set_part s i (p\<lparr>p_map := assign F (p_map p) h (v\<lparr>v_valuePtr := valuePtr\<rparr>)\<rparr>)
             else s)"

definition SeqnoHint :: "'m F14 \<Rightarrow> 'm SeqIndex \<Rightarrow> u64 \<Rightarrow> u64 \<times> u64 \<times> 'm SeqIndex" where
  "SeqnoHint F s h =
     (let i = seqPart h; p = seqParts s ! i
      in case map_of (items F (p_map p)) h of
           None \<Rightarrow> (0, 0, s)
         | Some v \<Rightarrow> if v_seqno v AND kSeqnoDeleted \<noteq> 0 then (0, 0, s)
             else let v' = v\<lparr>v_seqno := v_seqno v OR kSeqnoUsed\<rparr>
                  in (v_seqno v' AND NOT kSeqnoFlags, v_valuePtr v,
                      set_part s i (p\<lparr>p_map := assign F (p_map p) h v'\<rparr>)))"

definition SetSeqCap :: "'m SeqIndex \<Rightarrow> nat \<Rightarrow> 'm SeqIndex" where
  "SetSeqCap s cap = s\<lparr>seqCap := cap\<rparr>"

subsection \<open>Flag arithmetic\<close>

lemma bit_seqno_flags [simp]:
  "bit kSeqnoDeleted n \<longleftrightarrow> n = 63" "bit kSeqnoUsed n \<longleftrightarrow> n = 62"
  "bit kSeqnoFlags n \<longleftrightarrow> n = 62 \<or> n = 63"
proof -
  show d: "bit kSeqnoDeleted n \<longleftrightarrow> n = 63" and u: "bit kSeqnoUsed n \<longleftrightarrow> n = 62"
    using bit_exp_iff [of 63 n, where 'a = u64] bit_exp_iff [of 62 n, where 'a = u64]
    unfolding kSeqnoDeleted_def kSeqnoUsed_def push_bit_eq_mult mult_1 by auto
  show "bit kSeqnoFlags n \<longleftrightarrow> n = 62 \<or> n = 63"
    by (auto simp: kSeqnoFlags_def bit_or_iff d u)
qed

text \<open>The seqno of an entry without its flags; whether the entry records a delete.\<close>

definition sq :: "SeqEntry \<Rightarrow> u64" where "sq v = v_seqno v AND NOT kSeqnoFlags"
definition dl :: "SeqEntry \<Rightarrow> bool" where "dl v \<longleftrightarrow> v_seqno v AND kSeqnoDeleted \<noteq> 0"

text \<open>A seqno as the storage engine hands them out: below \<open>2 ^ 62\<close>.\<close>

definition plain :: "u64 \<Rightarrow> bool" where "plain n \<longleftrightarrow> n AND kSeqnoFlags = 0"

lemma and_eq_0_bits: "(n :: u64) AND f = 0 \<longleftrightarrow> (\<forall>k. \<not> (bit n k \<and> bit f k))"
proof
  assume "n AND f = 0"
  then have "\<not> bit (n AND f) k" for k by simp
  then show "\<forall>k. \<not> (bit n k \<and> bit f k)" by (simp add: bit_and_iff)
next
  assume "\<forall>k. \<not> (bit n k \<and> bit f k)"
  then show "n AND f = 0" by (intro bit_word_eqI) (simp add: bit_and_iff)
qed

lemma plain_bits: "plain n \<longleftrightarrow> \<not> bit n 62 \<and> \<not> bit n 63"
  unfolding plain_def and_eq_0_bits by auto

lemma and_flag: "n AND kSeqnoDeleted = 0 \<longleftrightarrow> \<not> bit n 63" "n AND kSeqnoUsed = 0 \<longleftrightarrow> \<not> bit n 62"
  unfolding and_eq_0_bits by auto

lemma dl_bit: "dl v \<longleftrightarrow> bit (v_seqno v) 63"
  by (simp add: dl_def and_flag)

lemma not_flag_eq: "plain n \<Longrightarrow> n AND NOT kSeqnoFlags = n"
  by (rule bit_word_eqI) (auto simp: plain_bits bit_and_iff bit_not_iff)

lemma mask_flags:
  assumes "plain n"
  shows "(n OR (x AND kSeqnoUsed)) AND NOT kSeqnoFlags = n"
    and "((n OR kSeqnoDeleted) OR (x AND kSeqnoUsed)) AND NOT kSeqnoFlags = n"
    and "bit ((n OR kSeqnoDeleted) OR (x AND kSeqnoUsed)) 63"
    and "\<not> bit (n OR (x AND kSeqnoUsed)) 63"
proof -
  show "(n OR (x AND kSeqnoUsed)) AND NOT kSeqnoFlags = n"
    by (rule bit_word_eqI) (use assms in \<open>auto simp: plain_bits bit_and_iff bit_or_iff bit_not_iff\<close>)
  show "((n OR kSeqnoDeleted) OR (x AND kSeqnoUsed)) AND NOT kSeqnoFlags = n"
    by (rule bit_word_eqI) (use assms in \<open>auto simp: plain_bits bit_and_iff bit_or_iff bit_not_iff\<close>)
qed (use assms in \<open>auto simp: plain_bits bit_and_iff bit_or_iff\<close>)

lemma sq_used [simp]:
  "sq (v\<lparr>v_seqno := v_seqno v AND NOT kSeqnoUsed\<rparr>) = sq v"
  "sq (v\<lparr>v_seqno := v_seqno v OR kSeqnoUsed\<rparr>) = sq v"
  "sq (v\<lparr>v_valuePtr := p\<rparr>) = sq v"
proof -
  show "sq (v\<lparr>v_seqno := v_seqno v AND NOT kSeqnoUsed\<rparr>) = sq v"
    unfolding sq_def by (rule bit_word_eqI) (auto simp: bit_and_iff bit_not_iff)
  show "sq (v\<lparr>v_seqno := v_seqno v OR kSeqnoUsed\<rparr>) = sq v"
    unfolding sq_def by (rule bit_word_eqI) (auto simp: bit_and_iff bit_or_iff bit_not_iff)
qed (simp add: sq_def)

lemma dl_used [simp]:
  "dl (v\<lparr>v_seqno := v_seqno v AND NOT kSeqnoUsed\<rparr>) = dl v"
  "dl (v\<lparr>v_seqno := v_seqno v OR kSeqnoUsed\<rparr>) = dl v"
  "dl (v\<lparr>v_valuePtr := p\<rparr>) = dl v"
  by (simp_all add: dl_bit bit_and_iff bit_or_iff bit_not_iff)

lemma sq_zero [simp]: "sq zero_entry = 0" "v_valuePtr zero_entry = 0" "\<not> dl zero_entry"
  by (simp_all add: sq_def dl_def zero_entry_def)

text \<open>What a note does to an entry, on decoded fields.\<close>

lemma note_value_cases:
  assumes "plain n"
  shows "n > sq v \<or> (n = sq v \<and> d) \<Longrightarrow> sq (note_value v n d p) = n \<and> dl (note_value v n d p) = d \<and>
      v_valuePtr (note_value v n d p) = (if d then 0 else p)"
    and "\<not> (n > sq v \<or> (n = sq v \<and> d)) \<Longrightarrow> n = sq v \<and> p \<noteq> 0 \<and> \<not> dl v \<Longrightarrow>
      note_value v n d p = v\<lparr>v_valuePtr := p\<rparr>"
    and "\<not> (n > sq v \<or> (n = sq v \<and> d)) \<Longrightarrow> \<not> (n = sq v \<and> p \<noteq> 0 \<and> \<not> dl v) \<Longrightarrow> note_value v n d p = v"
proof -
  show "sq (note_value v n d p) = n \<and> dl (note_value v n d p) = d \<and>
      v_valuePtr (note_value v n d p) = (if d then 0 else p)" if "n > sq v \<or> (n = sq v \<and> d)"
    using that mask_flags [OF assms, of "v_seqno v"]
    by (auto simp: note_value_def sq_def [symmetric] Let_def)
      (auto simp: sq_def dl_bit)
qed (auto simp: note_value_def sq_def dl_def Let_def)

lemma note_value_mono: "plain n \<Longrightarrow> sq v \<le> sq (note_value v n d p) \<and> n \<le> sq (note_value v n d p)"
  using note_value_cases [of n v d p] by (cases "n > sq v \<or> (n = sq v \<and> d)"; cases "n = sq v \<and> p \<noteq> 0 \<and> \<not> dl v") auto

subsection \<open>Views of maps, parts and the index\<close>

abbreviation mview :: "'m F14 \<Rightarrow> 'm \<Rightarrow> u64 \<Rightarrow> SeqEntry option" where
  "mview F m \<equiv> map_of (items F m)"

definition sview :: "'m F14 \<Rightarrow> 'm SeqIndex \<Rightarrow> u64 \<Rightarrow> SeqEntry option" where
  "sview F s h = mview F (p_map (seqParts s ! seqPart h)) h"

text \<open>Entries that differ in the CLOCK bit only.\<close>

definition similar :: "SeqEntry \<Rightarrow> SeqEntry \<Rightarrow> bool" where
  "similar v w \<longleftrightarrow> sq v = sq w \<and> dl v = dl w \<and> v_valuePtr v = v_valuePtr w"

lemma similar_refl [simp]: "similar v v"
  by (simp add: similar_def)

lemma similar_trans: "similar u v \<Longrightarrow> similar v w \<Longrightarrow> similar u w"
  by (simp add: similar_def)

lemma rel_option_similar_trans:
  "rel_option similar a b \<Longrightarrow> rel_option similar b c \<Longrightarrow> rel_option similar a c"
  by (cases a; cases b; cases c) (auto intro: similar_trans)

lemma rel_option_similar_refl [simp]: "rel_option similar a a"
  by (cases a) simp_all

definition seq_wf :: "'m SeqIndex \<Rightarrow> bool" where
  "seq_wf s \<longleftrightarrow> length (seqParts s) = kSeqParts"

lemma seqPart_less: "seqPart h < kSeqParts"
  by (simp add: seqPart_def kSeqParts_def)

lemma map_of_map_assign:
  "map_of (map (\<lambda>(k, w). (k, if k = h then v else w)) xs) k =
     map_option (\<lambda>w. if k = h then v else w) (map_of xs k)"
  by (induction xs) auto

lemma f14D:
  assumes "f14_ok F"
  shows "distinct (map fst (items F m))"
    and "mview F m h = None \<Longrightarrow> mview F (emplace F m h) = (mview F m)(h \<mapsto> zero_entry)"
    and "mview F (erase_key F m h) = (mview F m)(h := None)"
    and "items F (assign F m h v) = map (\<lambda>(k, w). (k, if k = h then v else w)) (items F m)"
    and "mview F (assign F m h v) k = map_option (\<lambda>w. if k = h then v else w) (mview F m k)"
  using assms by (auto simp: f14_ok_def map_of_map_assign)

lemma clock_scan_view:
  assumes "f14_ok F" and "items F m \<noteq> []" and "it \<le> length (items F m)"
    and "clock_scan n F m it = (m', it')"
  shows "rel_option similar (mview F m k) (mview F m' k) \<and>
    length (items F m') = length (items F m) \<and> it' \<le> length (items F m)"
  using assms(2-4)
proof (induction n arbitrary: m it)
  case 0
  then show ?case by simp
next
  case (Suc n)
  define i where "i = (if it = length (items F m) then 0 else it)"
  obtain k0 v where kv: "items F m ! i = (k0, v)" by (cases "items F m ! i")
  have i: "i < length (items F m)" using Suc.prems(1,2) by (auto simp: i_def)
  show ?case
  proof (cases "v_seqno v AND kSeqnoUsed = 0")
    case True
    then have "m' = m" "it' = i" using Suc.prems(3) kv by (auto simp: i_def [symmetric] Let_def)
    then show ?thesis using i by simp
  next
    case False
    define m1 where "m1 = assign F m k0 (v\<lparr>v_seqno := v_seqno v AND NOT kSeqnoUsed\<rparr>)"
    have len: "length (items F m1) = length (items F m)" by (simp add: m1_def f14D [OF assms(1)])
    have "clock_scan n F m1 (i + 1) = (m', it')"
      using False Suc.prems(3) kv by (simp add: i_def [symmetric] Let_def m1_def)
    moreover have "items F m1 \<noteq> []" using len Suc.prems(1) by (metis length_0_conv)
    ultimately have "rel_option similar (mview F m1 k) (mview F m' k) \<and>
      length (items F m') = length (items F m) \<and> it' \<le> length (items F m)"
      using Suc.IH [of m1 "i + 1"] i len by simp
    moreover have "mview F m k0 = Some v"
      using kv i f14D(1) [OF assms(1), of m] by (metis map_of_is_SomeI nth_mem)
    then have "rel_option similar (mview F m k) (mview F m1 k)"
      unfolding m1_def f14D(5) [OF assms(1)]
      by (cases "mview F m k") (auto simp: similar_def)
    ultimately show ?thesis by (blast intro: rel_option_similar_trans)
  qed
qed

lemma evictSeq_view:
  assumes "f14_ok F" and "items F (p_map p) \<noteq> []"
  obtains k0 m where "mview F (p_map (evictSeq F p)) = (mview F m)(k0 := None)"
    and "\<And>k. rel_option similar (mview F (p_map p) k) (mview F m k)" and "mview F m k0 \<noteq> None"
    and "p_bytes (evictSeq F p) = p_bytes p"
proof -
  define it0 where "it0 = (if p_handSet p then position (p_hand p) (items F (p_map p))
    else length (items F (p_map p)))"
  have "position h xs \<le> length xs" for h and xs :: "(u64 \<times> SeqEntry) list" by (induction xs) auto
  then have it0: "it0 \<le> length (items F (p_map p))" by (simp add: it0_def)
  obtain m it where sc: "clock_scan 64 F (p_map p) it0 = (m, it)" by (cases "clock_scan 64 F (p_map p) it0")
  note V = clock_scan_view [OF assms(1,2) it0 sc]
  define i where "i = (if it = length (items F m) then 0 else it)"
  have "length (items F m) = length (items F (p_map p))" "it \<le> length (items F (p_map p))"
    using V by auto
  then have i: "i < length (items F m)" using assms(2) by (auto simp: i_def)
  define k0 where "k0 = fst (items F m ! i)"
  have "p_map (evictSeq F p) = erase_key F m k0"
    unfolding evictSeq_def Let_def it0_def [symmetric] sc by (simp add: i_def k0_def)
  then have "mview F (p_map (evictSeq F p)) = (mview F m)(k0 := None)"
    by (simp add: f14D [OF assms(1)])
  moreover have "mview F m k0 \<noteq> None"
    using i by (auto simp: k0_def map_of_eq_None_iff)
  moreover have "p_bytes (evictSeq F p) = p_bytes p"
    unfolding evictSeq_def Let_def it0_def [symmetric] sc by simp
  ultimately show thesis using that V by blast
qed

text \<open>What one operation may do to the rest of the index.\<close>

definition seq_kept :: "'m F14 \<Rightarrow> 'm SeqIndex \<Rightarrow> 'm SeqIndex \<Rightarrow> u64 \<Rightarrow> bool" where
  "seq_kept F s s' k \<longleftrightarrow> rel_option similar (sview F s k) (sview F s' k)"

lemma seq_kept_refl [simp]: "sview F s' k = sview F s k \<Longrightarrow> seq_kept F s s' k"
  by (simp add: seq_kept_def)

lemma sview_set_part:
  assumes "seq_wf s"
  shows "sview F (set_part s i p) k = (if seqPart k = i then mview F (p_map p) k else sview F s k)"
    and "seq_wf (set_part s i p)"
  using assms seqPart_less [of k] by (auto simp: seq_wf_def sview_def set_part_def)

lemma sview_fields [simp]:
  "sview F (s\<lparr>seqRejected := n\<rparr>) = sview F s" "sview F (s\<lparr>seqEvictions := n\<rparr>) = sview F s"
  "sview F (s\<lparr>seqBytes := n\<rparr>) = sview F s" "sview F (s\<lparr>seqCap := n\<rparr>) = sview F s"
  "seq_wf (s\<lparr>seqRejected := n\<rparr>) = seq_wf s" "seq_wf (s\<lparr>seqEvictions := n\<rparr>) = seq_wf s"
  "seq_wf (s\<lparr>seqBytes := n\<rparr>) = seq_wf s" "seq_wf (s\<lparr>seqCap := n\<rparr>) = seq_wf s"
  by (simp_all add: sview_def seq_wf_def fun_eq_iff)

definition refused :: "'m F14 \<Rightarrow> 'm SeqIndex \<Rightarrow> u64 \<Rightarrow> bool \<Rightarrow> bool" where
  "refused F s h admit \<longleftrightarrow> (\<not> admit \<and> seqEvictions s > 0) \<or>
     (\<not> seqFits F s (seqParts s ! seqPart h) \<and> items F (p_map (seqParts s ! seqPart h)) = [])"

lemma admit_key_refused:
  "refused F s h admit \<Longrightarrow> sview F (admit_key F s h admit) = sview F s \<and>
     seq_wf (admit_key F s h admit) = seq_wf s"
  by (auto simp: refused_def admit_key_def Let_def)

lemma admit_key_admitted:
  assumes "f14_ok F" and "seq_wf s" and "sview F s h = None" and "\<not> refused F s h admit"
  defines "s' \<equiv> admit_key F s h admit"
  shows "seq_wf s'" and "sview F s' h = Some zero_entry"
    and "\<exists>k0. \<forall>k. k \<noteq> h \<longrightarrow> seq_kept F s s' k \<or> (k = k0 \<and> sview F s' k = None)"
proof -
  define i where "i = seqPart h"
  define p where "p = seqParts s ! i"
  have absent: "mview F (p_map p) h = None" using assms(3) by (simp add: sview_def p_def i_def)
  obtain q s1 k0 where q: "mview F (p_map q) h = None"
    "\<And>k. rel_option similar (mview F (p_map p) k) (mview F (p_map q) k) \<or>
        (k = k0 \<and> mview F (p_map q) k = None)"
    and s1: "seq_wf s1" "sview F s1 = sview F s"
    and s': "s' = set_part (s1\<lparr>seqBytes := seqBytes s1 + allocated F (emplace F (p_map q) h) - p_bytes q\<rparr>)
      i (q\<lparr>p_map := emplace F (p_map q) h, p_bytes := allocated F (emplace F (p_map q) h)\<rparr>)"
  proof (cases "seqFits F s p")
    case True
    show thesis
      by (rule that [of p _ s])
        (use True absent assms(2,4) in
          \<open>auto simp: s'_def admit_key_def refused_def i_def [symmetric] p_def [symmetric] Let_def\<close>)
  next
    case False
    then have "items F (p_map p) \<noteq> []" using assms(4) by (auto simp: refused_def p_def i_def)
    then obtain k0 m where v: "mview F (p_map (evictSeq F p)) = (mview F m)(k0 := None)"
      "\<And>k. rel_option similar (mview F (p_map p) k) (mview F m k)"
      by (rule evictSeq_view [OF assms(1)]) blast
    have "mview F m h = None" using v(2) [of h] absent by (cases "mview F m h") auto
    then show thesis
      by (intro that [of "evictSeq F p" k0 "s\<lparr>seqEvictions := seqEvictions s + 1\<rparr>"])
        (use False v assms(2,4) in
          \<open>auto simp: s'_def admit_key_def refused_def i_def [symmetric] p_def [symmetric] Let_def\<close>)
  qed
  have vw: "sview F s' k = (if seqPart k = i then ((mview F (p_map q))(h \<mapsto> zero_entry)) k else sview F s k)" for k
    unfolding s' using s1 q(1) by (simp add: sview_set_part f14D [OF assms(1)])
  show "seq_wf s'" unfolding s' using s1 by (simp add: sview_set_part)
  show "sview F s' h = Some zero_entry" by (simp add: vw i_def)
  have "seq_kept F s s' k \<or> (k = k0 \<and> sview F s' k = None)" if "k \<noteq> h" for k
  proof (cases "seqPart k = i")
    case True
    then have "sview F s k = mview F (p_map p) k" by (simp add: sview_def p_def)
    then show ?thesis using True vw [of k] that q(2) [of k] by (simp add: seq_kept_def)
  qed (simp add: vw)
  then show "\<exists>k0. \<forall>k. k \<noteq> h \<longrightarrow> seq_kept F s s' k \<or> (k = k0 \<and> sview F s' k = None)" by blast
qed

lemma noteSeqno_present:
  assumes "f14_ok F" and "seq_wf s" and "sview F s h = Some v"
    and s'_def: "s' = noteSeqno F s h n d p admit"
  shows "seq_wf s'" and "sview F s' k = (if k = h then Some (note_value v n d p) else sview F s k)"
proof -
  define i where "i = seqPart h"
  have v: "mview F (p_map (seqParts s ! i)) h = Some v" using assms(3) by (simp add: sview_def i_def)
  have s': "s' = set_part s i ((seqParts s ! i)\<lparr>p_map :=
      assign F (p_map (seqParts s ! i)) h (note_value v n d p)\<rparr>)"
    using v by (simp add: s'_def noteSeqno_def Let_def i_def [symmetric])
  show "seq_wf s'" unfolding s' using assms(2) by (rule sview_set_part(2))
  show "sview F s' k = (if k = h then Some (note_value v n d p) else sview F s k)"
    unfolding s' sview_set_part(1) [OF assms(2)] using v
    by (auto simp: f14D(5) [OF assms(1)] i_def sview_def option.map_ident)
qed

lemma noteSeqno_absent:
  assumes "f14_ok F" and "seq_wf s" and "sview F s h = None"
    and s1_def: "s1 = admit_key F s h admit"
  shows "noteSeqno F s h n d p admit =
    (if refused F s h admit then s1 else noteSeqno F s1 h n d p admit)"
proof -
  have "mview F (p_map (seqParts s ! seqPart h)) h = None" using assms(3) by (simp add: sview_def)
  moreover have "sview F s1 h = (if refused F s h admit then None else Some zero_entry)"
    using admit_key_refused [of F s h admit] admit_key_admitted [OF assms(1-3), of admit] assms(3)
    by (auto simp: s1_def)
  ultimately show ?thesis
    by (auto simp: noteSeqno_def Let_def s1_def [symmetric] sview_def)
qed

lemma noteSeqno_correct:
  assumes "f14_ok F" and "seq_wf s" and "plain n"
    and s'_def: "s' = noteSeqno F s h n d p admit"
  shows "seq_wf s' \<and>
    (case sview F s h of
       Some v \<Rightarrow> sview F s' = (sview F s)(h \<mapsto> note_value v n d p) \<and> sq v \<le> sq (note_value v n d p) \<and>
         n \<le> sq (note_value v n d p)
     | None \<Rightarrow> if refused F s h admit then sview F s' = sview F s
         else (\<exists>w. sview F s' h = Some w \<and> sq w = n \<and> (n \<noteq> 0 \<longrightarrow> dl w = d) \<and>
                 v_valuePtr w = (if d then 0 else p)) \<and>
           (\<exists>k0. \<forall>k. k \<noteq> h \<longrightarrow> seq_kept F s s' k \<or> (k = k0 \<and> sview F s' k = None)))"
proof (cases "sview F s h")
  case (Some v)
  note N = noteSeqno_present [OF assms(1,2) Some s'_def]
  then have "sview F s' = (sview F s)(h \<mapsto> note_value v n d p)" by (auto simp: fun_eq_iff)
  then show ?thesis using Some N(1) note_value_mono [OF assms(3)] by simp
next
  case None
  show ?thesis
  proof (cases "refused F s h admit")
    case True
    have "s' = admit_key F s h admit"
      using noteSeqno_absent [OF assms(1,2) None refl, of n d p] True by (simp add: s'_def)
    then show ?thesis using admit_key_refused [OF True] None True assms(2) by simp
  next
    case False
    define s1 where "s1 = admit_key F s h admit"
    note A = admit_key_admitted [OF assms(1,2) None False, folded s1_def]
    have s': "s' = noteSeqno F s1 h n d p admit"
      using noteSeqno_absent [OF assms(1,2) None refl, of n d p] False by (simp add: s'_def s1_def)
    note N = noteSeqno_present [OF assms(1) A(1,2) s']
    let ?w = "note_value zero_entry n d p"
    have "sq ?w = n \<and> (n \<noteq> 0 \<longrightarrow> dl ?w = d) \<and> v_valuePtr ?w = (if d then 0 else p)"
      using note_value_cases [OF assms(3), of zero_entry d p]
      by (cases "n > 0 \<or> d"; cases "p = 0") (auto simp: word_gt_0)
    moreover obtain k0 where "\<forall>k. k \<noteq> h \<longrightarrow> seq_kept F s s1 k \<or> (k = k0 \<and> sview F s1 k = None)"
      using A(3) by blast
    then have "\<forall>k. k \<noteq> h \<longrightarrow> seq_kept F s s' k \<or> (k = k0 \<and> sview F s' k = None)"
      using N(2) by (simp add: seq_kept_def)
    ultimately show ?thesis using None False N by auto
  qed
qed


text \<open>An instance of the hash table: association lists with unique keys, in insertion order.\<close>

definition alist_f14 :: "(u64, SeqEntry) alist F14" where
  "alist_f14 = \<lparr>items = alist.impl_of, emplace = (\<lambda>m h. DAList.update h zero_entry m),
     erase_key = (\<lambda>m h. DAList.delete h m), assign = (\<lambda>m h v. DAList.map_entry h (\<lambda>_. v) m),
     bucket_count = (\<lambda>m. length (alist.impl_of m)), allocated = (\<lambda>m. 32 * length (alist.impl_of m))\<rparr>"

lemma map_entry_map:
  "distinct (map fst xs) \<Longrightarrow>
     AList.map_entry h (\<lambda>_. v) xs = map (\<lambda>(k, w). (k, if k = h then v else w)) xs"
proof (induction xs)
  case (Cons x xs)
  have "map (\<lambda>(k, w). (k, if k = fst x then v else w)) xs = xs" if "fst x \<notin> fst ` set xs"
    using that by (induction xs) force+
  then show ?case using Cons by (cases x) auto
qed simp

lemma alist_f14_ok: "f14_ok alist_f14"
  by (simp add: f14_ok_def alist_f14_def impl_of_distinct map_entry_map update.rep_eq delete.rep_eq
      map_entry.rep_eq update_conv' delete_conv')

definition empty_seq_index :: "'m \<Rightarrow> 'm SeqIndex" where
  "empty_seq_index m0 = \<lparr>seqParts = replicate kSeqParts
     \<lparr>p_map = m0, p_bytes = 0, p_hand = 0, p_handSet = False\<rparr>,
     seqCap = 0, seqBytes = 0, seqEvictions = 0, seqRejected = 0\<rparr>"

lemma empty_seq_index [simp]:
  "seq_wf (empty_seq_index m0)" "items F m0 = [] \<Longrightarrow> sview F (empty_seq_index m0) h = None"
  using seqPart_less [of h] by (simp_all add: seq_wf_def empty_seq_index_def sview_def)


subsection \<open>Recorded places\<close>

text \<open>
  Executions of a shard's seqno index, with the places reported so far: \<open>(h, seqno, ptr)\<close> when
  the document of seqno \<open>seqno\<close> was reported to lie at \<open>ptr\<close>.
\<close>

inductive seq_reach :: "'m F14 \<Rightarrow> 'm SeqIndex \<Rightarrow> (u64 \<times> u64 \<times> u64) set \<Rightarrow> bool" for F where
  start: "items F m0 = [] \<Longrightarrow> seq_reach F (empty_seq_index m0) {}"
| note_seqno: "seq_reach F s N \<Longrightarrow> plain n \<Longrightarrow>
    seq_reach F (noteSeqno F s h n d p admit) (if d then N else insert (h, n, p) N)"
| note_ptr: "seq_reach F s N \<Longrightarrow> plain n \<Longrightarrow>
    seq_reach F (NoteValuePtr F s h n p) (insert (h, n, p) N)"
| hint: "seq_reach F s N \<Longrightarrow> SeqnoHint F s h = (n, p, s') \<Longrightarrow> seq_reach F s' N"
| cap: "seq_reach F s N \<Longrightarrow> seq_reach F (SetSeqCap s c) N"

definition places_ok :: "'m F14 \<Rightarrow> 'm SeqIndex \<Rightarrow> (u64 \<times> u64 \<times> u64) set \<Rightarrow> bool" where
  "places_ok F s N \<longleftrightarrow> seq_wf s \<and> (\<forall>h v. sview F s h = Some v \<longrightarrow> v_valuePtr v \<noteq> 0 \<longrightarrow>
     (h, sq v, v_valuePtr v) \<in> N)"

lemma SeqnoHint_view:
  assumes "f14_ok F" and "seq_wf s" and "SeqnoHint F s h = (n, p, s')"
  shows "seq_wf s' \<and> (\<forall>k. seq_kept F s s' k) \<and>
    (case sview F s h of None \<Rightarrow> n = 0 \<and> p = 0
     | Some v \<Rightarrow> if dl v then n = 0 \<and> p = 0 else n = sq v \<and> p = v_valuePtr v)"
proof (cases "sview F s h")
  case None
  then show ?thesis using assms(2,3) by (auto simp: SeqnoHint_def sview_def Let_def)
next
  case (Some v)
  define i where "i = seqPart h"
  have v: "mview F (p_map (seqParts s ! i)) h = Some v" using Some by (simp add: sview_def i_def)
  show ?thesis
  proof (cases "dl v")
    case True
    then show ?thesis
      using v assms(2,3) Some by (auto simp: SeqnoHint_def i_def [symmetric] Let_def dl_def)
  next
    case False
    let ?v = "v\<lparr>v_seqno := v_seqno v OR kSeqnoUsed\<rparr>"
    have s': "n = sq ?v" "p = v_valuePtr v"
      "s' = set_part s i ((seqParts s ! i)\<lparr>p_map := assign F (p_map (seqParts s ! i)) h ?v\<rparr>)"
      using v False assms(3) by (auto simp: SeqnoHint_def i_def [symmetric] Let_def dl_def sq_def)
    have "sview F s' k = (if k = h then Some ?v else sview F s k)" for k
      unfolding s'(3) sview_set_part(1) [OF assms(2)] using v
      by (auto simp: f14D(5) [OF assms(1)] i_def sview_def option.map_ident)
    then have "seq_kept F s s' k" for k
      using Some by (auto simp: seq_kept_def similar_def)
    moreover have "seq_wf s'" unfolding s'(3) using assms(2) by (rule sview_set_part(2))
    ultimately show ?thesis using Some False s' by simp
  qed
qed

lemma places_ok_kept:
  assumes "places_ok F s N" and "seq_wf s'" and "N \<subseteq> N'"
    and "\<And>k. seq_kept F s s' k \<or> sview F s' k = None \<or>
      (\<forall>v. sview F s' k = Some v \<longrightarrow> v_valuePtr v \<noteq> 0 \<longrightarrow> (k, sq v, v_valuePtr v) \<in> N')"
  shows "places_ok F s' N'"
  unfolding places_ok_def
proof (intro conjI allI impI)
  fix k v assume v: "sview F s' k = Some v" "v_valuePtr v \<noteq> 0"
  show "(k, sq v, v_valuePtr v) \<in> N'"
  proof (cases "seq_kept F s s' k")
    case True
    then obtain u where "sview F s k = Some u" "similar u v"
      using v(1) by (auto simp: seq_kept_def option_rel_Some2)
    moreover from this have "(k, sq u, v_valuePtr u) \<in> N"
      using assms(1) v(2) unfolding places_ok_def similar_def by metis
    ultimately show ?thesis using assms(3) by (auto simp: similar_def)
  next
    case False
    then show ?thesis using assms(4) [of k] v by auto
  qed
qed (rule assms(2))

lemma places_ok_note:
  assumes "f14_ok F" and "places_ok F s N" and "plain n"
  shows "places_ok F (noteSeqno F s h n d p admit) (if d then N else insert (h, n, p) N)"
    (is "places_ok F ?s' ?N")
proof -
  have wf: "seq_wf s" using assms(2) by (simp add: places_ok_def)
  note S = noteSeqno_correct [OF assms(1) wf assms(3) refl, of h d p admit]
  have "(\<forall>v. sview F ?s' h = Some v \<longrightarrow> v_valuePtr v \<noteq> 0 \<longrightarrow> (h, sq v, v_valuePtr v) \<in> ?N) \<and>
      (\<forall>k. k \<noteq> h \<longrightarrow> seq_kept F s ?s' k \<or> sview F ?s' k = None)"
  proof (cases "sview F s h")
    case (Some u)
    have "(h, sq (note_value u n d p), v_valuePtr (note_value u n d p)) \<in> ?N"
      if "v_valuePtr (note_value u n d p) \<noteq> 0"
    proof -
      have old: "v_valuePtr u \<noteq> 0 \<Longrightarrow> (h, sq u, v_valuePtr u) \<in> N"
        using assms(2) Some by (simp add: places_ok_def)
      show ?thesis
        using note_value_cases [OF assms(3), of u d p] that old
        by (cases "n > sq u \<or> (n = sq u \<and> d)"; cases "n = sq u \<and> p \<noteq> 0 \<and> \<not> dl u")
          (auto split: if_splits)
    qed
    then show ?thesis using S Some by auto
  next
    case None
    then show ?thesis using S by (cases "refused F s h admit") (auto split: if_splits)
  qed
  then show ?thesis
    by (intro places_ok_kept [OF assms(2)]) (use S in \<open>auto split: if_splits\<close>)
qed

lemma places_ok_ptr:
  assumes "f14_ok F" and "places_ok F s N" and "plain n"
  shows "places_ok F (NoteValuePtr F s h n p) (insert (h, n, p) N)" (is "places_ok F ?s' _")
proof (cases "?s' = s")
  case True
  then show ?thesis using assms(2) by (auto simp: places_ok_def)
next
  case False
  define i where "i = seqPart h"
  have wf: "seq_wf s" using assms(2) by (simp add: places_ok_def)
  obtain v where v: "mview F (p_map (seqParts s ! i)) h = Some v" "v_seqno v AND NOT kSeqnoUsed = n"
    and s': "?s' = set_part s i ((seqParts s ! i)\<lparr>p_map :=
      assign F (p_map (seqParts s ! i)) h (v\<lparr>v_valuePtr := p\<rparr>)\<rparr>)"
    using False by (auto simp: NoteValuePtr_def i_def Let_def split: option.splits if_splits)
  have vw: "sview F ?s' k = (if k = h then Some (v\<lparr>v_valuePtr := p\<rparr>) else sview F s k)" for k
    unfolding s' sview_set_part(1) [OF wf] using v(1)
    by (auto simp: f14D(5) [OF assms(1)] i_def sview_def option.map_ident)
  have "sq v = n"
    unfolding sq_def v(2) [symmetric]
    by (rule bit_word_eqI) (use assms(3) v(2) in \<open>auto simp: plain_bits bit_and_iff bit_not_iff\<close>)
  then show ?thesis
    by (intro places_ok_kept [OF assms(2)]) (use vw s' sview_set_part(2) [OF wf] in auto)
qed

lemma seq_reach_places: "seq_reach F s N \<Longrightarrow> f14_ok F \<Longrightarrow> places_ok F s N"
proof (induction rule: seq_reach.induct)
  case (hint s N h n p s')
  then show ?case
    using SeqnoHint_view [OF hint.prems _ hint.hyps(2)] places_ok_kept [OF hint.IH, of s' N]
    by (auto simp: places_ok_def)
next
  case (cap s N c)
  then show ?case by (simp add: places_ok_def SetSeqCap_def)
qed (simp_all add: places_ok_note places_ok_ptr, simp add: places_ok_def)

text \<open>C27. A read hint never pairs a seqno with another version's location: when, after any
  sequence of notes, place reports, hints, evictions and cap changes, a hint returns seqno
  \<open>n\<close> with a place \<open>p\<close>, then \<open>p\<close> was reported for exactly that key hash and that seqno.\<close>

theorem hint_place_is_current:
  assumes "f14_ok F" and "seq_reach F s N" and "SeqnoHint F s h = (n, p, s')" and "p \<noteq> 0"
  shows "(h, n, p) \<in> N"
proof -
  have P: "places_ok F s N" using seq_reach_places [OF assms(2,1)] .
  then have "case sview F s h of None \<Rightarrow> n = 0 \<and> p = 0
     | Some v \<Rightarrow> if dl v then n = 0 \<and> p = 0 else n = sq v \<and> p = v_valuePtr v"
    using SeqnoHint_view [OF assms(1) _ assms(3)] by (simp add: places_ok_def)
  then show ?thesis
    using P assms(4) by (auto simp: places_ok_def split: option.splits if_splits)
qed

theorem hint_place_is_current_witness:
  "\<exists>s N n p s'. seq_reach alist_f14 s N \<and> SeqnoHint alist_f14 s 7 = (n, p, s') \<and> p \<noteq> 0 \<and>
     (7, n, p) \<in> N"
proof -
  let ?init = "empty_seq_index DAList.empty :: (u64, SeqEntry) alist SeqIndex"
  let ?s = "noteSeqno alist_f14 ?init 7 5 False 9 True"
  have e: "items alist_f14 DAList.empty = []" by (simp add: alist_f14_def DAList.empty.rep_eq)
  have pl: "plain 5" by (simp add: plain_def kSeqnoFlags_def kSeqnoDeleted_def kSeqnoUsed_def)
  have r: "seq_reach alist_f14 ?s (if False then {} else insert (7, 5, 9) {})"
    by (rule seq_reach.note_seqno [OF seq_reach.start [OF e] pl])
  have wf: "seq_wf ?s" and w: "\<exists>w. sview alist_f14 ?s 7 = Some w \<and> \<not> dl w \<and> v_valuePtr w = 9"
  proof -
    have "\<not> refused alist_f14 ?init 7 True" by (simp add: refused_def seqFits_def empty_seq_index_def)
    then show "seq_wf ?s" "\<exists>w. sview alist_f14 ?s 7 = Some w \<and> \<not> dl w \<and> v_valuePtr w = 9"
      using noteSeqno_correct [OF alist_f14_ok _ pl refl, of ?init 7 False 9 True] e by auto
  qed
  obtain n p s' where h: "SeqnoHint alist_f14 ?s 7 = (n, p, s')" by (cases "SeqnoHint alist_f14 ?s 7")
  then have "p \<noteq> 0" using SeqnoHint_view [OF alist_f14_ok wf h] w by auto
  then show ?thesis using hint_place_is_current [OF alist_f14_ok r h] r h by blast
qed

end
