(* ===== verification/S3fifo_Shard.thy ===== *)
theory S3fifo_Shard
  imports Intrusive_Fifo Seqno_Index
begin

text \<open>
  One shard of the S3-FIFO document cache (\<open>S3FifoCache::Shard\<close> in
  \<^verbatim>\<open>server/cache/s3fifo_cache.cc\<close>): the entry heap, the index, the small and main queues, the
  ghost queue of recently evicted key hashes, and the eviction policy. The key hash
  (SpookyHash) is the parameter \<open>hf\<close>; nothing is assumed of it, so collisions are covered.
  The shard lock serialises these operations, so each is one step on the shard's state.
\<close>

definition kSmallPercent :: nat where "kSmallPercent = 10"
definition kMaxFreq :: nat where "kMaxFreq = 3"

type_synonym hashfn = "u16 \<Rightarrow> bytes \<Rightarrow> u64"

record 'm Shard =
  sh_heap :: heap
  sh_index :: FlatIndex
  sh_small :: Fifo
  sh_main :: Fifo
  sh_ghost :: "u64 list"
  sh_ghostSet :: "u64 set"
  sh_budget :: nat
  sh_smallBudget :: nat
  sh_puts :: nat
  sh_fills :: nat
  sh_evictions :: nat
  sh_ghostHits :: nat
  sh_fillsDeferred :: nat
  sh_pendingItems :: nat
  sh_seq :: "'m SeqIndex"

subsection \<open>Operations\<close>

definition sh_bytes :: "'m Shard \<Rightarrow> nat" where
  "sh_bytes s = f_bytes (sh_small s) + f_bytes (sh_main s)"

definition sh_find :: "'m Shard \<Rightarrow> u64 \<Rightarrow> bytes \<Rightarrow> addr option" where
  "sh_find s h mk = ix_find (sh_index s) h (\<lambda>a. mapKey (ent (sh_heap s) a) = mk)"

fun ghost_trim :: "nat \<Rightarrow> u64 list \<Rightarrow> u64 set \<Rightarrow> u64 list \<times> u64 set" where
  "ghost_trim cap [] S = ([], S)"
| "ghost_trim cap (g # gs) S =
     (if length (g # gs) > cap then ghost_trim cap gs (S - {g}) else (g # gs, S))"

definition ghostAdd :: "'m Shard \<Rightarrow> u64 \<Rightarrow> 'm Shard" where
  "ghostAdd s h =
     (if h \<in> sh_ghostSet s then s
      else let cap = max 1024 (f_count (sh_main s));
               (gs, S) = ghost_trim cap (sh_ghost s @ [h]) (insert h (sh_ghostSet s))
           in s\<lparr>sh_ghost := gs, sh_ghostSet := S\<rparr>)"

definition unlink :: "'m Shard \<Rightarrow> addr \<Rightarrow> 'm Shard" where
  "unlink s a =
     (if e_queue (ent (sh_heap s) a) = kSmall
      then let (hp, q) = remove (sh_heap s) (sh_small s) a in s\<lparr>sh_heap := hp, sh_small := q\<rparr>
      else let (hp, q) = remove (sh_heap s) (sh_main s) a in s\<lparr>sh_heap := hp, sh_main := q\<rparr>)"

definition push_main :: "'m Shard \<Rightarrow> addr \<Rightarrow> 'm Shard" where
  "push_main s a =
     (let (hp, q) = pushHead (sh_heap s) (sh_main s) a in s\<lparr>sh_heap := hp, sh_main := q\<rparr>)"

definition push_small :: "'m Shard \<Rightarrow> addr \<Rightarrow> 'm Shard" where
  "push_small s a =
     (let (hp, q) = pushHead (sh_heap s) (sh_small s) a in s\<lparr>sh_heap := hp, sh_small := q\<rparr>)"

definition set_ent :: "'m Shard \<Rightarrow> addr \<Rightarrow> (Entry \<Rightarrow> Entry) \<Rightarrow> 'm Shard" where
  "set_ent s a f = s\<lparr>sh_heap := upd (sh_heap s) a f\<rparr>"

definition sh_insert :: "'m Shard \<Rightarrow> addr \<Rightarrow> u64 \<Rightarrow> 'm Shard" where
  "sh_insert s a h =
     (let s = (if h \<in> sh_ghostSet s
               then (push_main (set_ent s a (\<lambda>e. e\<lparr>e_queue := kMain\<rparr>)) a)
                      \<lparr>sh_ghostHits := sh_ghostHits s + 1\<rparr>
               else push_small (set_ent s a (\<lambda>e. e\<lparr>e_queue := kSmall\<rparr>)) a)
      in s\<lparr>sh_index := ix_insert (sh_index s) h a\<rparr>)"

definition destroy :: "'m Shard \<Rightarrow> addr \<Rightarrow> 'm Shard" where
  "destroy s a = s\<lparr>sh_heap := (sh_heap s)(a := None)\<rparr>"

definition ent_hash :: "hashfn \<Rightarrow> Entry \<Rightarrow> u64" where
  "ent_hash hf e = hf (e_vbid e) (e_key e)"

definition sh_free :: "hashfn \<Rightarrow> 'm Shard \<Rightarrow> addr \<Rightarrow> 'm Shard" where
  "sh_free hf s a =
     (let e = ent (sh_heap s) a;
          s = s\<lparr>sh_index := ix_erase (sh_index s) (ent_hash hf e) a\<rparr>;
          s = (if e_pending e > 0 then s\<lparr>sh_pendingItems := sh_pendingItems s - 1\<rparr> else s)
      in destroy s a)"

definition evictSmall :: "hashfn \<Rightarrow> 'm Shard \<Rightarrow> 'm Shard" where
  "evictSmall hf s =
     (case popTail (sh_heap s) (sh_small s) of
        (None, _, _) \<Rightarrow> s
      | (Some a, hp, q) \<Rightarrow>
          let s = s\<lparr>sh_heap := hp, sh_small := q\<rparr>; e = ent hp a
          in if e_pending e > 0 \<or> e_freq e > 1
             then push_main (set_ent s a (\<lambda>e. e\<lparr>e_freq := 0, e_queue := kMain\<rparr>)) a
             else let s = ghostAdd s (ent_hash hf e)
                  in sh_free hf (s\<lparr>sh_evictions := sh_evictions s + 1\<rparr>) a)"

definition evictMain :: "hashfn \<Rightarrow> 'm Shard \<Rightarrow> 'm Shard" where
  "evictMain hf s =
     (case popTail (sh_heap s) (sh_main s) of
        (None, _, _) \<Rightarrow> s
      | (Some a, hp, q) \<Rightarrow>
          let s = s\<lparr>sh_heap := hp, sh_main := q\<rparr>; e = ent hp a; f = e_freq e
          in if e_pending e > 0 \<or> f > 0
             then push_main (if f > 0 then set_ent s a (\<lambda>e. e\<lparr>e_freq := f - 1\<rparr>) else s) a
             else sh_free hf (s\<lparr>sh_evictions := sh_evictions s + 1\<rparr>) a)"

text \<open>The eviction loop; its argument is the source's own \<open>guard\<close>.\<close>

primrec evict_loop :: "nat \<Rightarrow> hashfn \<Rightarrow> 'm Shard \<Rightarrow> 'm Shard" where
  "evict_loop 0 hf s = s"
| "evict_loop (Suc guard) hf s =
     (if sh_bytes s > sh_budget s
      then if f_bytes (sh_small s) > sh_smallBudget s \<and> f_tail (sh_small s) \<noteq> None
           then evict_loop guard hf (evictSmall hf s)
           else if f_tail (sh_main s) \<noteq> None then evict_loop guard hf (evictMain hf s)
           else if f_tail (sh_small s) \<noteq> None then evict_loop guard hf (evictSmall hf s)
           else s
      else s)"

definition evict :: "hashfn \<Rightarrow> 'm Shard \<Rightarrow> 'm Shard" where
  "evict hf s =
     evict_loop ((kMaxFreq + 1) * (f_count (sh_small s) + f_count (sh_main s)) + 1) hf s"

subsection \<open>Invariant\<close>

abbreviation ekey :: "Entry \<Rightarrow> u16 \<times> bytes" where
  "ekey e \<equiv> (e_vbid e, e_key e)"

text \<open>
  \<open>xs\<close> and \<open>ys\<close> are the small and main queues from head to tail, \<open>zs\<close> the entries that are in
  neither for the moment (between an unlink and the following push or free), \<open>I\<close> the indexed
  ones. Every queued entry is in the queue its \<open>queue\<close> field names; the index holds exactly \<open>I\<close>,
  under the entries' hashes; keys are unique; frequencies stay within \<open>kMaxFreq\<close>; the ghost
  queue and set agree.
\<close>

definition index_of :: "hashfn \<Rightarrow> heap \<Rightarrow> addr set \<Rightarrow> (u64 \<times> addr) multiset" where
  "index_of hf hp I = image_mset (\<lambda>a. (ent_hash hf (ent hp a), a)) (mset_set I)"

definition queues_ok :: "'m Shard \<Rightarrow> addr list \<Rightarrow> addr list \<Rightarrow> addr list \<Rightarrow> bool" where
  "queues_ok s xs ys zs \<longleftrightarrow>
     dll (sh_heap s) (sh_small s) xs \<and> dll (sh_heap s) (sh_main s) ys \<and>
     distinct (xs @ ys @ zs) \<and> dom (sh_heap s) = set (xs @ ys @ zs) \<and>
     (\<forall>a\<in>set xs. e_queue (ent (sh_heap s) a) = kSmall) \<and>
     (\<forall>a\<in>set ys. e_queue (ent (sh_heap s) a) = kMain)"

definition entries_ok :: "hashfn \<Rightarrow> 'm Shard \<Rightarrow> addr set \<Rightarrow> bool" where
  "entries_ok hf s I \<longleftrightarrow>
     I \<subseteq> dom (sh_heap s) \<and> finite I \<and>
     fi_inv (sh_index s) \<and> fi_contents (sh_index s) = index_of hf (sh_heap s) I \<and>
     inj_on (\<lambda>a. ekey (ent (sh_heap s) a)) I \<and>
     (\<forall>a\<in>dom (sh_heap s). e_freq (ent (sh_heap s) a) \<le> kMaxFreq)"

definition ghost_ok :: "'m Shard \<Rightarrow> bool" where
  "ghost_ok s \<longleftrightarrow> distinct (sh_ghost s) \<and> set (sh_ghost s) = sh_ghostSet s"

definition sinv :: "hashfn \<Rightarrow> 'm Shard \<Rightarrow> addr list \<Rightarrow> addr list \<Rightarrow> addr list \<Rightarrow> addr set \<Rightarrow> bool" where
  "sinv hf s xs ys zs I \<longleftrightarrow>
     queues_ok s xs ys zs \<and> entries_ok hf s I \<and> ghost_ok s \<and> sh_smallBudget s \<le> sh_budget s"

definition shard_ok :: "hashfn \<Rightarrow> 'm Shard \<Rightarrow> addr list \<Rightarrow> addr list \<Rightarrow> bool" where
  "shard_ok hf s xs ys \<longleftrightarrow> sinv hf s xs ys [] (dom (sh_heap s))"

text \<open>The parts of an entry the policy never touches.\<close>

definition core :: "Entry \<Rightarrow> Entry" where
  "core e = (strip e)\<lparr>e_freq := 0, e_queue := kSmall\<rparr>"

definition cores :: "heap \<Rightarrow> heap" where
  "cores hp = (\<lambda>a. map_option core (hp a))"

lemma core_strip [simp]: "core (strip e) = core e" "core (e\<lparr>e_freq := f\<rparr>) = core e"
  "core (e\<lparr>e_queue := q\<rparr>) = core e" "core (core e) = core e"
  by (simp_all add: core_def strip_def)

lemma core_fields [simp]:
  "e_seqno (core e) = e_seqno e" "e_flags (core e) = e_flags e" "e_expiry (core e) = e_expiry e"
  "e_pending (core e) = e_pending e" "e_vbid (core e) = e_vbid e"
  "e_datatype (core e) = e_datatype e" "e_deleted (core e) = e_deleted e"
  "e_key (core e) = e_key e" "e_value (core e) = e_value e" "e_shared (core e) = e_shared e"
  "charge (core e) = charge e" "ent_hash hf (core e) = ent_hash hf e" "mapKey (core e) = mapKey e"
  by (simp_all add: core_def charge_def ent_hash_def mapKey_def split: option.split)

lemma data_eq_cores: "data hp = data hp' \<Longrightarrow> cores hp = cores hp'"
proof (rule ext)
  fix a assume "data hp = data hp'"
  then have "map_option strip (hp a) = map_option strip (hp' a)" by (metis data_def)
  then have "map_option core (map_option strip (hp a)) = map_option core (map_option strip (hp' a))"
    by simp
  then show "cores hp a = cores hp' a" by (simp add: cores_def option.map_comp comp_def)
qed

lemma cores_upd:
  "(\<And>e. core (f e) = core e) \<Longrightarrow> cores (upd hp a f) = cores hp"
  by (rule ext) (simp add: cores_def option.map_comp comp_def)

lemma cores_dom: "cores hp = cores hp' \<Longrightarrow> dom hp = dom hp'"
  by (auto simp: cores_def fun_eq_iff dom_def) (metis not_None_eq option.map_disc_iff)+

lemma cores_ent: "cores hp = cores hp' \<Longrightarrow> a \<in> dom hp \<Longrightarrow> core (ent hp a) = core (ent hp' a)"
proof -
  assume "cores hp = cores hp'" "a \<in> dom hp"
  then have "map_option core (hp a) = map_option core (hp' a)" by (metis cores_def)
  then show ?thesis using \<open>a \<in> dom hp\<close> by (cases "hp' a") auto
qed

lemma core_eqD:
  assumes "core e = core e'"
  shows "e_seqno e = e_seqno e'" "e_flags e = e_flags e'" "e_expiry e = e_expiry e'"
    "e_pending e = e_pending e'" "e_vbid e = e_vbid e'" "e_datatype e = e_datatype e'"
    "e_deleted e = e_deleted e'" "e_key e = e_key e'" "e_value e = e_value e'"
    "charge e = charge e'" "ent_hash hf e = ent_hash hf e'" "mapKey e = mapKey e'"
  using assms by (metis core_fields)+

lemma mapKey_eq: "mapKey e = mapKey e' \<longleftrightarrow> ekey e = ekey e'"
proof
  assume "mapKey e = mapKey e'"
  then have "bytes_le 2 (e_vbid e) = bytes_le 2 (e_vbid e')" "e_key e = e_key e'"
    by (simp_all add: mapKey_def)
  then have "(le_word (bytes_le 2 (e_vbid e)) :: u16) = le_word (bytes_le 2 (e_vbid e'))" by simp
  then show "ekey e = ekey e'" using \<open>e_key e = e_key e'\<close> by simp
qed (simp add: mapKey_def)

subsection \<open>Lookups\<close>

lemma mem_index_of:
  "finite I \<Longrightarrow> (h, a) \<in># index_of hf hp I \<longleftrightarrow> a \<in> I \<and> h = ent_hash hf (ent hp a)"
  by (auto simp: index_of_def)

lemma index_of_cores:
  assumes "cores hp' = cores hp" and "I \<subseteq> dom hp"
  shows "index_of hf hp' I = index_of hf hp I"
  unfolding index_of_def
proof (rule image_mset_cong)
  fix a assume "a \<in># mset_set I"
  then have "a \<in> dom hp" using assms(2) by (cases "finite I") auto
  then have "core (ent hp a) = core (ent hp' a)" using cores_ent assms(1) by metis
  then show "(ent_hash hf (ent hp' a), a) = (ent_hash hf (ent hp a), a)"
    using core_eqD(11) by metis
qed

lemma index_of_insert:
  "finite I \<Longrightarrow> a \<notin> I \<Longrightarrow> index_of hf hp (insert a I) = add_mset (ent_hash hf (ent hp a), a) (index_of hf hp I)"
  by (simp add: index_of_def)

lemma index_of_remove:
  "finite I \<Longrightarrow> a \<in> I \<Longrightarrow> index_of hf hp (I - {a}) = index_of hf hp I - {#(ent_hash hf (ent hp a), a)#}"
  by (simp add: index_of_def mset_set_Diff image_mset_Diff)

abbreviation map_key :: "u16 \<Rightarrow> bytes \<Rightarrow> bytes" where
  "map_key v k \<equiv> bytes_le 2 v @ k"

lemma mapKey_map_key: "mapKey e = map_key v k \<longleftrightarrow> ekey e = (v, k)"
proof -
  have "mapKey e = mapKey (e\<lparr>e_vbid := v, e_key := k\<rparr>) \<longleftrightarrow> ekey e = ekey (e\<lparr>e_vbid := v, e_key := k\<rparr>)"
    by (rule mapKey_eq)
  then show ?thesis by (simp add: mapKey_def [of "e\<lparr>e_vbid := v, e_key := k\<rparr>"])
qed

lemma sh_find_iff:
  assumes "entries_ok hf s I"
  shows "sh_find s (hf v k) (map_key v k) = Some a \<longleftrightarrow> a \<in> I \<and> ekey (ent (sh_heap s) a) = (v, k)"
proof -
  have fi: "fi_inv (sh_index s)" and c: "fi_contents (sh_index s) = index_of hf (sh_heap s) I"
    and fin: "finite I" and inj: "inj_on (\<lambda>a. ekey (ent (sh_heap s) a)) I"
    using assms by (auto simp: entries_ok_def)
  show ?thesis
  proof
    assume "sh_find s (hf v k) (map_key v k) = Some a"
    from fi.lookup_sound [OF fi this [unfolded sh_find_def]]
    show "a \<in> I \<and> ekey (ent (sh_heap s) a) = (v, k)"
      by (simp add: c mem_index_of [OF fin] mapKey_map_key)
  next
    assume a: "a \<in> I \<and> ekey (ent (sh_heap s) a) = (v, k)"
    show "sh_find s (hf v k) (map_key v k) = Some a"
      unfolding sh_find_def
    proof (rule fi.lookup_unique [OF fi])
      show "(hf v k, a) \<in># fi_contents (sh_index s)"
        using a by (simp add: c mem_index_of [OF fin] ent_hash_def)
      show "e' = a" if "(hf v k, e') \<in># fi_contents (sh_index s)"
        "mapKey (ent (sh_heap s) e') = map_key v k" for e'
        using that a inj unfolding c mem_index_of [OF fin] mapKey_map_key inj_on_def by metis
    qed (use a in \<open>simp add: mapKey_map_key\<close>)
  qed
qed

lemma sh_find_None:
  "entries_ok hf s I \<Longrightarrow>
     sh_find s (hf v k) (map_key v k) = None \<longleftrightarrow> (\<forall>a\<in>I. ekey (ent (sh_heap s) a) \<noteq> (v, k))"
  using sh_find_iff [of hf s I v k] by (metis not_None_eq)

subsection \<open>Elementary steps\<close>

lemma entries_ok_cores:
  assumes "entries_ok hf s I" and "cores (sh_heap s') = cores (sh_heap s)"
    and "sh_index s' = sh_index s"
    and "\<And>a. a \<in> dom (sh_heap s) \<Longrightarrow> e_freq (ent (sh_heap s') a) \<le> kMaxFreq"
  shows "entries_ok hf s' I"
proof -
  have d: "dom (sh_heap s') = dom (sh_heap s)" using cores_dom [OF assms(2)] .
  have "ekey (ent (sh_heap s') a) = ekey (ent (sh_heap s) a)" if "a \<in> I" for a
  proof -
    have "a \<in> dom (sh_heap s')" using that assms(1) d unfolding entries_ok_def by blast
    from cores_ent [OF assms(2) this]
    have "core (ent (sh_heap s') a) = core (ent (sh_heap s) a)" .
    from core_eqD(5,8) [OF this] show ?thesis by simp
  qed
  then have "inj_on (\<lambda>a. ekey (ent (sh_heap s') a)) I \<longleftrightarrow> inj_on (\<lambda>a. ekey (ent (sh_heap s) a)) I"
    by (rule inj_on_cong)
  then have "inj_on (\<lambda>a. ekey (ent (sh_heap s') a)) I"
    using assms(1) unfolding entries_ok_def by blast
  moreover have "I \<subseteq> dom (sh_heap s)" "finite I" "fi_inv (sh_index s)"
    "fi_contents (sh_index s) = index_of hf (sh_heap s) I"
    using assms(1) by (simp_all add: entries_ok_def)
  ultimately show ?thesis
    unfolding entries_ok_def d assms(3) using index_of_cores [OF assms(2), of I hf] assms(4) by simp
qed

lemma strip_eqD:
  assumes "strip e' = strip e"
  shows "e_queue e' = e_queue e" "e_freq e' = e_freq e" "e_pending e' = e_pending e"
    "ent_hash hf e' = ent_hash hf e" "ekey e' = ekey e" "charge e' = charge e"
  using arg_cong [OF assms, of e_queue] arg_cong [OF assms, of e_freq]
    arg_cong [OF assms, of e_pending] arg_cong [OF assms, of "ent_hash hf"]
    arg_cong [OF assms, of ekey] arg_cong [OF assms, of charge]
  by (simp_all add: ent_hash_def)

lemma links_only_ent:
  assumes "links_only hp hp' A" and "a \<in> dom hp"
  shows "e_queue (ent hp' a) = e_queue (ent hp a)" "e_freq (ent hp' a) = e_freq (ent hp a)"
    "e_pending (ent hp' a) = e_pending (ent hp a)" "ent_hash hf (ent hp' a) = ent_hash hf (ent hp a)"
    "ekey (ent hp' a) = ekey (ent hp a)" "charge (ent hp' a) = charge (ent hp a)"
proof -
  have st: "strip (ent hp' a) = strip (ent hp a)"
    using data_eq_ent [of hp hp' a] assms by (simp add: links_only_def)
  show "e_queue (ent hp' a) = e_queue (ent hp a)" "e_freq (ent hp' a) = e_freq (ent hp a)"
    "e_pending (ent hp' a) = e_pending (ent hp a)" "ent_hash hf (ent hp' a) = ent_hash hf (ent hp a)"
    "ekey (ent hp' a) = ekey (ent hp a)" "charge (ent hp' a) = charge (ent hp a)"
    by (rule strip_eqD [OF st])+
qed

lemma links_only_facts:
  assumes "links_only hp hp' A"
  shows "dom hp' = dom hp" "cores hp' = cores hp" "data hp' = data hp"
  using assms data_eq_dom [of hp' hp] data_eq_cores [of hp' hp] by (simp_all add: links_only_def)

lemma entries_ok_links:
  assumes "entries_ok hf s I" and "links_only (sh_heap s) (sh_heap s') A"
    and "sh_index s' = sh_index s"
  shows "entries_ok hf s' I"
  by (rule entries_ok_cores [OF assms(1) links_only_facts(2) [OF assms(2)] assms(3)])
    (use assms(1) links_only_ent [OF assms(2)] in \<open>auto simp: entries_ok_def\<close>)

lemma queues_okD:
  assumes "queues_ok s xs ys zs"
  shows "dll (sh_heap s) (sh_small s) xs" "dll (sh_heap s) (sh_main s) ys" "distinct (xs @ ys @ zs)"
    "dom (sh_heap s) = set (xs @ ys @ zs)"
    "\<And>a. a \<in> set xs \<Longrightarrow> e_queue (ent (sh_heap s) a) = kSmall"
    "\<And>a. a \<in> set ys \<Longrightarrow> e_queue (ent (sh_heap s) a) = kMain"
  using assms by (auto simp: queues_ok_def)

lemma queues_okI:
  assumes "dll (sh_heap s) (sh_small s) xs" "dll (sh_heap s) (sh_main s) ys" "distinct (xs @ ys @ zs)"
    "dom (sh_heap s) = set (xs @ ys @ zs)"
    "\<And>a. a \<in> set xs \<Longrightarrow> e_queue (ent (sh_heap s) a) = kSmall"
    "\<And>a. a \<in> set ys \<Longrightarrow> e_queue (ent (sh_heap s) a) = kMain"
  shows "queues_ok s xs ys zs"
  using assms by (simp add: queues_ok_def)

text \<open>What a step leaves of the shard besides queues and entries.\<close>

definition same_rest :: "'m Shard \<Rightarrow> 'm Shard \<Rightarrow> bool" where
  "same_rest s s' \<longleftrightarrow> sh_ghost s' = sh_ghost s \<and> sh_ghostSet s' = sh_ghostSet s \<and>
     sh_budget s' = sh_budget s \<and> sh_smallBudget s' = sh_smallBudget s \<and>
     sh_pendingItems s' = sh_pendingItems s \<and> sh_seq s' = sh_seq s"

lemma detach_small:
  assumes "sinv hf s (as @ a # bs) ys zs I" and "remove (sh_heap s) (sh_small s) a = (hp, q)"
  defines "s' \<equiv> s\<lparr>sh_heap := hp, sh_small := q\<rparr>"
  shows "sinv hf s' (as @ bs) ys (a # zs) I \<and> data (sh_heap s') = data (sh_heap s)"
proof -
  have Q: "queues_ok s (as @ a # bs) ys zs" and E: "entries_ok hf s I"
    using assms(1) by (auto simp: sinv_def)
  note D = queues_okD [OF Q]
  from fq.rem [OF D(1) assms(2)] have d: "dll hp q (as @ bs)"
    and l: "links_only (sh_heap s) hp (set (as @ a # bs))" by auto
  have "queues_ok s' (as @ bs) ys (a # zs)"
  proof (rule queues_okI)
    show "dll (sh_heap s') (sh_main s') ys"
      using links_only_dll [OF l D(2)] D(3) by (auto simp: s'_def)
    show "e_queue (ent (sh_heap s') b) = kSmall" if "b \<in> set (as @ bs)" for b
      using that links_only_ent(1) [OF l, of b] D(4) D(5) [of b] by (fastforce simp: s'_def)
    show "e_queue (ent (sh_heap s') b) = kMain" if "b \<in> set ys" for b
      using that links_only_ent(1) [OF l, of b] D(4) D(6) [of b] by (fastforce simp: s'_def)
  qed (use d D(3,4) links_only_facts(1) [OF l] in \<open>auto simp: s'_def\<close>)
  moreover have "entries_ok hf s' I" by (rule entries_ok_links [OF E, of s']) (use l in \<open>auto simp: s'_def\<close>)
  ultimately show ?thesis
    using assms(1) links_only_facts(3) [OF l] by (simp add: sinv_def s'_def ghost_ok_def)
qed

lemma detach_main:
  assumes "sinv hf s xs (as @ a # bs) zs I" and "remove (sh_heap s) (sh_main s) a = (hp, q)"
  defines "s' \<equiv> s\<lparr>sh_heap := hp, sh_main := q\<rparr>"
  shows "sinv hf s' xs (as @ bs) (a # zs) I \<and> data (sh_heap s') = data (sh_heap s)"
proof -
  have Q: "queues_ok s xs (as @ a # bs) zs" and E: "entries_ok hf s I"
    using assms(1) by (auto simp: sinv_def)
  note D = queues_okD [OF Q]
  from fq.rem [OF D(2) assms(2)] have d: "dll hp q (as @ bs)"
    and l: "links_only (sh_heap s) hp (set (as @ a # bs))" by auto
  have "queues_ok s' xs (as @ bs) (a # zs)"
  proof (rule queues_okI)
    show "dll (sh_heap s') (sh_small s') xs"
      using links_only_dll [OF l D(1)] D(3) by (auto simp: s'_def)
    show "e_queue (ent (sh_heap s') b) = kMain" if "b \<in> set (as @ bs)" for b
      using that links_only_ent(1) [OF l, of b] D(4) D(6) [of b] by (fastforce simp: s'_def)
    show "e_queue (ent (sh_heap s') b) = kSmall" if "b \<in> set xs" for b
      using that links_only_ent(1) [OF l, of b] D(4) D(5) [of b] by (fastforce simp: s'_def)
  qed (use d D(3,4) links_only_facts(1) [OF l] in \<open>auto simp: s'_def\<close>)
  moreover have "entries_ok hf s' I" by (rule entries_ok_links [OF E, of s']) (use l in \<open>auto simp: s'_def\<close>)
  ultimately show ?thesis
    using assms(1) links_only_facts(3) [OF l] by (simp add: sinv_def s'_def ghost_ok_def)
qed

lemma push_main_ok:
  assumes "sinv hf s xs ys (a # zs) I" and "e_queue (ent (sh_heap s) a) = kMain"
  shows "sinv hf (push_main s a) xs (a # ys) zs I \<and> data (sh_heap (push_main s a)) = data (sh_heap s) \<and>
    same_rest s (push_main s a) \<and> sh_index (push_main s a) = sh_index s"
proof -
  have Q: "queues_ok s xs ys (a # zs)" and E: "entries_ok hf s I"
    using assms(1) by (auto simp: sinv_def)
  note D = queues_okD [OF Q]
  obtain hp q where pq: "pushHead (sh_heap s) (sh_main s) a = (hp, q)" by (cases "pushHead (sh_heap s) (sh_main s) a")
  define s' where "s' = s\<lparr>sh_heap := hp, sh_main := q\<rparr>"
  have eq: "push_main s a = s'" by (simp add: push_main_def pq s'_def)
  have "a \<notin> set ys" "a \<in> dom (sh_heap s)" using D(3,4) by auto
  from fq.push [OF D(2) this pq] have d: "dll hp q (a # ys)"
    and l: "links_only (sh_heap s) hp (insert a (set ys))" by auto
  have "queues_ok s' xs (a # ys) zs"
  proof (rule queues_okI)
    show "dll (sh_heap s') (sh_small s') xs"
      using links_only_dll [OF l D(1)] D(3) by (auto simp: s'_def)
    show "e_queue (ent (sh_heap s') b) = kMain" if "b \<in> set (a # ys)" for b
      using that links_only_ent(1) [OF l, of b] D(4) D(6) [of b] assms(2) by (fastforce simp: s'_def)
    show "e_queue (ent (sh_heap s') b) = kSmall" if "b \<in> set xs" for b
      using that links_only_ent(1) [OF l, of b] D(4) D(5) [of b] by (fastforce simp: s'_def)
  qed (use d D(3,4) links_only_facts(1) [OF l] in \<open>auto simp: s'_def\<close>)
  moreover have "entries_ok hf s' I" by (rule entries_ok_links [OF E, of s']) (use l in \<open>auto simp: s'_def\<close>)
  ultimately show ?thesis
    using assms(1) links_only_facts(3) [OF l] eq by (simp add: sinv_def s'_def ghost_ok_def same_rest_def)
qed

lemma push_small_ok:
  assumes "sinv hf s xs ys (a # zs) I" and "e_queue (ent (sh_heap s) a) = kSmall"
  shows "sinv hf (push_small s a) (a # xs) ys zs I \<and> data (sh_heap (push_small s a)) = data (sh_heap s) \<and>
    same_rest s (push_small s a) \<and> sh_index (push_small s a) = sh_index s"
proof -
  have Q: "queues_ok s xs ys (a # zs)" and E: "entries_ok hf s I"
    using assms(1) by (auto simp: sinv_def)
  note D = queues_okD [OF Q]
  obtain hp q where pq: "pushHead (sh_heap s) (sh_small s) a = (hp, q)" by (cases "pushHead (sh_heap s) (sh_small s) a")
  define s' where "s' = s\<lparr>sh_heap := hp, sh_small := q\<rparr>"
  have eq: "push_small s a = s'" by (simp add: push_small_def pq s'_def)
  have "a \<notin> set xs" "a \<in> dom (sh_heap s)" using D(3,4) by auto
  from fq.push [OF D(1) this pq] have d: "dll hp q (a # xs)"
    and l: "links_only (sh_heap s) hp (insert a (set xs))" by auto
  have "queues_ok s' (a # xs) ys zs"
  proof (rule queues_okI)
    show "dll (sh_heap s') (sh_main s') ys"
      using links_only_dll [OF l D(2)] D(3) by (auto simp: s'_def)
    show "e_queue (ent (sh_heap s') b) = kSmall" if "b \<in> set (a # xs)" for b
      using that links_only_ent(1) [OF l, of b] D(4) D(5) [of b] assms(2) by (fastforce simp: s'_def)
    show "e_queue (ent (sh_heap s') b) = kMain" if "b \<in> set ys" for b
      using that links_only_ent(1) [OF l, of b] D(4) D(6) [of b] by (fastforce simp: s'_def)
  qed (use d D(3,4) links_only_facts(1) [OF l] in \<open>auto simp: s'_def\<close>)
  moreover have "entries_ok hf s' I" by (rule entries_ok_links [OF E, of s']) (use l in \<open>auto simp: s'_def\<close>)
  ultimately show ?thesis
    using assms(1) links_only_facts(3) [OF l] eq by (simp add: sinv_def s'_def ghost_ok_def same_rest_def)
qed

lemma set_ent_detached:
  assumes "sinv hf s xs ys (a # zs) I" and "\<And>e. core (f e) = core e"
    and "\<And>e. e_freq e \<le> kMaxFreq \<Longrightarrow> e_freq (f e) \<le> kMaxFreq"
  shows "sinv hf (set_ent s a f) xs ys (a # zs) I"
proof -
  let ?s = "set_ent s a f"
  have Q: "queues_ok s xs ys (a # zs)" and E: "entries_ok hf s I"
    using assms(1) by (auto simp: sinv_def)
  note D = queues_okD [OF Q]
  have other: "sh_heap ?s b = sh_heap s b" if "b \<noteq> a" for b using that by (simp add: set_ent_def)
  have nin: "a \<notin> set xs" "a \<notin> set ys" using D(3) by auto
  have "queues_ok ?s xs ys (a # zs)"
  proof (rule queues_okI)
    show "dll (sh_heap ?s) (sh_small ?s) xs"
      unfolding set_ent_def by (simp, rule dll_frame [OF D(1)]) (use nin in auto)
    show "dll (sh_heap ?s) (sh_main ?s) ys"
      unfolding set_ent_def by (simp, rule dll_frame [OF D(2)]) (use nin in auto)
    show "e_queue (ent (sh_heap ?s) b) = kSmall" if "b \<in> set xs" for b
      using that D(5) [of b] other [of b] nin by (cases "b = a") auto
    show "e_queue (ent (sh_heap ?s) b) = kMain" if "b \<in> set ys" for b
      using that D(6) [of b] other [of b] nin by (cases "b = a") auto
  qed (use D(3,4) in \<open>simp_all add: set_ent_def\<close>)
  moreover have "entries_ok hf ?s I"
  proof (rule entries_ok_cores [OF E])
    show "cores (sh_heap ?s) = cores (sh_heap s)"
      unfolding set_ent_def using cores_upd [of f, OF assms(2)] by simp
    show "e_freq (ent (sh_heap ?s) b) \<le> kMaxFreq" if "b \<in> dom (sh_heap s)" for b
    proof -
      have "e_freq (ent (sh_heap s) b) \<le> kMaxFreq" using E that by (simp add: entries_ok_def)
      then show ?thesis using that assms(3) by (auto simp: set_ent_def)
    qed
  qed (simp add: set_ent_def)
  ultimately show ?thesis using assms(1) by (simp add: sinv_def set_ent_def ghost_ok_def)
qed

lemma sinv_evictions [simp]:
  "sinv hf (s\<lparr>sh_evictions := n\<rparr>) xs ys zs I = sinv hf s xs ys zs I"
  "sinv hf (s\<lparr>sh_ghostHits := n\<rparr>) xs ys zs I = sinv hf s xs ys zs I"
  "sinv hf (s\<lparr>sh_pendingItems := n\<rparr>) xs ys zs I = sinv hf s xs ys zs I"
  "sinv hf (s\<lparr>sh_puts := n\<rparr>) xs ys zs I = sinv hf s xs ys zs I"
  "sinv hf (s\<lparr>sh_fills := n\<rparr>) xs ys zs I = sinv hf s xs ys zs I"
  "sinv hf (s\<lparr>sh_fillsDeferred := n\<rparr>) xs ys zs I = sinv hf s xs ys zs I"
  "sinv hf (s\<lparr>sh_seq := m\<rparr>) xs ys zs I = sinv hf s xs ys zs I"
  by (simp_all add: sinv_def queues_ok_def entries_ok_def ghost_ok_def)

lemma drop_ok:
  assumes "sinv hf s xs ys (a # zs) I" and "a \<in> I"
  shows "sinv hf (destroy (s\<lparr>sh_index := ix_erase (sh_index s) (ent_hash hf (ent (sh_heap s) a)) a\<rparr>) a)
      xs ys zs (I - {a})"
proof -
  let ?h = "ent_hash hf (ent (sh_heap s) a)"
  let ?s = "destroy (s\<lparr>sh_index := ix_erase (sh_index s) ?h a\<rparr>) a"
  have Q: "queues_ok s xs ys (a # zs)" and E: "entries_ok hf s I"
    using assms(1) by (auto simp: sinv_def)
  note D = queues_okD [OF Q]
  have hp: "sh_heap ?s = (sh_heap s)(a := None)" and ix: "sh_index ?s = ix_erase (sh_index s) ?h a"
    and rest: "sh_small ?s = sh_small s" "sh_main ?s = sh_main s" "sh_ghost ?s = sh_ghost s"
      "sh_ghostSet ?s = sh_ghostSet s" "sh_budget ?s = sh_budget s" "sh_smallBudget ?s = sh_smallBudget s"
    by (simp_all add: destroy_def)
  have fin: "finite I" and fi: "fi_inv (sh_index s)"
    and c: "fi_contents (sh_index s) = index_of hf (sh_heap s) I"
    and inj: "inj_on (\<lambda>a. ekey (ent (sh_heap s) a)) I"
    using E by (auto simp: entries_ok_def)
  have nin: "a \<notin> set xs" "a \<notin> set ys" using D(3) by auto
  have "queues_ok ?s xs ys zs"
  proof (rule queues_okI)
    show "dll (sh_heap ?s) (sh_small ?s) xs" unfolding hp rest by (rule dll_upd_outside [OF D(1) nin(1)])
    show "dll (sh_heap ?s) (sh_main ?s) ys" unfolding hp rest by (rule dll_upd_outside [OF D(2) nin(2)])
    show "e_queue (ent (sh_heap ?s) b) = kSmall" if "b \<in> set xs" for b
      using that D(5) [of b] nin unfolding hp by auto
    show "e_queue (ent (sh_heap ?s) b) = kMain" if "b \<in> set ys" for b
      using that D(6) [of b] nin unfolding hp by auto
  qed (use D(3,4) in \<open>auto simp: hp\<close>)
  moreover have "fi_inv (sh_index ?s) \<and> fi_contents (sh_index ?s) = index_of hf (sh_heap s) (I - {a})"
    unfolding ix index_of_remove [OF fin assms(2)] c [symmetric]
    by (rule fi.del [OF fi]) (use assms(2) in \<open>auto simp: c mem_index_of [OF fin]\<close>)
  moreover have "index_of hf (sh_heap s) (I - {a}) = index_of hf (sh_heap ?s) (I - {a})"
    unfolding index_of_def hp by (rule image_mset_cong) (use fin in auto)
  moreover have "inj_on (\<lambda>a. ekey (ent (sh_heap ?s) a)) (I - {a})"
    unfolding hp using inj by (auto simp: inj_on_def)
  moreover have "I - {a} \<subseteq> dom (sh_heap ?s)" using E unfolding hp entries_ok_def by auto
  moreover have "e_freq (ent (sh_heap ?s) b) \<le> kMaxFreq" if "b \<in> dom (sh_heap ?s)" for b
    using that E unfolding hp entries_ok_def by (auto split: if_splits)
  ultimately show ?thesis
    using assms(1) fin hp by (simp add: sinv_def entries_ok_def ghost_ok_def rest)
qed

lemma free_ok:
  assumes "sinv hf s xs ys (a # zs) I" and "a \<in> I"
  shows "sinv hf (sh_free hf s a) xs ys zs (I - {a}) \<and>
    sh_heap (sh_free hf s a) = (sh_heap s)(a := None)"
proof -
  let ?s = "destroy (s\<lparr>sh_index := ix_erase (sh_index s) (ent_hash hf (ent (sh_heap s) a)) a\<rparr>) a"
  define n where "n = sh_pendingItems (sh_free hf s a)"
  have "sh_free hf s a = ?s\<lparr>sh_pendingItems := n\<rparr>"
    by (simp add: n_def sh_free_def destroy_def Let_def)
  then show ?thesis using drop_ok [OF assms] by (simp add: destroy_def)
qed

lemma ghost_trim_ok:
  "distinct gs \<Longrightarrow> set gs = S \<Longrightarrow> ghost_trim cap gs S = (gs', S') \<Longrightarrow>
     distinct gs' \<and> set gs' = S' \<and> length gs' \<le> cap"
  by (induction cap gs S rule: ghost_trim.induct) (auto split: if_splits)

lemma ghostAdd_ok:
  "sinv hf s xs ys zs I \<Longrightarrow> sinv hf (ghostAdd s h) xs ys zs I"
  "sh_heap (ghostAdd s h) = sh_heap s" "sh_small (ghostAdd s h) = sh_small s"
  "sh_main (ghostAdd s h) = sh_main s" "sh_budget (ghostAdd s h) = sh_budget s"
  "sh_smallBudget (ghostAdd s h) = sh_smallBudget s" "sh_pendingItems (ghostAdd s h) = sh_pendingItems s"
  "sh_seq (ghostAdd s h) = sh_seq s"
proof -
  obtain gs S where g: "ghost_trim (max 1024 (f_count (sh_main s))) (sh_ghost s @ [h])
      (insert h (sh_ghostSet s)) = (gs, S)"
    by (cases "ghost_trim (max 1024 (f_count (sh_main s))) (sh_ghost s @ [h]) (insert h (sh_ghostSet s))")
  have eq: "ghostAdd s h = (if h \<in> sh_ghostSet s then s else s\<lparr>sh_ghost := gs, sh_ghostSet := S\<rparr>)"
    by (simp add: ghostAdd_def Let_def g)
  show "sinv hf (ghostAdd s h) xs ys zs I" if "sinv hf s xs ys zs I"
  proof -
    have "distinct gs \<and> set gs = S" if "h \<notin> sh_ghostSet s"
      using ghost_trim_ok [OF _ _ g] that \<open>sinv hf s xs ys zs I\<close> by (auto simp: sinv_def ghost_ok_def)
    then show ?thesis
      using that unfolding eq by (auto simp: sinv_def ghost_ok_def queues_ok_def entries_ok_def)
  qed
qed (auto simp: ghostAdd_def Let_def split: prod.splits)

lemma unlink_ok:
  assumes "sinv hf s xs ys zs I" and "a \<in> set xs \<union> set ys"
  shows "\<exists>xs' ys'. sinv hf (unlink s a) xs' ys' (a # zs) I \<and>
    data (sh_heap (unlink s a)) = data (sh_heap s) \<and> same_rest s (unlink s a) \<and>
    sh_index (unlink s a) = sh_index s"
proof -
  have Q: "queues_ok s xs ys zs" using assms(1) by (auto simp: sinv_def)
  note D = queues_okD [OF Q]
  show ?thesis
  proof (cases "a \<in> set xs")
    case True
    then obtain as bs where xs: "xs = as @ a # bs" by (meson split_list)
    obtain hp q where r: "remove (sh_heap s) (sh_small s) a = (hp, q)" by (cases "remove (sh_heap s) (sh_small s) a")
    have "unlink s a = s\<lparr>sh_heap := hp, sh_small := q\<rparr>" using D(5) [OF True] by (simp add: unlink_def r)
    then show ?thesis
      using detach_small [OF assms(1) [unfolded xs] r] by (auto simp: same_rest_def)
  next
    case False
    then have a: "a \<in> set ys" using assms(2) by auto
    then obtain as bs where ys: "ys = as @ a # bs" by (meson split_list)
    obtain hp q where r: "remove (sh_heap s) (sh_main s) a = (hp, q)" by (cases "remove (sh_heap s) (sh_main s) a")
    have "unlink s a = s\<lparr>sh_heap := hp, sh_main := q\<rparr>" using D(6) [OF a] by (simp add: unlink_def r)
    then show ?thesis
      using detach_main [OF assms(1) [unfolded ys] r] by (auto simp: same_rest_def)
  qed
qed

subsection \<open>Eviction steps\<close>

abbreviation pinned :: "Entry \<Rightarrow> bool" where
  "pinned e \<equiv> e_pending e > 0"

text \<open>
  One visit of the small queue promotes its tail to the head of main or frees it; one visit of
  main moves its tail to the head, one frequency lower, or frees it. Pinned entries are never
  freed. Nothing else about any entry changes.
\<close>

lemma strip_policy: "strip (e\<lparr>e_freq := f\<rparr>) = strip e\<lparr>e_freq := f\<rparr>"
  "strip (e\<lparr>e_queue := q\<rparr>) = strip e\<lparr>e_queue := q\<rparr>"
  by (cases e, simp add: strip_def)+

lemma data_upd: "hp a = Some e \<Longrightarrow> data (upd hp a f) = (data hp)(a \<mapsto> strip (f e))"
  by (rule ext) (simp add: data_def)

lemma data_remove: "data (hp(a := None)) = (data hp)(a := None)"
  by (rule ext) (simp add: data_def)

lemma free_rest:
  "sh_budget (sh_free hf s a) = sh_budget s" "sh_smallBudget (sh_free hf s a) = sh_smallBudget s"
  "sh_seq (sh_free hf s a) = sh_seq s"
  "sh_pendingItems (sh_free hf s a) =
     (if pinned (ent (sh_heap s) a) then sh_pendingItems s - 1 else sh_pendingItems s)"
  by (simp_all add: sh_free_def destroy_def Let_def)

lemma evictSmall_ok:
  assumes "sinv hf s (xs @ [a]) ys [] (dom (sh_heap s))"
  defines "e \<equiv> ent (sh_heap s) a" and "s' \<equiv> evictSmall hf s"
  shows "if pinned e \<or> e_freq e > 1
    then sinv hf s' xs (a # ys) [] (dom (sh_heap s')) \<and>
      data (sh_heap s') = (data (sh_heap s))(a \<mapsto> strip e\<lparr>e_freq := 0, e_queue := kMain\<rparr>) \<and>
      same_rest s s'
    else sinv hf s' xs ys [] (dom (sh_heap s')) \<and> data (sh_heap s') = (data (sh_heap s))(a := None) \<and>
      sh_budget s' = sh_budget s \<and> sh_smallBudget s' = sh_smallBudget s \<and>
      sh_pendingItems s' = sh_pendingItems s \<and> sh_seq s' = sh_seq s"
proof -
  have Q: "queues_ok s (xs @ [a]) ys []" using assms(1) by (auto simp: sinv_def)
  note D = queues_okD [OF Q]
  obtain hp q where r: "remove (sh_heap s) (sh_small s) a = (hp, q)" by (cases "remove (sh_heap s) (sh_small s) a")
  have pop: "popTail (sh_heap s) (sh_small s) = (Some a, hp, q)"
    using D(1) r by (simp add: popTail_def dll_def)
  define s1 where "s1 = s\<lparr>sh_heap := hp, sh_small := q\<rparr>"
  have s1: "sinv hf s1 xs ys [a] (dom (sh_heap s))" and d1: "data hp = data (sh_heap s)"
    using detach_small [of hf s xs a "[]" ys "[]" "dom (sh_heap s)" hp q] assms(1) r by (simp_all add: s1_def)
  have a: "a \<in> dom (sh_heap s)" using D(4) by simp
  have st: "strip (ent hp a) = strip e" using data_eq_ent [OF d1 [symmetric] a] by (simp add: e_def)
  note F = strip_eqD [OF st]
  have dom1: "dom hp = dom (sh_heap s)" using data_eq_dom [OF d1] .
  then obtain e1 where e1: "hp a = Some e1" using a by auto
  then have st1: "strip e1 = strip e" using st by simp
  show ?thesis
  proof (cases "pinned e \<or> e_freq e > 1")
    case True
    let ?f = "\<lambda>e. e\<lparr>e_freq := 0, e_queue := kMain\<rparr>"
    define s2 where "s2 = set_ent s1 a ?f"
    have s': "s' = push_main s2 a"
      unfolding s'_def evictSmall_def pop using True F by (simp add: Let_def s1_def [symmetric] s2_def)
    have hp2: "sh_heap s2 = upd hp a ?f" by (simp add: s2_def set_ent_def s1_def)
    have "sinv hf s2 xs ys [a] (dom (sh_heap s))"
      unfolding s2_def by (rule set_ent_detached [OF s1]) simp_all
    moreover have "e_queue (ent (sh_heap s2) a) = kMain" by (simp add: hp2 e1)
    ultimately have P: "sinv hf s' xs (a # ys) [] (dom (sh_heap s)) \<and> data (sh_heap s') = data (sh_heap s2) \<and>
        same_rest s2 s'"
      using push_main_ok s' by blast
    have "strip (?f e1) = strip e\<lparr>e_freq := 0, e_queue := kMain\<rparr>"
      using st1 by (simp add: strip_policy)
    then have "data (sh_heap s2) = (data (sh_heap s))(a \<mapsto> strip e\<lparr>e_freq := 0, e_queue := kMain\<rparr>)"
      unfolding hp2 data_upd [of hp a e1 ?f, OF e1] d1 by simp
    moreover have "dom (sh_heap s') = dom (sh_heap s)"
      using P data_eq_dom [of "sh_heap s'" "sh_heap s2"] dom1 by (simp add: hp2)
    ultimately show ?thesis
      using True P by (simp add: same_rest_def s2_def set_ent_def s1_def)
  next
    case False
    define s2 where "s2 = ghostAdd s1 (ent_hash hf (ent hp a))"
    define s3 where "s3 = s2\<lparr>sh_evictions := sh_evictions s2 + 1\<rparr>"
    have s': "s' = sh_free hf s3 a"
      unfolding s'_def evictSmall_def pop using False F
      by (simp add: Let_def s1_def s2_def s3_def)
    have s3: "sinv hf s3 xs ys [a] (dom (sh_heap s))" using ghostAdd_ok(1) [OF s1] by (simp add: s3_def s2_def)
    have hp3: "sh_heap s3 = hp" by (simp add: s3_def s2_def ghostAdd_ok s1_def)
    note R = free_ok [OF s3 a, folded s']
    have "dom (sh_heap s') = dom (sh_heap s) - {a}" using R hp3 dom1 by simp
    moreover have "data (sh_heap s') = (data (sh_heap s))(a := None)"
      using R hp3 d1 by (simp add: data_remove)
    moreover have "sh_budget s' = sh_budget s \<and> sh_smallBudget s' = sh_smallBudget s \<and>
        sh_pendingItems s' = sh_pendingItems s \<and> sh_seq s' = sh_seq s"
      using False F(3) unfolding s' free_rest hp3
      by (simp add: s3_def s2_def ghostAdd_ok s1_def)
    ultimately show ?thesis using False R by simp
  qed
qed

lemma evictMain_ok:
  assumes "sinv hf s xs (ys @ [a]) [] (dom (sh_heap s))"
  defines "e \<equiv> ent (sh_heap s) a" and "s' \<equiv> evictMain hf s"
  shows "if pinned e \<or> e_freq e > 0
    then sinv hf s' xs (a # ys) [] (dom (sh_heap s')) \<and>
      data (sh_heap s') = (data (sh_heap s))(a \<mapsto> strip e\<lparr>e_freq := e_freq e - 1\<rparr>) \<and>
      same_rest s s'
    else sinv hf s' xs ys [] (dom (sh_heap s')) \<and> data (sh_heap s') = (data (sh_heap s))(a := None) \<and>
      sh_budget s' = sh_budget s \<and> sh_smallBudget s' = sh_smallBudget s \<and>
      sh_pendingItems s' = sh_pendingItems s \<and> sh_seq s' = sh_seq s"
proof -
  have Q: "queues_ok s xs (ys @ [a]) []" using assms(1) by (auto simp: sinv_def)
  note D = queues_okD [OF Q]
  obtain hp q where r: "remove (sh_heap s) (sh_main s) a = (hp, q)" by (cases "remove (sh_heap s) (sh_main s) a")
  have pop: "popTail (sh_heap s) (sh_main s) = (Some a, hp, q)"
    using D(2) r by (simp add: popTail_def dll_def)
  define s1 where "s1 = s\<lparr>sh_heap := hp, sh_main := q\<rparr>"
  have s1: "sinv hf s1 xs ys [a] (dom (sh_heap s))" and d1: "data hp = data (sh_heap s)"
    using detach_main [of hf s xs ys a "[]" "[]" "dom (sh_heap s)" hp q] assms(1) r by (simp_all add: s1_def)
  have a: "a \<in> dom (sh_heap s)" using D(4) by simp
  have st: "strip (ent hp a) = strip e" using data_eq_ent [OF d1 [symmetric] a] by (simp add: e_def)
  note F = strip_eqD [OF st]
  have dom1: "dom hp = dom (sh_heap s)" using data_eq_dom [OF d1] .
  then obtain e1 where e1: "hp a = Some e1" using a by auto
  then have st1: "strip e1 = strip e" using st by simp
  show ?thesis
  proof (cases "pinned e \<or> e_freq e > 0")
    case True
    let ?f = "\<lambda>x. x\<lparr>e_freq := e_freq e - 1\<rparr>"
    define s2 where "s2 = (if e_freq e > 0 then set_ent s1 a ?f else s1)"
    have s': "s' = push_main s2 a"
      unfolding s'_def evictMain_def pop using True F by (simp add: Let_def s1_def [symmetric] s2_def)
    have fr: "e_freq e \<le> kMaxFreq" using assms(1) a unfolding e_def sinv_def entries_ok_def by blast
    have "sinv hf (set_ent s1 a ?f) xs ys [a] (dom (sh_heap s))"
      by (rule set_ent_detached [OF s1]) (use fr in simp_all)
    then have i2: "sinv hf s2 xs ys [a] (dom (sh_heap s))" using s1 by (simp add: s2_def)
    have "e_queue e1 = kMain" using D(6) [of a] strip_eqD(1) [OF st1] by (simp add: e_def)
    then have "e_queue (ent (sh_heap s2) a) = kMain" by (simp add: s2_def set_ent_def s1_def e1)
    with i2 have P: "sinv hf s' xs (a # ys) [] (dom (sh_heap s)) \<and> data (sh_heap s') = data (sh_heap s2) \<and>
        same_rest s2 s'"
      using push_main_ok s' by blast
    have st2: "strip (?f e1) = strip e\<lparr>e_freq := e_freq e - 1\<rparr>"
      using st1 by (simp add: strip_policy)
    have "data (sh_heap s2) = (data (sh_heap s))(a \<mapsto> strip e\<lparr>e_freq := e_freq e - 1\<rparr>)"
    proof (cases "e_freq e > 0")
      case True
      then have "sh_heap s2 = upd hp a ?f" by (simp add: s2_def set_ent_def s1_def)
      then show ?thesis using data_upd [of hp a e1 ?f, OF e1] st2 d1 by simp
    next
      case False
      then have "data (sh_heap s2) = data (sh_heap s)" by (simp add: s2_def s1_def d1)
      moreover have "data (sh_heap s) a = Some (strip e)" using a by (auto simp: data_def e_def)
      ultimately show ?thesis using False by (simp add: fun_eq_iff strip_def)
    qed
    moreover have "dom (sh_heap s') = dom (sh_heap s)"
      using P data_eq_dom [of "sh_heap s'" "sh_heap s2"] dom1 by (simp add: s2_def set_ent_def s1_def)
    ultimately show ?thesis
      using True P by (simp add: same_rest_def s2_def set_ent_def s1_def)
  next
    case False
    define s3 where "s3 = s1\<lparr>sh_evictions := sh_evictions s1 + 1\<rparr>"
    have s': "s' = sh_free hf s3 a"
      unfolding s'_def evictMain_def pop using False F
      by (simp add: Let_def s1_def s3_def)
    have s3: "sinv hf s3 xs ys [a] (dom (sh_heap s))" using s1 by (simp add: s3_def)
    have hp3: "sh_heap s3 = hp" by (simp add: s3_def s1_def)
    note R = free_ok [OF s3 a, folded s']
    have "dom (sh_heap s') = dom (sh_heap s) - {a}" using R hp3 dom1 by simp
    moreover have "data (sh_heap s') = (data (sh_heap s))(a := None)"
      using R hp3 d1 by (simp add: data_remove)
    moreover have "sh_budget s' = sh_budget s \<and> sh_smallBudget s' = sh_smallBudget s \<and>
        sh_pendingItems s' = sh_pendingItems s \<and> sh_seq s' = sh_seq s"
      using False F(3) unfolding s' free_rest hp3 by (simp add: s3_def s1_def)
    ultimately show ?thesis using False R by simp
  qed
qed

subsection \<open>What eviction preserves\<close>

text \<open>Entries are only removed, never a pinned one, and those that stay keep their contents.\<close>

definition evicts :: "heap \<Rightarrow> heap \<Rightarrow> bool" where
  "evicts hp hp' \<longleftrightarrow> cores hp' \<subseteq>\<^sub>m cores hp \<and> (\<forall>a e. hp a = Some e \<longrightarrow> pinned e \<longrightarrow> a \<in> dom hp')"

lemma evicts_refl [simp]: "evicts hp hp"
  by (auto simp: evicts_def)

lemma evicts_trans:
  assumes "evicts hp1 hp2" and "evicts hp2 hp3"
  shows "evicts hp1 hp3"
  unfolding evicts_def
proof (intro conjI allI impI)
  show "cores hp3 \<subseteq>\<^sub>m cores hp1" using assms by (auto simp: evicts_def intro: map_le_trans)
  fix a e assume e: "hp1 a = Some e" "pinned e"
  then obtain e2 where e2: "hp2 a = Some e2" using assms(1) by (auto simp: evicts_def)
  have "cores hp2 a = cores hp1 a"
    using assms(1) e2 by (auto simp: evicts_def map_le_def cores_def dom_def)
  then have "core e2 = core e" using e(1) e2 by (simp add: cores_def)
  then have "pinned e2" using e(2) core_eqD(4) by metis
  then show "a \<in> dom hp3" using assms(2) e2 by (auto simp: evicts_def)
qed

definition core_of_data :: "Entry option \<Rightarrow> Entry option" where
  "core_of_data x = map_option core x"

lemma cores_data: "cores hp a = core_of_data (data hp a)"
  by (simp add: cores_def data_def core_of_data_def option.map_comp comp_def)

lemma evicts_update:
  assumes "data hp' = (data hp)(a \<mapsto> x)" and "hp a = Some e" and "core x = core e"
  shows "evicts hp hp'"
proof -
  have "cores hp' = cores hp"
    using assms by (intro ext) (simp add: cores_data core_of_data_def data_def)
  then show ?thesis using cores_dom [of hp' hp] by (auto simp: evicts_def)
qed

lemma evicts_remove:
  assumes "data hp' = (data hp)(a := None)" and "hp a = Some e" and "\<not> pinned e"
  shows "evicts hp hp'"
proof -
  have c: "cores hp' = (cores hp)(a := None)"
    using assms by (intro ext) (simp add: cores_data core_of_data_def data_def)
  have "dom hp' = dom (cores hp')" by (auto simp: cores_def)
  then have "dom hp' = dom hp - {a}" unfolding c by (auto simp: cores_def)
  then show ?thesis using assms(2,3) c by (auto simp: evicts_def map_le_def)
qed

definition all_bytes :: "heap \<Rightarrow> nat" where
  "all_bytes hp = (\<Sum>a\<in>dom hp. charge (ent hp a))"

definition pinned_bytes :: "heap \<Rightarrow> nat" where
  "pinned_bytes hp = (\<Sum>a\<in>dom hp. if pinned (ent hp a) then charge (ent hp a) else 0)"

lemma evicts_ent:
  assumes "evicts hp hp'" and "a \<in> dom hp'"
  shows "a \<in> dom hp" "core (ent hp' a) = core (ent hp a)"
proof -
  have "cores hp a = cores hp' a" using assms by (auto simp: evicts_def map_le_def cores_def dom_def)
  then show "a \<in> dom hp" "core (ent hp' a) = core (ent hp a)"
    using assms(2) by (auto simp: cores_def)
qed

lemma evicts_bytes:
  assumes "evicts hp hp'" and "finite (dom hp)"
  shows "all_bytes hp' \<le> all_bytes hp" "pinned_bytes hp' = pinned_bytes hp" "finite (dom hp')"
proof -
  have sub: "dom hp' \<subseteq> dom hp" using evicts_ent(1) [OF assms(1)] by blast
  show "finite (dom hp')" using sub assms(2) finite_subset by blast
  have ch: "charge (ent hp' a) = charge (ent hp a)" "e_pending (ent hp' a) = e_pending (ent hp a)"
    if "a \<in> dom hp'" for a
    using core_eqD(4,10) [OF evicts_ent(2) [OF assms(1) that]] by auto
  have "all_bytes hp' = (\<Sum>a\<in>dom hp'. charge (ent hp a))"
    unfolding all_bytes_def by (rule sum.cong) (simp_all add: ch)
  also have "\<dots> \<le> all_bytes hp" unfolding all_bytes_def by (rule sum_mono2) (use assms(2) sub in auto)
  finally show "all_bytes hp' \<le> all_bytes hp" .
  have "pinned_bytes hp' = (\<Sum>a\<in>dom hp'. if pinned (ent hp a) then charge (ent hp a) else 0)"
    unfolding pinned_bytes_def by (rule sum.cong) (simp_all add: ch)
  also have "\<dots> = pinned_bytes hp"
    unfolding pinned_bytes_def
  proof (rule sum.mono_neutral_left [OF assms(2) sub], rule ballI)
    fix a assume "a \<in> dom hp - dom hp'"
    then have "\<not> pinned (ent hp a)" using assms(1) unfolding evicts_def by fastforce
    then show "(if pinned (ent hp a) then charge (ent hp a) else 0) = 0" by simp
  qed
  finally show "pinned_bytes hp' = pinned_bytes hp" .
qed

lemma bytes_of_sum: "distinct as \<Longrightarrow> bytes_of hp as = (\<Sum>a\<in>set as. charge (ent hp a))"
  by (simp add: bytes_of_def sum_list_distinct_conv_sum_set)

lemma sinv_bytes:
  assumes "sinv hf s xs ys [] (dom (sh_heap s))"
  shows "sh_bytes s = all_bytes (sh_heap s)" "finite (dom (sh_heap s))"
    "f_bytes (sh_small s) = bytes_of (sh_heap s) xs" "f_bytes (sh_main s) = bytes_of (sh_heap s) ys"
    "f_tail (sh_small s) = None \<longleftrightarrow> xs = []" "f_tail (sh_main s) = None \<longleftrightarrow> ys = []"
    "f_count (sh_small s) = length xs" "f_count (sh_main s) = length ys"
proof -
  have Q: "queues_ok s xs ys []" using assms by (simp add: sinv_def)
  note D = queues_okD [OF Q]
  show b: "f_bytes (sh_small s) = bytes_of (sh_heap s) xs" "f_bytes (sh_main s) = bytes_of (sh_heap s) ys"
    and "f_tail (sh_small s) = None \<longleftrightarrow> xs = []" "f_tail (sh_main s) = None \<longleftrightarrow> ys = []"
    "f_count (sh_small s) = length xs" "f_count (sh_main s) = length ys"
    using D(1,2) by (auto simp: dll_def last_or_def)
  have "sh_bytes s = bytes_of (sh_heap s) (xs @ ys)" by (simp add: sh_bytes_def b)
  then show "sh_bytes s = all_bytes (sh_heap s)"
    using D(3,4) by (simp add: bytes_of_sum all_bytes_def del: bytes_of_simps(3))
  show "finite (dom (sh_heap s))" using D(4) by simp
qed

lemma evictSmall_evicts:
  assumes "sinv hf s (xs @ [a]) ys [] (dom (sh_heap s))"
  shows "evicts (sh_heap s) (sh_heap (evictSmall hf s))"
proof -
  have "a \<in> dom (sh_heap s)" using assms by (simp add: sinv_def queues_ok_def)
  then obtain e where e: "sh_heap s a = Some e" by auto
  have c: "core (strip e\<lparr>e_freq := 0, e_queue := kMain\<rparr>) = core e" by simp
  show ?thesis
    using evictSmall_ok [OF assms] evicts_update [of "sh_heap (evictSmall hf s)" "sh_heap s" a _ e]
      evicts_remove [of "sh_heap (evictSmall hf s)" "sh_heap s" a e] e c by (auto split: if_splits)
qed

lemma evictMain_evicts:
  assumes "sinv hf s xs (ys @ [a]) [] (dom (sh_heap s))"
  shows "evicts (sh_heap s) (sh_heap (evictMain hf s))"
proof -
  have "a \<in> dom (sh_heap s)" using assms by (simp add: sinv_def queues_ok_def)
  then obtain e where e: "sh_heap s a = Some e" by auto
  have c: "core (strip e\<lparr>e_freq := e_freq e - 1\<rparr>) = core e" by simp
  show ?thesis
    using evictMain_ok [OF assms] evicts_update [of "sh_heap (evictMain hf s)" "sh_heap s" a _ e]
      evicts_remove [of "sh_heap (evictMain hf s)" "sh_heap s" a e] e c by (auto split: if_splits)
qed

text \<open>What holds across any number of eviction steps.\<close>

definition trimmed :: "hashfn \<Rightarrow> 'm Shard \<Rightarrow> 'm Shard \<Rightarrow> bool" where
  "trimmed hf s s' \<longleftrightarrow> (\<exists>xs ys. sinv hf s' xs ys [] (dom (sh_heap s'))) \<and>
     evicts (sh_heap s) (sh_heap s') \<and> sh_budget s' = sh_budget s \<and>
     sh_smallBudget s' = sh_smallBudget s \<and> sh_pendingItems s' = sh_pendingItems s \<and>
     sh_seq s' = sh_seq s"

lemma trimmed_trans: "trimmed hf s1 s2 \<Longrightarrow> trimmed hf s2 s3 \<Longrightarrow> trimmed hf s1 s3"
  by (auto simp: trimmed_def intro: evicts_trans)

lemma trimmed_small:
  assumes "sinv hf s xs ys [] (dom (sh_heap s))" and "xs \<noteq> []"
  shows "trimmed hf s (evictSmall hf s)"
proof -
  obtain xs' a where xs: "xs = xs' @ [a]" using assms(2) by (meson rev_exhaust)
  note S = assms(1) [unfolded xs]
  show ?thesis
    using evictSmall_ok [OF S] evictSmall_evicts [OF S]
    by (auto simp: trimmed_def same_rest_def split: if_splits)
qed

lemma trimmed_main:
  assumes "sinv hf s xs ys [] (dom (sh_heap s))" and "ys \<noteq> []"
  shows "trimmed hf s (evictMain hf s)"
proof -
  obtain ys' a where ys: "ys = ys' @ [a]" using assms(2) by (meson rev_exhaust)
  note S = assms(1) [unfolded ys]
  show ?thesis
    using evictMain_ok [OF S] evictMain_evicts [OF S]
    by (auto simp: trimmed_def same_rest_def split: if_splits)
qed

lemma trimmed_loop:
  "sinv hf s xs ys [] (dom (sh_heap s)) \<Longrightarrow> trimmed hf s (evict_loop g hf s)"
proof (induction g arbitrary: s xs ys)
  case 0
  then show ?case by (auto simp: trimmed_def)
next
  case (Suc g)
  have again: "trimmed hf s (evict_loop g hf s')" if "trimmed hf s s'" for s'
    using Suc.IH [of s'] that trimmed_trans unfolding trimmed_def by blast
  have "trimmed hf s s" using Suc.prems by (auto simp: trimmed_def)
  then show ?case
    using again trimmed_small [OF Suc.prems] trimmed_main [OF Suc.prems] sinv_bytes(5,6) [OF Suc.prems]
    by auto
qed

subsection \<open>The eviction guard is enough\<close>

text \<open>
  Visits an entry of main still needs before it is freed (none if it is pinned: it never is).
  The main queue is split into the part \<open>fr\<close> at its tail that the current pass has still to
  visit and the part \<open>bk\<close> behind it. With \<open>needs ys \<le> k + 1\<close> on \<open>fr\<close> and \<open>\<le> k\<close> on \<open>bk\<close>,
  \<open>length fr + k * length ys\<close> visits clear main of unpinned entries; a small entry costs one
  visit and, if promoted, three more.
\<close>

definition need :: "heap \<Rightarrow> addr \<Rightarrow> nat" where
  "need hp a = (if pinned (ent hp a) then 0 else e_freq (ent hp a) + 1)"

definition bounded :: "'m Shard \<Rightarrow> bool" where
  "bounded s \<longleftrightarrow> sh_bytes s \<le> sh_budget s + pinned_bytes (sh_heap s)"

lemma bounded_trimmed:
  assumes "sinv hf s xs ys [] (dom (sh_heap s))" and "trimmed hf s s'" and "bounded s"
  shows "bounded s'"
proof -
  obtain xs' ys' where i': "sinv hf s' xs' ys' [] (dom (sh_heap s'))"
    using assms(2) by (auto simp: trimmed_def)
  have ev: "evicts (sh_heap s) (sh_heap s')" and "sh_budget s' = sh_budget s"
    using assms(2) by (auto simp: trimmed_def)
  then show ?thesis
    using assms(3) evicts_bytes [OF ev sinv_bytes(2) [OF assms(1)]]
    unfolding bounded_def sinv_bytes(1) [OF assms(1)] sinv_bytes(1) [OF i'] by simp
qed

lemma bounded_all_pinned:
  assumes "sinv hf s xs ys [] (dom (sh_heap s))" and "f_bytes (sh_small s) \<le> sh_smallBudget s"
    and "\<And>a. a \<in> set ys \<Longrightarrow> need (sh_heap s) a = 0"
  shows "bounded s"
proof -
  let ?p = "\<lambda>a. if pinned (ent (sh_heap s) a) then charge (ent (sh_heap s) a) else 0"
  have Q: "queues_ok s xs ys []" using assms(1) by (simp add: sinv_def)
  note D = queues_okD [OF Q]
  have pin: "pinned (ent (sh_heap s) a)" if "a \<in> set ys" for a
    using assms(3) [OF that] by (simp add: need_def split: if_splits)
  have "f_bytes (sh_main s) = (\<Sum>a\<in>set ys. charge (ent (sh_heap s) a))"
    using sinv_bytes(4) [OF assms(1)] D(3) by (simp add: bytes_of_sum)
  also have "\<dots> = (\<Sum>a\<in>set ys. ?p a)" by (rule sum.cong) (simp_all add: pin)
  also have "\<dots> \<le> pinned_bytes (sh_heap s)"
    unfolding pinned_bytes_def by (rule sum_mono2) (use D(4) in auto)
  finally have "f_bytes (sh_main s) \<le> pinned_bytes (sh_heap s)" .
  moreover have "sh_smallBudget s \<le> sh_budget s" using assms(1) by (simp add: sinv_def)
  ultimately show ?thesis using assms(2) by (simp add: bounded_def sh_bytes_def)
qed

lemma need_other: "data hp' b = data hp b \<Longrightarrow> b \<in> dom hp \<Longrightarrow> need hp' b = need hp b"
proof -
  assume d: "data hp' b = data hp b" and "b \<in> dom hp"
  then have "strip (ent hp' b) = strip (ent hp b)" by (cases "hp' b") (auto simp: data_def)
  from strip_eqD(2,3) [OF this] show ?thesis by (simp add: need_def)
qed

lemma need_data: "data hp b = Some e \<Longrightarrow> need hp b = (if pinned e then 0 else e_freq e + 1)"
  by (auto simp: data_def need_def)

text \<open>One visit of either queue lowers the number of visits left.\<close>

lemma visit_small:
  assumes "sinv hf s (xs @ [a]) (bk @ fr) [] (dom (sh_heap s))"
    and "\<And>b. b \<in> set fr \<Longrightarrow> need (sh_heap s) b \<le> k + 1"
    and "\<And>b. b \<in> set bk \<Longrightarrow> need (sh_heap s) b \<le> k" and "1 \<le> k" and "k \<le> 3"
  obtains bk' where "sinv hf (evictSmall hf s) xs (bk' @ fr) [] (dom (sh_heap (evictSmall hf s)))"
    and "\<And>b. b \<in> set fr \<Longrightarrow> need (sh_heap (evictSmall hf s)) b \<le> k + 1"
    and "\<And>b. b \<in> set bk' \<Longrightarrow> need (sh_heap (evictSmall hf s)) b \<le> k"
    and "4 * length xs + length fr + k * length (bk' @ fr)
      < 4 * length (xs @ [a]) + length fr + k * length (bk @ fr)"
proof -
  let ?s' = "evictSmall hf s" and ?e = "ent (sh_heap s) a"
  have D: "distinct (xs @ [a] @ bk @ fr)" "dom (sh_heap s) = set (xs @ [a] @ bk @ fr)"
    using assms(1) by (auto simp: sinv_def queues_ok_def)
  note E = evictSmall_ok [OF assms(1)]
  have same: "need (sh_heap ?s') b = need (sh_heap s) b" if "b \<in> set (bk @ fr)" for b
    by (rule need_other) (use that D E in \<open>auto split: if_splits\<close>)
  show thesis
  proof (cases "pinned ?e \<or> e_freq ?e > 1")
    case True
    then have d: "data (sh_heap ?s') a = Some (strip ?e\<lparr>e_freq := 0, e_queue := kMain\<rparr>)"
      and i: "sinv hf ?s' xs (a # bk @ fr) [] (dom (sh_heap ?s'))" using E by auto
    have "need (sh_heap ?s') a \<le> k" using need_data [OF d] assms(4) by simp
    then show thesis
      by (intro that [of "a # bk"]) (use i same assms(2-5) in auto)
  next
    case False
    then have "sinv hf ?s' xs (bk @ fr) [] (dom (sh_heap ?s'))" using E by auto
    then show thesis
      by (intro that [of bk]) (use same assms(2-5) in auto)
  qed
qed

lemma visit_main:
  assumes "sinv hf s xs (bk @ fr @ [a]) [] (dom (sh_heap s))"
    and "\<And>b. b \<in> set (fr @ [a]) \<Longrightarrow> need (sh_heap s) b \<le> k + 1"
    and "\<And>b. b \<in> set bk \<Longrightarrow> need (sh_heap s) b \<le> k"
  obtains bk' where "sinv hf (evictMain hf s) xs (bk' @ fr) [] (dom (sh_heap (evictMain hf s)))"
    and "\<And>b. b \<in> set fr \<Longrightarrow> need (sh_heap (evictMain hf s)) b \<le> k + 1"
    and "\<And>b. b \<in> set bk' \<Longrightarrow> need (sh_heap (evictMain hf s)) b \<le> k"
    and "length fr + k * length (bk' @ fr) < length (fr @ [a]) + k * length (bk @ fr @ [a])"
proof -
  let ?s' = "evictMain hf s" and ?e = "ent (sh_heap s) a"
  have i0: "sinv hf s xs ((bk @ fr) @ [a]) [] (dom (sh_heap s))" using assms(1) by simp
  have D: "distinct (xs @ bk @ fr @ [a])" "dom (sh_heap s) = set (xs @ bk @ fr @ [a])"
    using assms(1) by (auto simp: sinv_def queues_ok_def)
  note E = evictMain_ok [OF i0]
  have same: "need (sh_heap ?s') b = need (sh_heap s) b" if "b \<in> set (bk @ fr)" for b
    by (rule need_other) (use that D E in \<open>auto split: if_splits\<close>)
  have na: "need (sh_heap s) a \<le> k + 1" using assms(2) by simp
  show thesis
  proof (cases "pinned ?e \<or> e_freq ?e > 0")
    case True
    then have d: "data (sh_heap ?s') a = Some (strip ?e\<lparr>e_freq := e_freq ?e - 1\<rparr>)"
      and i: "sinv hf ?s' xs (a # bk @ fr) [] (dom (sh_heap ?s'))" using E by auto
    have "need (sh_heap ?s') a \<le> k" using need_data [OF d] na True by (auto simp: need_def)
    then show thesis
      by (intro that [of "a # bk"]) (use i same assms(2,3) in auto)
  next
    case False
    then have "sinv hf ?s' xs (bk @ fr) [] (dom (sh_heap ?s'))" using E by auto
    then show thesis
      by (intro that [of bk]) (use same assms(2,3) in auto)
  qed
qed

text \<open>At the end of a pass the next one starts over the whole queue.\<close>

lemma pass_split:
  assumes "bk @ fr \<noteq> []" and "\<And>b. b \<in> set fr \<Longrightarrow> need hp b \<le> k + 1"
    and "\<And>b. b \<in> set bk \<Longrightarrow> need hp b \<le> k"
  shows "(\<exists>k1 b1 f1 a. bk @ fr = b1 @ f1 @ [a] \<and> k1 \<le> k \<and>
      (\<forall>b\<in>set (f1 @ [a]). need hp b \<le> k1 + 1) \<and> (\<forall>b\<in>set b1. need hp b \<le> k1) \<and>
      length (f1 @ [a]) + k1 * length (bk @ fr) \<le> length fr + k * length (bk @ fr)) \<or>
    (\<forall>b\<in>set (bk @ fr). need hp b = 0)"
proof (cases fr rule: rev_cases)
  case (snoc f1 a)
  then show ?thesis
    using assms by (intro disjI1 exI [of _ k] exI [of _ bk] exI [of _ f1] exI [of _ a]) auto
next
  case Nil
  then obtain f1 a where bk: "bk = f1 @ [a]" using assms(1) by (metis append_Nil2 rev_exhaust)
  show ?thesis
  proof (cases k)
    case 0
    then show ?thesis using assms(3) Nil by simp
  next
    case (Suc k1)
    then show ?thesis
      using assms bk Nil
      by (intro disjI1 exI [of _ k1] exI [of _ "[]"] exI [of _ f1] exI [of _ a]) auto
  qed
qed

lemma evict_loop_bounded:
  assumes "sinv hf s xs (bk @ fr) [] (dom (sh_heap s))"
    and "\<And>b. b \<in> set fr \<Longrightarrow> need (sh_heap s) b \<le> k + 1"
    and "\<And>b. b \<in> set bk \<Longrightarrow> need (sh_heap s) b \<le> k"
    and "k \<le> 3" and "k = 3 \<or> f_bytes (sh_small s) \<le> sh_smallBudget s"
    and "4 * length xs + length fr + k * length (bk @ fr) \<le> g"
  shows "bounded (evict_loop g hf s)"
  using assms
proof (induction g arbitrary: s xs bk fr k)
  case 0
  then have "xs = []" "fr = []" "k = 0 \<or> bk = []" by auto
  then have "need (sh_heap s) a = 0" if "a \<in> set (bk @ fr)" for a using that "0.prems"(3) by auto
  then have "bounded s"
    using bounded_all_pinned [OF "0.prems"(1)] sinv_bytes(3) [OF "0.prems"(1)] \<open>xs = []\<close> by simp
  then show ?case by simp
next
  case (Suc g)
  note B = sinv_bytes [OF Suc.prems(1)]
  have sb: "sh_smallBudget s \<le> sh_budget s" using Suc.prems(1) by (simp add: sinv_def)
  have stop: "bounded (evict_loop (Suc g) hf s)" if "bounded s"
    by (rule bounded_trimmed [OF Suc.prems(1) trimmed_loop [OF Suc.prems(1)] that])
  consider (fits) "sh_bytes s \<le> sh_budget s"
    | (small) xs' a where "xs = xs' @ [a]" "sh_bytes s > sh_budget s"
        "f_bytes (sh_small s) > sh_smallBudget s"
    | (main) "bk @ fr \<noteq> []" "sh_bytes s > sh_budget s" "f_bytes (sh_small s) \<le> sh_smallBudget s"
  proof -
    assume a: "sh_bytes s \<le> sh_budget s \<Longrightarrow> thesis"
      "\<And>xs' a. xs = xs' @ [a] \<Longrightarrow> sh_bytes s > sh_budget s \<Longrightarrow>
        f_bytes (sh_small s) > sh_smallBudget s \<Longrightarrow> thesis"
      "bk @ fr \<noteq> [] \<Longrightarrow> sh_bytes s > sh_budget s \<Longrightarrow> f_bytes (sh_small s) \<le> sh_smallBudget s \<Longrightarrow> thesis"
    have "xs \<noteq> []" if "f_bytes (sh_small s) > sh_smallBudget s" using that B(3) by auto
    moreover have "bk @ fr \<noteq> []" if "sh_bytes s > sh_budget s" "f_bytes (sh_small s) \<le> sh_smallBudget s"
      using that B(4) sb by (auto simp: sh_bytes_def)
    ultimately show thesis using a by (metis leI rev_exhaust)
  qed
  then show ?case
  proof cases
    case fits
    then show ?thesis using stop by (simp add: bounded_def)
  next
    case (small xs' a)
    then have k: "k = 3" using Suc.prems(5) by simp
    obtain bk' where v: "sinv hf (evictSmall hf s) xs' (bk' @ fr) [] (dom (sh_heap (evictSmall hf s)))"
      "\<And>b. b \<in> set fr \<Longrightarrow> need (sh_heap (evictSmall hf s)) b \<le> k + 1"
      "\<And>b. b \<in> set bk' \<Longrightarrow> need (sh_heap (evictSmall hf s)) b \<le> k"
      "4 * length xs' + length fr + k * length (bk' @ fr)
        < 4 * length (xs' @ [a]) + length fr + k * length (bk @ fr)"
      using visit_small [of hf s xs' a bk fr k] Suc.prems(1-4) small(1) k by auto
    have "evict_loop (Suc g) hf s = evict_loop g hf (evictSmall hf s)"
      using small B(5) by auto
    then show ?thesis
      using Suc.IH [OF v(1-3) Suc.prems(4)] v(4) Suc.prems(6) small(1) k by simp
  next
    case main
    have eq: "evict_loop (Suc g) hf s = evict_loop g hf (evictMain hf s)"
      using main B(6) by auto
    have sm: "f_bytes (sh_small (evictMain hf s)) \<le> sh_smallBudget (evictMain hf s)"
      if "sinv hf (evictMain hf s) xs zs [] (dom (sh_heap (evictMain hf s)))" for zs
    proof -
      have t: "trimmed hf s (evictMain hf s)" using trimmed_main [OF Suc.prems(1)] main(1) by simp
      have "bytes_of (sh_heap (evictMain hf s)) xs = bytes_of (sh_heap s) xs"
        unfolding bytes_of_def
      proof (intro arg_cong [of _ _ sum_list] map_cong refl)
        fix b assume "b \<in> set xs"
        then have "b \<in> dom (sh_heap (evictMain hf s))" using that by (auto simp: sinv_def queues_ok_def)
        then have "core (ent (sh_heap (evictMain hf s)) b) = core (ent (sh_heap s) b)"
          using t evicts_ent(2) by (auto simp: trimmed_def)
        then show "charge (ent (sh_heap (evictMain hf s)) b) = charge (ent (sh_heap s) b)"
          by (rule core_eqD)
      qed
      then show ?thesis using sinv_bytes(3) [OF that] B(3) main(3) t by (simp add: trimmed_def)
    qed
    consider k1 b1 f1 a where "bk @ fr = b1 @ f1 @ [a]" "k1 \<le> k"
      "\<And>b. b \<in> set (f1 @ [a]) \<Longrightarrow> need (sh_heap s) b \<le> k1 + 1"
      "\<And>b. b \<in> set b1 \<Longrightarrow> need (sh_heap s) b \<le> k1"
      "length (f1 @ [a]) + k1 * length (bk @ fr) \<le> length fr + k * length (bk @ fr)"
    | "\<And>b. b \<in> set (bk @ fr) \<Longrightarrow> need (sh_heap s) b = 0"
      using pass_split [OF main(1) Suc.prems(2,3)] by blast
    then show ?thesis
    proof cases
      case 1
      have i1: "sinv hf s xs (b1 @ f1 @ [a]) [] (dom (sh_heap s))" using Suc.prems(1) 1(1) by simp
      obtain bk' where v: "sinv hf (evictMain hf s) xs (bk' @ f1) [] (dom (sh_heap (evictMain hf s)))"
        "\<And>b. b \<in> set f1 \<Longrightarrow> need (sh_heap (evictMain hf s)) b \<le> k1 + 1"
        "\<And>b. b \<in> set bk' \<Longrightarrow> need (sh_heap (evictMain hf s)) b \<le> k1"
        "length f1 + k1 * length (bk' @ f1) < length (f1 @ [a]) + k1 * length (b1 @ f1 @ [a])"
        using visit_main [OF i1 1(3,4)] by blast
      have "4 * length xs + length f1 + k1 * length (bk' @ f1) \<le> g"
        using v(4) 1(1,5) Suc.prems(6) by simp
      then show ?thesis
        unfolding eq using Suc.IH [OF v(1-3)] 1(2) Suc.prems(4) sm [OF v(1)] by simp
    next
      case 2
      then show ?thesis using stop bounded_all_pinned [OF Suc.prems(1) main(3)] by blast
    qed
  qed
qed

lemma evict_ok:
  assumes "sinv hf s xs ys [] (dom (sh_heap s))"
  shows "bounded (evict hf s)" and "trimmed hf s (evict hf s)"
proof -
  have fr: "e_freq (ent (sh_heap s) b) \<le> kMaxFreq" if "b \<in> set ys" for b
    using that assms by (auto simp: sinv_def entries_ok_def queues_ok_def)
  show "bounded (evict hf s)"
    unfolding evict_def
    by (rule evict_loop_bounded [of hf s xs "[]" ys 3])
      (use assms fr sinv_bytes(7,8) [OF assms] in \<open>auto simp: need_def kMaxFreq_def\<close>)
  show "trimmed hf s (evict hf s)"
    unfolding evict_def by (rule trimmed_loop [OF assms])
qed

text \<open>C10. Eviction brings a shard back to its budget up to the bytes of entries pinned by
  unapplied writes: within the loop's own bound on visits, the bytes cached end at or below
  the budget plus the pinned bytes. It never frees a pinned entry, never changes the contents
  of an entry, and keeps the shard's invariant (both queues, the index, unique keys, the
  ghost queue).\<close>

theorem evict_within_budget:
  assumes "shard_ok hf s xs ys"
  shows "sh_bytes (evict hf s) \<le> sh_budget s + pinned_bytes (sh_heap s) \<and>
    evicts (sh_heap s) (sh_heap (evict hf s)) \<and> (\<exists>xs' ys'. shard_ok hf (evict hf s) xs' ys')"
proof -
  have i: "sinv hf s xs ys [] (dom (sh_heap s))" using assms by (simp add: shard_ok_def)
  have t: "evicts (sh_heap s) (sh_heap (evict hf s))" "sh_budget (evict hf s) = sh_budget s"
    "\<exists>xs' ys'. shard_ok hf (evict hf s) xs' ys'"
    using evict_ok(2) [OF i] by (auto simp: trimmed_def shard_ok_def)
  then show ?thesis
    using evict_ok(1) [OF i] evicts_bytes(2) [OF t(1) sinv_bytes(2) [OF i]] by (simp add: bounded_def)
qed

subsection \<open>Adding and dropping entries\<close>

lemma alloc_ok:
  assumes "sinv hf s xs ys zs I" and "sh_heap s a = None" and "e_freq e \<le> kMaxFreq"
  shows "sinv hf (s\<lparr>sh_heap := (sh_heap s)(a \<mapsto> e)\<rparr>) xs ys (a # zs) I" and "a \<notin> I"
proof -
  let ?s = "s\<lparr>sh_heap := (sh_heap s)(a \<mapsto> e)\<rparr>"
  have Q: "queues_ok s xs ys zs" and E: "entries_ok hf s I"
    using assms(1) by (auto simp: sinv_def)
  note D = queues_okD [OF Q]
  have nin: "a \<notin> set (xs @ ys @ zs)" using assms(2) D(4) by auto
  show aI: "a \<notin> I" using E assms(2) by (auto simp: entries_ok_def)
  have "queues_ok ?s xs ys (a # zs)"
  proof (rule queues_okI)
    show "dll (sh_heap ?s) (sh_small ?s) xs" using dll_upd_outside [OF D(1)] nin by simp
    show "dll (sh_heap ?s) (sh_main ?s) ys" using dll_upd_outside [OF D(2)] nin by simp
  qed (use D(3-6) nin in auto)
  moreover have "index_of hf (sh_heap ?s) I = index_of hf (sh_heap s) I"
    unfolding index_of_def by (rule image_mset_cong) (use aI E in \<open>auto simp: entries_ok_def\<close>)
  moreover have "inj_on (\<lambda>b. ekey (ent (sh_heap ?s) b)) I \<longleftrightarrow> inj_on (\<lambda>b. ekey (ent (sh_heap s) b)) I"
    by (rule inj_on_cong) (use aI in auto)
  ultimately show "sinv hf ?s xs ys (a # zs) I"
    using assms E by (auto simp: sinv_def entries_ok_def ghost_ok_def)
qed

lemma set_ent_unindexed:
  assumes "sinv hf s xs ys (a # zs) I" and "a \<notin> I" and "\<And>e. e_freq (f e) = e_freq e"
  shows "sinv hf (set_ent s a f) xs ys (a # zs) I"
proof -
  let ?s = "set_ent s a f"
  have Q: "queues_ok s xs ys (a # zs)" and E: "entries_ok hf s I"
    using assms(1) by (auto simp: sinv_def)
  note D = queues_okD [OF Q]
  have other: "sh_heap ?s b = sh_heap s b" if "b \<noteq> a" for b using that by (simp add: set_ent_def)
  have oI: "sh_heap ?s b = sh_heap s b" if "b \<in> I" for b using that assms(2) other by metis
  have nin: "a \<notin> set xs" "a \<notin> set ys" using D(3) by auto
  have "queues_ok ?s xs ys (a # zs)"
  proof (rule queues_okI)
    show "dll (sh_heap ?s) (sh_small ?s) xs"
      unfolding set_ent_def by (simp, rule dll_frame [OF D(1)]) (use nin in auto)
    show "dll (sh_heap ?s) (sh_main ?s) ys"
      unfolding set_ent_def by (simp, rule dll_frame [OF D(2)]) (use nin in auto)
    show "e_queue (ent (sh_heap ?s) b) = kSmall" if "b \<in> set xs" for b
      using that D(5) [of b] other [of b] nin by (cases "b = a") auto
    show "e_queue (ent (sh_heap ?s) b) = kMain" if "b \<in> set ys" for b
      using that D(6) [of b] other [of b] nin by (cases "b = a") auto
  qed (use D(3,4) in \<open>simp_all add: set_ent_def\<close>)
  moreover have "index_of hf (sh_heap ?s) I = index_of hf (sh_heap s) I"
    unfolding index_of_def
    by (rule image_mset_cong) (use oI E in \<open>auto simp: entries_ok_def\<close>)
  moreover have "inj_on (\<lambda>b. ekey (ent (sh_heap ?s) b)) I \<longleftrightarrow> inj_on (\<lambda>b. ekey (ent (sh_heap s) b)) I"
    by (rule inj_on_cong) (simp add: oI)
  moreover have "e_freq (ent (sh_heap ?s) b) \<le> kMaxFreq" if "b \<in> dom (sh_heap s)" for b
  proof -
    have "e_freq (ent (sh_heap s) b) \<le> kMaxFreq" using that E by (simp add: entries_ok_def)
    then show ?thesis using that assms(3) by (auto simp: set_ent_def)
  qed
  ultimately show ?thesis
    using assms(1) E by (simp add: sinv_def entries_ok_def ghost_ok_def set_ent_def)
qed

lemma insert_ok:
  assumes "sinv hf s xs ys [a] I" and "a \<notin> I"
    and "\<And>b. b \<in> I \<Longrightarrow> ekey (ent (sh_heap s) b) \<noteq> ekey (ent (sh_heap s) a)"
    and h: "h = ent_hash hf (ent (sh_heap s) a)"
  defines "s' \<equiv> sh_insert s a h"
  shows "\<exists>xs' ys'. sinv hf s' xs' ys' [] (insert a I)" and "cores (sh_heap s') = cores (sh_heap s)"
    and "sh_budget s' = sh_budget s" "sh_smallBudget s' = sh_smallBudget s"
    "sh_pendingItems s' = sh_pendingItems s" "sh_seq s' = sh_seq s"
proof -
  define q where "q = (if h \<in> sh_ghostSet s then kMain else kSmall)"
  define s1 where "s1 = set_ent s a (\<lambda>e. e\<lparr>e_queue := q\<rparr>)"
  define s2 where "s2 = (if h \<in> sh_ghostSet s then push_main s1 a else push_small s1 a)"
  have c1: "cores (sh_heap s1) = cores (sh_heap s)"
    unfolding s1_def set_ent_def by (simp add: cores_upd)
  have a: "a \<in> dom (sh_heap s)" using assms(1) by (simp add: sinv_def queues_ok_def)
  have i1: "sinv hf s1 xs ys [a] I" unfolding s1_def by (rule set_ent_unindexed [OF assms(1,2)]) simp
  have q1: "e_queue (ent (sh_heap s1) a) = q" using a by (auto simp: s1_def set_ent_def)
  obtain xs' ys' where i2: "sinv hf s2 xs' ys' [] I" and d2: "data (sh_heap s2) = data (sh_heap s1)"
    and r2: "same_rest s1 s2" and x2: "sh_index s2 = sh_index s1"
    using push_main_ok [OF i1] push_small_ok [OF i1] q1 unfolding s2_def q_def by (auto split: if_splits)
  have c2: "cores (sh_heap s2) = cores (sh_heap s)" using data_eq_cores [OF d2] c1 by simp
  have s': "sh_heap s' = sh_heap s2" "sh_index s' = ix_insert (sh_index s2) h a"
    "sh_small s' = sh_small s2" "sh_main s' = sh_main s2" "sh_ghost s' = sh_ghost s2"
    "sh_ghostSet s' = sh_ghostSet s2" "sh_budget s' = sh_budget s2" "sh_smallBudget s' = sh_smallBudget s2"
    "sh_pendingItems s' = sh_pendingItems s2" "sh_seq s' = sh_seq s2"
    by (simp_all add: s'_def sh_insert_def Let_def s2_def s1_def q_def)
  then show "cores (sh_heap s') = cores (sh_heap s)" using c2 by simp
  show "sh_budget s' = sh_budget s" "sh_smallBudget s' = sh_smallBudget s"
    "sh_pendingItems s' = sh_pendingItems s" "sh_seq s' = sh_seq s"
    using r2 s' by (simp_all add: same_rest_def s1_def set_ent_def)
  have E: "entries_ok hf s2 I" using i2 by (simp add: sinv_def)
  have key: "ekey (ent (sh_heap s2) b) = ekey (ent (sh_heap s) b)" if "b \<in> dom (sh_heap s)" for b
    using core_eqD(5,8) [OF cores_ent [OF c2 [symmetric] that]] by simp
  have hh: "ent_hash hf (ent (sh_heap s2) a) = h"
    using core_eqD(11) [OF cores_ent [OF c2 [symmetric] a]] h by metis
  have dm: "dom (sh_heap s2) = dom (sh_heap s)" using cores_dom [OF c2] .
  have fin: "finite I" and IS: "I \<subseteq> dom (sh_heap s)" and ix: "fi_inv (sh_index s2)"
    "fi_contents (sh_index s2) = index_of hf (sh_heap s2) I"
    using E dm by (auto simp: entries_ok_def)
  have "ekey (ent (sh_heap s2) a) \<noteq> ekey (ent (sh_heap s2) b)" if "b \<in> I" for b
    unfolding key [OF a] key [OF subsetD [OF IS that]] using assms(3) [OF that] by metis
  then have "inj_on (\<lambda>b. ekey (ent (sh_heap s2) b)) (insert a I)"
    using E assms(2) unfolding inj_on_insert entries_ok_def by blast
  moreover have "fi_inv (sh_index s') \<and> fi_contents (sh_index s') = index_of hf (sh_heap s2) (insert a I)"
    unfolding s' index_of_insert [OF fin assms(2)] hh using fi.ins [OF ix(1)] ix(2) by simp
  ultimately have "entries_ok hf s' (insert a I)"
    using E fin IS a dm by (simp add: entries_ok_def s')
  then show "\<exists>xs' ys'. sinv hf s' xs' ys' [] (insert a I)"
    using i2 by (auto simp: sinv_def queues_ok_def ghost_ok_def s')
qed

end
