(* ===== verification/S3fifo_Cache.thy ===== *)
theory S3fifo_Cache
  imports S3fifo_Shard
begin

text \<open>
  The document cache (\<open>S3FifoCache\<close> in \<^verbatim>\<open>server/cache/s3fifo_cache.cc\<close>, the interface
  \<open>DocCache\<close> in \<^verbatim>\<open>server/cache/doccache.h\<close>): a power-of-two number of shards selected by the
  high bits of the key hash, and the lookup, write-through, read-fill, acknowledgement and
  erase methods. Each method is given per shard first (\<open>sh_\<close>), then on the whole cache. A
  method's critical sections are separate definitions where the source releases the lock
  between them. A newly allocated entry's address is an argument.
\<close>

subsection \<open>Results and statistics\<close>

record CachedDoc =
  cd_seqno :: u64
  cd_flags :: u32
  cd_expiry :: u32
  cd_datatype :: u8
  cd_deleted :: bool
  cd_value :: bytes

datatype GetResult = Miss | Hit | Tombstone | TooLarge

record ReadStats =
  rs_hits :: nat
  rs_misses :: nat
  rs_tombstoneHits :: nat
  rs_fillsRejected :: nat

definition doc_of :: "Entry \<Rightarrow> CachedDoc" where
  "doc_of e = \<lparr>cd_seqno = e_seqno e, cd_flags = e_flags e, cd_expiry = e_expiry e,
     cd_datatype = e_datatype e, cd_deleted = e_deleted e, cd_value = e_value e\<rparr>"

subsection \<open>Methods on a shard\<close>

text \<open>The frequency bump of a hit.\<close>

definition touch :: "'m Shard \<Rightarrow> addr \<Rightarrow> 'm Shard" where
  "touch s a = (let f = e_freq (ent (sh_heap s) a)
     in if f < kMaxFreq then set_ent s a (\<lambda>e. e\<lparr>e_freq := f + 1\<rparr>) else s)"

definition sh_get :: "hashfn \<Rightarrow> 'm Shard \<Rightarrow> u16 \<Rightarrow> bytes \<Rightarrow> CachedDoc option \<times> 'm Shard" where
  "sh_get hf s vbid key =
     (case sh_find s (hf vbid key) (map_key vbid key) of
        None \<Rightarrow> (None, s)
      | Some a \<Rightarrow> let s = touch s a in (Some (doc_of (ent (sh_heap s) a)), s))"

text \<open>\<open>GetCopy\<close>: the result code, the document's metadata, and the bytes copied out.\<close>

definition sh_getCopy :: "hashfn \<Rightarrow> 'm Shard \<Rightarrow> u16 \<Rightarrow> bytes \<Rightarrow> nat \<Rightarrow>
    GetResult \<times> CachedDoc option \<times> bytes \<times> 'm Shard" where
  "sh_getCopy hf s vbid key bufCap =
     (case sh_find s (hf vbid key) (map_key vbid key) of
        None \<Rightarrow> (Miss, None, [], s)
      | Some a \<Rightarrow>
          let s = touch s a; e = ent (sh_heap s) a; out = doc_of e\<lparr>cd_value := []\<rparr>
          in if e_deleted e then (Tombstone, Some out, [], s)
             else if length (e_value e) > bufCap then (TooLarge, Some out, [], s)
             else (Hit, Some out, e_value e, s))"

definition sh_putEntry :: "hashfn \<Rightarrow> 'm Shard \<Rightarrow> u64 \<Rightarrow> addr \<Rightarrow> Entry \<Rightarrow> 'm Shard" where
  "sh_putEntry hf s h a e =
     (let s = s\<lparr>sh_heap := (sh_heap s)(a \<mapsto> e)\<rparr>;
          (carry, s) = (case sh_find s h (mapKey e) of
             None \<Rightarrow> (0, s)
           | Some old \<Rightarrow>
               let carry = e_pending (ent (sh_heap s) old);
                   s = unlink s old;
                   s = s\<lparr>sh_index := ix_erase (sh_index s) h old\<rparr>
               in (carry, destroy s old));
          s = set_ent s a (\<lambda>e. e\<lparr>e_pending := carry + 1\<rparr>);
          s = (if carry = 0 then s\<lparr>sh_pendingItems := sh_pendingItems s + 1\<rparr> else s);
          s = sh_insert s a h;
          s = s\<lparr>sh_puts := sh_puts s + 1\<rparr>
      in evict hf s)"

text \<open>The three lock scopes of \<open>PutIfAbsent\<close>: the check, the doorkeeper, the insertion. Each says
  whether the fill goes on.\<close>

definition fill_check :: "hashfn \<Rightarrow> 'm Shard \<Rightarrow> u16 \<Rightarrow> bytes \<Rightarrow> bool" where
  "fill_check hf s vbid key \<longleftrightarrow> sh_find s (hf vbid key) (map_key vbid key) = None"

definition fill_doorkeeper :: "'m Shard \<Rightarrow> u64 \<Rightarrow> bool \<times> 'm Shard" where
  "fill_doorkeeper s h =
     (if h \<notin> sh_ghostSet s
      then let s = ghostAdd s h in (False, s\<lparr>sh_fillsDeferred := sh_fillsDeferred s + 1\<rparr>)
      else (True, s))"

definition fill_insert :: "hashfn \<Rightarrow> 'm Shard \<Rightarrow> u64 \<Rightarrow> addr \<Rightarrow> Entry \<Rightarrow> bool \<times> 'm Shard" where
  "fill_insert hf s h a e =
     (if sh_find s h (mapKey e) \<noteq> None then (False, s)
      else let s = s\<lparr>sh_heap := (sh_heap s)(a \<mapsto> e)\<rparr>;
               s = sh_insert s a h;
               s = s\<lparr>sh_fills := sh_fills s + 1\<rparr>
           in (True, evict hf s))"

definition sh_note :: "'m F14 \<Rightarrow> 'm Shard \<Rightarrow> u64 \<Rightarrow> u64 \<Rightarrow> bool \<Rightarrow> u64 \<Rightarrow> bool \<Rightarrow> 'm Shard" where
  "sh_note F s h seqno deleted valuePtr admit =
     s\<lparr>sh_seq := noteSeqno F (sh_seq s) h seqno deleted valuePtr admit\<rparr>"

definition sh_markPersisted :: "'m F14 \<Rightarrow> hashfn \<Rightarrow> bool \<Rightarrow> 'm Shard \<Rightarrow> u16 \<Rightarrow> bytes \<Rightarrow> u64 \<Rightarrow> 'm Shard" where
  "sh_markPersisted F hf seqnoIndex s vbid key seqno =
     (let h = hf vbid key; e = sh_find s h (map_key vbid key);
          s = (if seqnoIndex \<and> seqno \<noteq> 0
               then sh_note F s h seqno (case e of Some a \<Rightarrow> e_deleted (ent (sh_heap s) a) | None \<Rightarrow> False)
                      0 True
               else s)
      in case e of
           None \<Rightarrow> s
         | Some a \<Rightarrow>
             let s = (if seqno \<noteq> 0 then set_ent s a (\<lambda>e. e\<lparr>e_seqno := seqno\<rparr>) else s);
                 was = e_pending (ent (sh_heap s) a);
                 s = set_ent s a (\<lambda>e. e\<lparr>e_pending := was - 1\<rparr>)
             in if was = 1
                then let s = s\<lparr>sh_pendingItems := sh_pendingItems s - 1\<rparr>
                     in if sh_bytes s > sh_budget s then evict hf s else s
                else s)"

definition sh_erase :: "hashfn \<Rightarrow> 'm Shard \<Rightarrow> u16 \<Rightarrow> bytes \<Rightarrow> 'm Shard" where
  "sh_erase hf s vbid key =
     (case sh_find s (hf vbid key) (map_key vbid key) of
        None \<Rightarrow> s
      | Some a \<Rightarrow> sh_free hf (unlink s a) a)"

definition sh_setBudget :: "hashfn \<Rightarrow> nat \<Rightarrow> 'm Shard \<Rightarrow> 'm Shard" where
  "sh_setBudget hf perShard s =
     evict hf (s\<lparr>sh_budget := perShard, sh_smallBudget := perShard * kSmallPercent div 100\<rparr>)"

definition new_shard :: "nat \<Rightarrow> 'm SeqIndex \<Rightarrow> 'm Shard" where
  "new_shard perShard seq0 =
     \<lparr>sh_heap = Map.empty, sh_index = empty_index, sh_small = empty_fifo, sh_main = empty_fifo,
      sh_ghost = [], sh_ghostSet = {}, sh_budget = perShard,
      sh_smallBudget = perShard * kSmallPercent div 100, sh_puts = 0, sh_fills = 0,
      sh_evictions = 0, sh_ghostHits = 0, sh_fillsDeferred = 0, sh_pendingItems = 0, sh_seq = seq0\<rparr>"

subsection \<open>The cache\<close>

record 'm Cache =
  c_shards :: "'m Shard list"
  c_shardMask :: nat
  c_maxBytes :: nat
  c_seqnoIndex :: bool
  c_fillDoorkeeper :: bool
  c_stats :: ReadStats

function pow2_from :: "nat \<Rightarrow> nat \<Rightarrow> nat" where
  "pow2_from p n = (if 0 < p \<and> p < n then pow2_from (p * 2) n else p)"
  by pat_completeness auto
termination by (relation "measure (\<lambda>(p, n). n - p)") auto

declare pow2_from.simps [simp del]

definition S3FifoCache :: "'m SeqIndex \<Rightarrow> nat \<Rightarrow> nat \<Rightarrow> 'm Cache" where
  "S3FifoCache seq0 maxBytes numShards =
     (let n = pow2_from 1 (max 1 numShards)
      in \<lparr>c_shards = replicate n (new_shard (maxBytes div n) seq0), c_shardMask = n - 1,
          c_maxBytes = maxBytes, c_seqnoIndex = False, c_fillDoorkeeper = False,
          c_stats = \<lparr>rs_hits = 0, rs_misses = 0, rs_tombstoneHits = 0, rs_fillsRejected = 0\<rparr>\<rparr>)"

text \<open>The policies the factory knows.\<close>

definition CreateDocCache :: "'m SeqIndex \<Rightarrow> string \<Rightarrow> nat \<Rightarrow> nat \<Rightarrow> string + 'm Cache" where
  "CreateDocCache seq0 policy maxBytes numShards =
     (if policy = [] \<or> policy = ''s3fifo'' then Inr (S3FifoCache seq0 maxBytes numShards)
      else Inl (''unknown cache policy '' @ [CHR 0x27] @ policy @ [CHR 0x27] @ '' (known: s3fifo)''))"

definition shardFor :: "'m Cache \<Rightarrow> u64 \<Rightarrow> nat" where
  "shardFor c h = unat (drop_bit 32 h AND of_nat (c_shardMask c))"

definition set_shard :: "'m Cache \<Rightarrow> nat \<Rightarrow> 'm Shard \<Rightarrow> 'm Cache" where
  "set_shard c i s = c\<lparr>c_shards := (c_shards c)[i := s]\<rparr>"

definition upd_stats :: "'m Cache \<Rightarrow> (ReadStats \<Rightarrow> ReadStats) \<Rightarrow> 'm Cache" where
  "upd_stats c f = c\<lparr>c_stats := f (c_stats c)\<rparr>"

definition miss_stat :: "ReadStats \<Rightarrow> ReadStats" where
  "miss_stat r = r\<lparr>rs_misses := rs_misses r + 1\<rparr>"
definition hit_stat :: "ReadStats \<Rightarrow> ReadStats" where
  "hit_stat r = r\<lparr>rs_hits := rs_hits r + 1\<rparr>"
definition tombstone_stat :: "ReadStats \<Rightarrow> ReadStats" where
  "tombstone_stat r = r\<lparr>rs_tombstoneHits := rs_tombstoneHits r + 1\<rparr>"
definition rejected_stat :: "ReadStats \<Rightarrow> ReadStats" where
  "rejected_stat r = r\<lparr>rs_fillsRejected := rs_fillsRejected r + 1\<rparr>"

definition Get :: "hashfn \<Rightarrow> 'm Cache \<Rightarrow> u16 \<Rightarrow> bytes \<Rightarrow> CachedDoc option \<times> 'm Cache" where
  "Get hf c vbid key =
     (let i = shardFor c (hf vbid key); (r, s) = sh_get hf (c_shards c ! i) vbid key;
          c = set_shard c i s
      in case r of
           None \<Rightarrow> (None, upd_stats c miss_stat)
         | Some doc \<Rightarrow> (Some doc, upd_stats c (if cd_deleted doc then tombstone_stat else hit_stat)))"

definition GetCopy :: "hashfn \<Rightarrow> 'm Cache \<Rightarrow> u16 \<Rightarrow> bytes \<Rightarrow> nat \<Rightarrow>
    GetResult \<times> CachedDoc option \<times> bytes \<times> 'm Cache" where
  "GetCopy hf c vbid key bufCap =
     (let i = shardFor c (hf vbid key);
          (r, out, v, s) = sh_getCopy hf (c_shards c ! i) vbid key bufCap;
          c = set_shard c i s;
          c = (case r of Miss \<Rightarrow> upd_stats c miss_stat | Tombstone \<Rightarrow> upd_stats c tombstone_stat
                 | TooLarge \<Rightarrow> c | Hit \<Rightarrow> upd_stats c hit_stat)
      in (r, out, v, c))"

definition putEntry :: "hashfn \<Rightarrow> 'm Cache \<Rightarrow> u64 \<Rightarrow> addr \<Rightarrow> Entry \<Rightarrow> 'm Cache" where
  "putEntry hf c h a e =
     (let i = shardFor c h in set_shard c i (sh_putEntry hf (c_shards c ! i) h a e))"

definition Put :: "hashfn \<Rightarrow> 'm Cache \<Rightarrow> addr \<Rightarrow> u16 \<Rightarrow> bytes \<Rightarrow> bytes \<Rightarrow> u32 \<Rightarrow> u32 \<Rightarrow> u8 \<Rightarrow> bool \<Rightarrow> 'm Cache" where
  "Put hf c a vbid key value flags expiry datatype deleted =
     putEntry hf c (hf vbid key) a (create vbid key value 0 flags expiry datatype deleted)"

definition PutShared :: "hashfn \<Rightarrow> 'm Cache \<Rightarrow> addr \<Rightarrow> u16 \<Rightarrow> bytes \<Rightarrow> bytes \<Rightarrow> nat \<Rightarrow> u32 \<Rightarrow> u32 \<Rightarrow> u8 \<Rightarrow>
    bool \<Rightarrow> 'm Cache" where
  "PutShared hf c a vbid key value ownerCap flags expiry datatype deleted =
     putEntry hf c (hf vbid key) a (createShared vbid key value ownerCap flags expiry datatype deleted)"

definition PutIfAbsent :: "'m F14 \<Rightarrow> hashfn \<Rightarrow> 'm Cache \<Rightarrow> addr \<Rightarrow> u16 \<Rightarrow> bytes \<Rightarrow> bytes \<Rightarrow> u64 \<Rightarrow> u32 \<Rightarrow>
    u32 \<Rightarrow> u8 \<Rightarrow> 'm Cache" where
  "PutIfAbsent F hf c a vbid key value seqno flags expiry datatype =
     (let h = hf vbid key; i = shardFor c h;
          c = (if c_seqnoIndex c \<and> seqno \<noteq> 0
               then set_shard c i (sh_note F (c_shards c ! i) h seqno False 0 False) else c)
      in if \<not> fill_check hf (c_shards c ! i) vbid key then upd_stats c rejected_stat
         else let (go, s) = (if c_fillDoorkeeper c then fill_doorkeeper (c_shards c ! i) h
                             else (True, c_shards c ! i));
                  c = set_shard c i s
              in if \<not> go then c
                 else let (landed, s) = fill_insert hf (c_shards c ! i) h a
                            (create vbid key value seqno flags expiry datatype False)
                      in if landed then set_shard c i s else upd_stats c rejected_stat)"

definition MarkPersisted :: "'m F14 \<Rightarrow> hashfn \<Rightarrow> 'm Cache \<Rightarrow> u16 \<Rightarrow> bytes \<Rightarrow> u64 \<Rightarrow> 'm Cache" where
  "MarkPersisted F hf c vbid key seqno =
     (let i = shardFor c (hf vbid key)
      in set_shard c i (sh_markPersisted F hf (c_seqnoIndex c) (c_shards c ! i) vbid key seqno))"

definition Erase :: "hashfn \<Rightarrow> 'm Cache \<Rightarrow> u16 \<Rightarrow> bytes \<Rightarrow> 'm Cache" where
  "Erase hf c vbid key =
     (let i = shardFor c (hf vbid key) in set_shard c i (sh_erase hf (c_shards c ! i) vbid key))"

definition SetBudget :: "hashfn \<Rightarrow> 'm Cache \<Rightarrow> nat \<Rightarrow> 'm Cache" where
  "SetBudget hf c maxBytes =
     c\<lparr>c_maxBytes := maxBytes,
       c_shards := map (sh_setBudget hf (maxBytes div length (c_shards c))) (c_shards c)\<rparr>"

definition SetSeqnoIndexCap :: "'m Cache \<Rightarrow> nat \<Rightarrow> 'm Cache" where
  "SetSeqnoIndexCap c maxBytes =
     c\<lparr>c_shards := map (\<lambda>s. s\<lparr>sh_seq := SetSeqCap (sh_seq s) (maxBytes div length (c_shards c))\<rparr>)
       (c_shards c)\<rparr>"

definition NoteSeqno :: "'m F14 \<Rightarrow> hashfn \<Rightarrow> 'm Cache \<Rightarrow> u16 \<Rightarrow> bytes \<Rightarrow> u64 \<Rightarrow> bool \<Rightarrow> u64 \<Rightarrow> 'm Cache" where
  "NoteSeqno F hf c vbid key seqno deleted valuePtr =
     (if \<not> c_seqnoIndex c \<or> seqno = 0 then c
      else let h = hf vbid key; i = shardFor c h
           in set_shard c i (sh_note F (c_shards c ! i) h seqno deleted valuePtr True))"

definition c_NoteValuePtr :: "'m F14 \<Rightarrow> hashfn \<Rightarrow> 'm Cache \<Rightarrow> u16 \<Rightarrow> bytes \<Rightarrow> u64 \<Rightarrow> u64 \<Rightarrow> 'm Cache" where
  "c_NoteValuePtr F hf c vbid key seqno valuePtr =
     (if \<not> c_seqnoIndex c \<or> seqno = 0 \<or> valuePtr = 0 then c
      else let h = hf vbid key; i = shardFor c h; s = c_shards c ! i
           in set_shard c i (s\<lparr>sh_seq := NoteValuePtr F (sh_seq s) h seqno valuePtr\<rparr>))"

definition c_SeqnoHint :: "'m F14 \<Rightarrow> hashfn \<Rightarrow> 'm Cache \<Rightarrow> u16 \<Rightarrow> bytes \<Rightarrow> u64 \<times> u64 \<times> 'm Cache" where
  "c_SeqnoHint F hf c vbid key =
     (if \<not> c_seqnoIndex c then (0, 0, c)
      else let h = hf vbid key; i = shardFor c h; s = c_shards c ! i;
               (n, p, q) = SeqnoHint F (sh_seq s) h
           in (n, p, set_shard c i (s\<lparr>sh_seq := q\<rparr>)))"

record DocCacheStats =
  st_hits :: nat
  st_misses :: nat
  st_tombstoneHits :: nat
  st_fillsRejected :: nat
  st_puts :: nat
  st_fills :: nat
  st_evictions :: nat
  st_ghostHits :: nat
  st_fillsDeferred :: nat
  st_bytes :: nat
  st_items :: nat
  st_pendingItems :: nat
  st_maxBytes :: nat
  st_seqnoIndexItems :: nat
  st_seqnoIndexBytes :: nat
  st_seqnoIndexEvictions :: nat
  st_seqnoIndexRejected :: nat

definition GetStats :: "'m F14 \<Rightarrow> 'm Cache \<Rightarrow> DocCacheStats" where
  "GetStats F c =
     (let r = c_stats c; total = (\<lambda>f. sum_list (map f (c_shards c)))
      in \<lparr>st_hits = rs_hits r, st_misses = rs_misses r, st_tombstoneHits = rs_tombstoneHits r,
          st_fillsRejected = rs_fillsRejected r, st_puts = total sh_puts, st_fills = total sh_fills,
          st_evictions = total sh_evictions, st_ghostHits = total sh_ghostHits,
          st_fillsDeferred = total sh_fillsDeferred, st_bytes = total sh_bytes,
          st_items = total (\<lambda>s. f_count (sh_small s) + f_count (sh_main s)),
          st_pendingItems = total sh_pendingItems, st_maxBytes = c_maxBytes c,
          st_seqnoIndexItems =
            total (\<lambda>s. sum_list (map (\<lambda>p. length (items F (p_map p))) (seqParts (sh_seq s)))),
          st_seqnoIndexBytes = total (\<lambda>s. seqBytes (sh_seq s)),
          st_seqnoIndexEvictions = total (\<lambda>s. seqEvictions (sh_seq s)),
          st_seqnoIndexRejected = total (\<lambda>s. seqRejected (sh_seq s))\<rparr>)"

subsection \<open>What a shard holds\<close>

text \<open>The entry a lookup finds, without links and policy fields.\<close>

definition kv :: "hashfn \<Rightarrow> 'm Shard \<Rightarrow> u16 \<Rightarrow> bytes \<Rightarrow> Entry option" where
  "kv hf s v k = map_option (\<lambda>a. core (ent (sh_heap s) a)) (sh_find s (hf v k) (map_key v k))"

definition shard_wf :: "hashfn \<Rightarrow> 'm Shard \<Rightarrow> bool" where
  "shard_wf hf s \<longleftrightarrow> (\<exists>xs ys. sinv hf s xs ys [] (dom (sh_heap s)))"

lemma shard_wf_find:
  "shard_wf hf s \<Longrightarrow> sh_find s (hf v k) (map_key v k) = Some a \<longleftrightarrow>
     a \<in> dom (sh_heap s) \<and> ekey (ent (sh_heap s) a) = (v, k)"
  using sh_find_iff [of hf s "dom (sh_heap s)" v k a] by (auto simp: shard_wf_def sinv_def)

lemma shard_wf_freq:
  assumes "shard_wf hf s" and "sh_heap s a = Some e"
  shows "e_freq e \<le> kMaxFreq"
proof -
  have "\<forall>b\<in>dom (sh_heap s). e_freq (ent (sh_heap s) b) \<le> kMaxFreq"
    using assms(1) unfolding shard_wf_def sinv_def entries_ok_def by blast
  then show ?thesis using assms(2) by force
qed

lemma evicts_pinned: "evicts hp hp' \<Longrightarrow> hp a = Some e \<Longrightarrow> pinned e \<Longrightarrow> a \<in> dom hp'"
  unfolding evicts_def by blast

lemma kv_iff:
  assumes "shard_wf hf s"
  shows "kv hf s v k = Some c \<longleftrightarrow> (\<exists>a. cores (sh_heap s) a = Some c \<and> ekey c = (v, k))"
proof
  assume "kv hf s v k = Some c"
  then obtain a where a: "sh_find s (hf v k) (map_key v k) = Some a" "c = core (ent (sh_heap s) a)"
    by (auto simp: kv_def)
  then show "\<exists>a. cores (sh_heap s) a = Some c \<and> ekey c = (v, k)"
    using shard_wf_find [OF assms, of v k a] by (intro exI [of _ a]) (auto simp: cores_def)
next
  assume "\<exists>a. cores (sh_heap s) a = Some c \<and> ekey c = (v, k)"
  then obtain a e where a: "sh_heap s a = Some e" "core e = c" "ekey c = (v, k)"
    by (auto simp: cores_def)
  then have "ekey e = (v, k)" by auto
  then have "sh_find s (hf v k) (map_key v k) = Some a"
    using shard_wf_find [OF assms, of v k a] a(1) by auto
  then show "kv hf s v k = Some c" using a by (simp add: kv_def)
qed

lemma kv_eqI:
  assumes "shard_wf hf s" and "shard_wf hf s'"
    and "\<And>c. ekey c = (v, k) \<Longrightarrow>
      (\<exists>a. cores (sh_heap s) a = Some c) \<longleftrightarrow> (\<exists>a. cores (sh_heap s') a = Some c)"
  shows "kv hf s' v k = kv hf s v k"
proof -
  have "kv hf s v k = Some c \<longleftrightarrow> kv hf s' v k = Some c" for c
    unfolding kv_iff [OF assms(1)] kv_iff [OF assms(2)] using assms(3) by blast
  then show ?thesis by (metis not_Some_eq)
qed

text \<open>Eviction drops unpinned entries only.\<close>

definition kv_trimmed :: "hashfn \<Rightarrow> 'm Shard \<Rightarrow> 'm Shard \<Rightarrow> u16 \<Rightarrow> bytes \<Rightarrow> bool" where
  "kv_trimmed hf s s' v k \<longleftrightarrow> kv hf s' v k = kv hf s v k \<or>
     (kv hf s' v k = None \<and> (\<exists>c. kv hf s v k = Some c \<and> \<not> pinned c))"

lemma kv_trimmed_pinned: "kv_trimmed hf s s' v k \<Longrightarrow> kv hf s v k = Some c \<Longrightarrow> pinned c \<Longrightarrow> kv hf s' v k = Some c"
  by (auto simp: kv_trimmed_def)

lemma kv_evicts:
  assumes "shard_wf hf s" and "shard_wf hf s'" and "evicts (sh_heap s) (sh_heap s')"
  shows "kv_trimmed hf s s' v k"
proof (cases "kv hf s' v k")
  case (Some c)
  then obtain a where "cores (sh_heap s') a = Some c" "ekey c = (v, k)"
    unfolding kv_iff [OF assms(2)] by blast
  moreover have "cores (sh_heap s') \<subseteq>\<^sub>m cores (sh_heap s)" using assms(3) by (simp add: evicts_def)
  ultimately have "cores (sh_heap s) a = Some c" by (metis domI map_le_def)
  then have "kv hf s v k = Some c" using \<open>ekey c = (v, k)\<close> kv_iff [OF assms(1)] by blast
  then show ?thesis using Some by (simp add: kv_trimmed_def)
next
  case None
  have "\<not> pinned c" if c: "kv hf s v k = Some c" for c
  proof
    assume "pinned c"
    obtain a where a: "cores (sh_heap s) a = Some c" "ekey c = (v, k)"
      using c unfolding kv_iff [OF assms(1)] by blast
    then obtain e where e: "sh_heap s a = Some e" "core e = c" by (auto simp: cores_def)
    then have "a \<in> dom (sh_heap s')" using evicts_pinned [OF assms(3) e(1)] \<open>pinned c\<close> by auto
    then have "core (ent (sh_heap s') a) = c" using evicts_ent(2) [OF assms(3)] e by simp
    then have "cores (sh_heap s') a = Some c" using \<open>a \<in> dom (sh_heap s')\<close> by (auto simp: cores_def)
    then show False using None a(2) kv_iff [OF assms(2), of v k c] by auto
  qed
  then show ?thesis using None by (cases "kv hf s v k") (auto simp: kv_trimmed_def)
qed

lemma evict_wf:
  assumes "shard_wf hf s"
  shows "shard_wf hf (evict hf s)" "kv_trimmed hf s (evict hf s) v k"
    "evicts (sh_heap s) (sh_heap (evict hf s))" "sh_budget (evict hf s) = sh_budget s"
    "sh_pendingItems (evict hf s) = sh_pendingItems s" "sh_seq (evict hf s) = sh_seq s"
    "sh_bytes (evict hf s) \<le> sh_budget s + pinned_bytes (sh_heap s)"
proof -
  obtain xs ys where i: "sinv hf s xs ys [] (dom (sh_heap s))" using assms by (auto simp: shard_wf_def)
  note T = evict_ok(2) [OF i, unfolded trimmed_def]
  show wf: "shard_wf hf (evict hf s)" and ev: "evicts (sh_heap s) (sh_heap (evict hf s))"
    and b: "sh_budget (evict hf s) = sh_budget s"
    and "sh_pendingItems (evict hf s) = sh_pendingItems s" "sh_seq (evict hf s) = sh_seq s"
    using T by (auto simp: shard_wf_def)
  show "kv_trimmed hf s (evict hf s) v k" by (rule kv_evicts [OF assms wf ev])
  show "sh_bytes (evict hf s) \<le> sh_budget s + pinned_bytes (sh_heap s)"
    using evict_ok(1) [OF i] evicts_bytes(2) [OF ev sinv_bytes(2) [OF i]] b by (simp add: bounded_def)
qed

text \<open>The number of pinned entries, which \<open>pendingItems\<close> counts.\<close>

definition pinned_addrs :: "heap \<Rightarrow> addr set" where
  "pinned_addrs hp = {a \<in> dom hp. pinned (ent hp a)}"

definition pend_ok :: "'m Shard \<Rightarrow> bool" where
  "pend_ok s \<longleftrightarrow> sh_pendingItems s = card (pinned_addrs (sh_heap s))"

lemma evicts_pinned_addrs: "evicts hp hp' \<Longrightarrow> pinned_addrs hp' = pinned_addrs hp"
proof (rule set_eqI)
  fix a assume ev: "evicts hp hp'"
  show "a \<in> pinned_addrs hp' \<longleftrightarrow> a \<in> pinned_addrs hp"
  proof
    assume "a \<in> pinned_addrs hp'"
    then show "a \<in> pinned_addrs hp"
      using evicts_ent [OF ev, of a] core_eqD(4) [of "ent hp' a" "ent hp a"]
      by (simp add: pinned_addrs_def)
  next
    assume a: "a \<in> pinned_addrs hp"
    then obtain e where "hp a = Some e" "pinned e" by (auto simp: pinned_addrs_def)
    then have "a \<in> dom hp'" by (rule evicts_pinned [OF ev])
    then show "a \<in> pinned_addrs hp'"
      using a evicts_ent [OF ev, of a] core_eqD(4) [of "ent hp' a" "ent hp a"]
      by (simp add: pinned_addrs_def)
  qed
qed

lemma pinned_addrs_cores: "cores hp' = cores hp \<Longrightarrow> pinned_addrs hp' = pinned_addrs hp"
  by (rule evicts_pinned_addrs) (use cores_dom [of hp' hp] in \<open>auto simp: evicts_def\<close>)

subsection \<open>The write-through path\<close>

definition pending_of :: "Entry option \<Rightarrow> u32" where
  "pending_of x = (case x of Some c \<Rightarrow> e_pending c | None \<Rightarrow> 0)"

text \<open>Replacing the old version: the state after it is dropped.\<close>

definition drop_old :: "'m Shard \<Rightarrow> u64 \<Rightarrow> Entry \<Rightarrow> u32 \<times> 'm Shard" where
  "drop_old s h e = (case sh_find s h (mapKey e) of
             None \<Rightarrow> (0, s)
           | Some old \<Rightarrow>
               let carry = e_pending (ent (sh_heap s) old);
                   s = unlink s old;
                   s = s\<lparr>sh_index := ix_erase (sh_index s) h old\<rparr>
               in (carry, destroy s old))"

lemma cores_upd_fresh: "cores (hp(a \<mapsto> e)) = (cores hp)(a \<mapsto> core e)"
  by (rule ext) (simp add: cores_def)

lemma cores_remove: "cores (hp(a := None)) = (cores hp)(a := None)"
  by (rule ext) (simp add: cores_def)

lemma cores_upd_at: "hp a = Some e \<Longrightarrow> cores (upd hp a f) = (cores hp)(a \<mapsto> core (f e))"
  by (rule ext) (simp add: cores_def)

lemma drop_old_ok:
  assumes i: "sinv hf s xs ys [] (dom (sh_heap s))" and fresh: "sh_heap s a = None"
    and fr: "e_freq e \<le> kMaxFreq" and key: "ekey e = (v, k)" and h: "h = hf v k"
    and eq: "drop_old (s\<lparr>sh_heap := (sh_heap s)(a \<mapsto> e)\<rparr>) h e = (carry, s1)"
  obtains xs' ys' I old where "sinv hf s1 xs' ys' [a] I" and "a \<notin> I" and "carry = pending_of (kv hf s v k)"
    and "cores (sh_heap s1) = (cores (sh_heap s))(old := None, a \<mapsto> core e)"
    and "I = dom (sh_heap s) - {old}" and "\<And>b. b \<in> I \<Longrightarrow> ekey (ent (sh_heap s) b) \<noteq> (v, k)"
    and "old \<in> dom (sh_heap s) \<longrightarrow> ekey (ent (sh_heap s) old) = (v, k) \<and> e_pending (ent (sh_heap s) old) = carry"
    and "old \<notin> dom (sh_heap s) \<longrightarrow> carry = 0" and "same_rest s s1"
proof -
  let ?s = "s\<lparr>sh_heap := (sh_heap s)(a \<mapsto> e)\<rparr>" and ?I = "dom (sh_heap s)"
  note A = alloc_ok [OF i fresh fr]
  have E: "entries_ok hf s ?I" "entries_ok hf ?s ?I" using i A by (auto simp: sinv_def)
  have mk: "mapKey e = map_key v k" using key by (simp add: mapKey_map_key)
  have same: "ent (sh_heap ?s) b = ent (sh_heap s) b" if "b \<in> ?I" for b using that fresh by auto
  have f_eq: "sh_find ?s h (mapKey e) = sh_find s h (mapKey e)"
    unfolding mk h using sh_find_iff [OF E(1), of v k] sh_find_iff [OF E(2), of v k] same
    by (metis option.exhaust)
  show thesis
  proof (cases "sh_find s h (mapKey e)")
    case None
    then have "carry = 0" "s1 = ?s" using eq f_eq by (auto simp: drop_old_def)
    moreover have "kv hf s v k = None" using None by (simp add: kv_def mk h)
    moreover have "\<forall>b\<in>?I. ekey (ent (sh_heap s) b) \<noteq> (v, k)"
      using None sh_find_None [OF E(1), of v k] by (simp add: mk h)
    ultimately show thesis
      using A fresh
      by (intro that [of xs ys ?I a])
        (auto simp: pending_of_def same_rest_def cores_upd_fresh fun_eq_iff)
  next
    case (Some old)
    have old: "old \<in> ?I" "ekey (ent (sh_heap s) old) = (v, k)"
      using Some sh_find_iff [OF E(1), of v k] by (auto simp: mk h)
    have oa: "old \<noteq> a" using old fresh by auto
    define s2 where "s2 = unlink ?s old"
    have car: "carry = e_pending (ent (sh_heap s) old)"
      and s1: "s1 = destroy (s2\<lparr>sh_index := ix_erase (sh_index s2) h old\<rparr>) old"
      using eq Some same [OF old(1)] by (auto simp: drop_old_def f_eq Let_def s2_def)
    have "old \<in> set xs \<union> set ys" using old(1) i by (auto simp: sinv_def queues_ok_def)
    from unlink_ok [OF A(1) this] obtain xs' ys' where u: "sinv hf s2 xs' ys' (old # [a]) ?I"
      "data (sh_heap s2) = data (sh_heap ?s)" "same_rest ?s s2"
      by (auto simp: s2_def)
    have c2: "cores (sh_heap s2) = cores (sh_heap ?s)" by (rule data_eq_cores [OF u(2)])
    have "core (ent (sh_heap s2) old) = core (ent (sh_heap ?s) old)"
      using cores_ent [OF c2 [symmetric], of old] old(1) by auto
    from core_eqD(11) [OF this] have "ent_hash hf (ent (sh_heap s2) old) = h"
      using same [OF old(1)] old(2) h by (simp add: ent_hash_def)
    then have "sinv hf s1 xs' ys' [a] (?I - {old})"
      using drop_ok [OF u(1) old(1)] s1 by simp
    moreover have "cores (sh_heap s1) = (cores (sh_heap s))(old := None, a \<mapsto> core e)"
      using c2 oa by (simp add: s1 destroy_def cores_remove cores_upd_fresh fun_upd_twist)
    moreover have "kv hf s v k = Some (core (ent (sh_heap s) old))" using Some by (simp add: kv_def mk h)
    moreover have "ekey (ent (sh_heap s) b) \<noteq> (v, k)" if "b \<in> ?I - {old}" for b
      using E(1) old that unfolding entries_ok_def inj_on_def by (metis DiffE insertI1)
    moreover have "same_rest s s1" using u(3) by (simp add: s1 destroy_def same_rest_def)
    ultimately show thesis
      using A(2) car old by (intro that [of xs' ys' "?I - {old}" old]) (simp_all add: pending_of_def)
  qed
qed

lemma pinned_addrs_alt: "pinned_addrs hp = {a. \<exists>c. cores hp a = Some c \<and> pinned c}"
  by (auto simp: pinned_addrs_def cores_def)

lemma card_pinned_put:
  assumes "cores hp' = (cores hp)(old := None, a \<mapsto> core e)" and "hp a = None" and "finite (dom hp)"
    and "pinned e" and "old \<in> dom hp \<longrightarrow> e_pending (ent hp old) = carry" and "old \<notin> dom hp \<longrightarrow> carry = 0"
  shows "card (pinned_addrs hp') = card (pinned_addrs hp) + (if carry = 0 then 1 else 0)"
proof -
  have fin: "finite (pinned_addrs hp)" using assms(3) by (simp add: pinned_addrs_def)
  have a: "a \<notin> pinned_addrs hp" using assms(2) by (auto simp: pinned_addrs_def)
  have "pinned_addrs hp' = insert a (pinned_addrs hp - {old})"
    unfolding pinned_addrs_alt assms(1) using assms(4) by auto
  then have c: "card (pinned_addrs hp') = card (pinned_addrs hp - {old}) + 1"
    using fin a by simp
  show ?thesis
  proof (cases "carry = 0")
    case True
    then have "old \<notin> pinned_addrs hp" using assms(5) by (auto simp: pinned_addrs_def)
    then show ?thesis using c True by simp
  next
    case False
    then have "old \<in> dom hp" "pinned (ent hp old)" using assms(5,6) by (auto simp: word_gt_0)
    then have "old \<in> pinned_addrs hp" by (simp add: pinned_addrs_def)
    then show ?thesis using c False fin card_Suc_Diff1 [of "pinned_addrs hp" old] by simp
  qed
qed

lemma sh_putEntry_drop_old:
  "sh_putEntry hf s h a e =
     (let (carry, s) = drop_old (s\<lparr>sh_heap := (sh_heap s)(a \<mapsto> e)\<rparr>) h e;
          s = set_ent s a (\<lambda>e. e\<lparr>e_pending := carry + 1\<rparr>);
          s = (if carry = 0 then s\<lparr>sh_pendingItems := sh_pendingItems s + 1\<rparr> else s);
          s = sh_insert s a h;
          s = s\<lparr>sh_puts := sh_puts s + 1\<rparr>
      in evict hf s)"
  by (simp add: sh_putEntry_def drop_old_def Let_def)

lemma sh_putEntry_pre:
  assumes wf: "shard_wf hf s" and fresh: "sh_heap s a = None"
    and fr: "e_freq e \<le> kMaxFreq" and key: "ekey e = (v, k)" and h: "h = hf v k"
  defines "e' \<equiv> e\<lparr>e_pending := pending_of (kv hf s v k) + 1\<rparr>"
  obtains p where "sh_putEntry hf s h a e = evict hf p" and "shard_wf hf p"
    and "kv hf p v k = Some (core e')" and "\<And>v' k'. (v', k') \<noteq> (v, k) \<Longrightarrow> kv hf p v' k' = kv hf s v' k'"
    and "sh_budget p = sh_budget s" and "sh_seq p = sh_seq s"
    and "pend_ok s \<Longrightarrow> pending_of (kv hf s v k) + 1 \<noteq> 0 \<Longrightarrow> pend_ok p"
proof -
  obtain xs ys where i: "sinv hf s xs ys [] (dom (sh_heap s))" using wf by (auto simp: shard_wf_def)
  obtain carry s1 where eq: "drop_old (s\<lparr>sh_heap := (sh_heap s)(a \<mapsto> e)\<rparr>) h e = (carry, s1)"
    by (cases "drop_old (s\<lparr>sh_heap := (sh_heap s)(a \<mapsto> e)\<rparr>) h e")
  obtain xs' ys' I old where D: "sinv hf s1 xs' ys' [a] I" "a \<notin> I" "carry = pending_of (kv hf s v k)"
    "cores (sh_heap s1) = (cores (sh_heap s))(old := None, a \<mapsto> core e)"
    "I = dom (sh_heap s) - {old}" "\<And>b. b \<in> I \<Longrightarrow> ekey (ent (sh_heap s) b) \<noteq> (v, k)"
    "old \<in> dom (sh_heap s) \<longrightarrow> ekey (ent (sh_heap s) old) = (v, k) \<and> e_pending (ent (sh_heap s) old) = carry"
    "old \<notin> dom (sh_heap s) \<longrightarrow> carry = 0" "same_rest s s1"
    using drop_old_ok [OF i fresh fr key h eq] by blast
  define s2 where "s2 = set_ent s1 a (\<lambda>e. e\<lparr>e_pending := carry + 1\<rparr>)"
  define s3 where "s3 = (if carry = 0 then s2\<lparr>sh_pendingItems := sh_pendingItems s2 + 1\<rparr> else s2)"
  define s4 where "s4 = sh_insert s3 a h"
  define p where "p = s4\<lparr>sh_puts := sh_puts s4 + 1\<rparr>"
  have put: "sh_putEntry hf s h a e = evict hf p"
    unfolding sh_putEntry_drop_old eq by (simp add: Let_def p_def s4_def s3_def s2_def)
  have i2: "sinv hf s2 xs' ys' [a] I" unfolding s2_def by (rule set_ent_unindexed [OF D(1,2)]) simp
  then have i3: "sinv hf s3 xs' ys' [a] I" by (simp add: s3_def)
  obtain e1 where e1: "sh_heap s1 a = Some e1" "core e1 = core e"
    using fun_cong [OF D(4), of a] by (auto simp: cores_def)
  have h3: "sh_heap s3 = upd (sh_heap s1) a (\<lambda>e. e\<lparr>e_pending := carry + 1\<rparr>)"
    by (simp add: s3_def s2_def set_ent_def)
  have "core (e1\<lparr>e_pending := carry + 1\<rparr>) = core e'"
    using e1(2) D(3) by (cases e1; cases e) (simp add: core_def strip_def e'_def)
  then have c3: "cores (sh_heap s3) = (cores (sh_heap s))(old := None, a \<mapsto> core e')"
    unfolding h3 cores_upd_at [of "sh_heap s1" a e1 "\<lambda>e. e\<lparr>e_pending := carry + 1\<rparr>", OF e1(1)] D(4)
    by simp
  have aent: "core (ent (sh_heap s3) a) = core e'" using fun_cong [OF c3, of a] by (auto simp: cores_def)
  have ka: "ekey (ent (sh_heap s3) a) = (v, k)" using core_eqD(5,8) [OF aent] key by (simp add: e'_def)
  have kb: "ekey (ent (sh_heap s3) b) = ekey (ent (sh_heap s) b)" if "b \<in> I" for b
  proof -
    have "b \<in> dom (sh_heap s)" "b \<noteq> old" "b \<noteq> a" using that D(2,5) by auto
    then have "cores (sh_heap s3) b = cores (sh_heap s) b" by (simp add: c3)
    then have "core (ent (sh_heap s3) b) = core (ent (sh_heap s) b)"
      using \<open>b \<in> dom (sh_heap s)\<close> by (auto simp: cores_def)
    from core_eqD(5,8) [OF this] show ?thesis by simp
  qed
  have hh: "h = ent_hash hf (ent (sh_heap s3) a)" using ka h by (simp add: ent_hash_def)
  have ne: "ekey (ent (sh_heap s3) b) \<noteq> ekey (ent (sh_heap s3) a)" if "b \<in> I" for b
    unfolding kb [OF that] ka using D(6) [OF that] .
  note INS = insert_ok [OF i3 D(2) ne hh, folded s4_def]
  have cp: "cores (sh_heap p) = (cores (sh_heap s))(old := None, a \<mapsto> core e')"
    using INS(2) c3 by (simp add: p_def)
  have "dom (sh_heap p) = dom (cores (sh_heap p))" by (auto simp: cores_def)
  also have "\<dots> = insert a I" unfolding cp D(5) by (auto simp: cores_def)
  finally have dp: "dom (sh_heap p) = insert a I" .
  have wfp: "shard_wf hf p" using INS(1) dp by (auto simp: shard_wf_def p_def)
  have seen: "(\<exists>b. cores (sh_heap p) b = Some c) \<longleftrightarrow> (\<exists>b. cores (sh_heap s) b = Some c)"
    if "ekey c = (v', k')" "(v', k') \<noteq> (v, k)" for c v' k'
  proof
    assume "\<exists>b. cores (sh_heap p) b = Some c"
    then obtain b where b: "cores (sh_heap p) b = Some c" by blast
    then have "b \<noteq> a" using that key by (auto simp: cp e'_def)
    then show "\<exists>b. cores (sh_heap s) b = Some c" using b by (auto simp: cp split: if_splits)
  next
    assume "\<exists>b. cores (sh_heap s) b = Some c"
    then obtain b where b: "cores (sh_heap s) b = Some c" by blast
    then have bd: "b \<in> dom (sh_heap s)" "core (ent (sh_heap s) b) = c" by (auto simp: cores_def)
    then have "b \<noteq> a" using fresh by auto
    moreover have "b \<noteq> old" using D(7) bd that by auto
    ultimately show "\<exists>b. cores (sh_heap p) b = Some c" using b by (intro exI [of _ b]) (simp add: cp)
  qed
  have kvp: "kv hf p v k = Some (core e')"
    unfolding kv_iff [OF wfp] using key by (intro exI [of _ a]) (simp add: cp e'_def)
  have kvo: "kv hf p v' k' = kv hf s v' k'" if "(v', k') \<noteq> (v, k)" for v' k'
    by (rule kv_eqI [OF wf wfp]) (use seen that in blast)
  have pend: "pend_ok p" if "pend_ok s" "pending_of (kv hf s v k) + 1 \<noteq> 0"
  proof -
    have "pinned e'" using that(2) by (simp add: e'_def word_gt_0)
    then have "card (pinned_addrs (sh_heap p)) = card (pinned_addrs (sh_heap s)) + (if carry = 0 then 1 else 0)"
      using card_pinned_put [OF cp fresh sinv_bytes(2) [OF i], of carry] D(7,8) by auto
    moreover have "sh_pendingItems p = sh_pendingItems s + (if carry = 0 then 1 else 0)"
      using INS(5) D(9) by (simp add: p_def s3_def s2_def set_ent_def same_rest_def)
    ultimately show ?thesis using that(1) by (simp add: pend_ok_def)
  qed
  show thesis
    by (rule that [OF put wfp kvp kvo _ _ pend])
      (use INS(3,6) D(9) in \<open>simp_all add: p_def s3_def s2_def set_ent_def same_rest_def\<close>)
qed

lemma sh_putEntry_ok:
  assumes wf: "shard_wf hf s" and fresh: "sh_heap s a = None"
    and fr: "e_freq e \<le> kMaxFreq" and key: "ekey e = (v, k)" and h: "h = hf v k"
    and nowrap: "pending_of (kv hf s v k) + 1 \<noteq> 0"
  defines "s' \<equiv> sh_putEntry hf s h a e"
  shows "shard_wf hf s'" and "kv hf s' v k = Some (core (e\<lparr>e_pending := pending_of (kv hf s v k) + 1\<rparr>))"
    and "(v', k') \<noteq> (v, k) \<Longrightarrow> kv_trimmed hf s s' v' k'" and "pend_ok s \<Longrightarrow> pend_ok s'"
    and "sh_bytes s' \<le> sh_budget s + pinned_bytes (sh_heap s')"
proof -
  let ?e = "e\<lparr>e_pending := pending_of (kv hf s v k) + 1\<rparr>"
  obtain p where p: "s' = evict hf p" "shard_wf hf p" "kv hf p v k = Some (core ?e)"
    "\<And>v' k'. (v', k') \<noteq> (v, k) \<Longrightarrow> kv hf p v' k' = kv hf s v' k'" "sh_budget p = sh_budget s"
    "pend_ok s \<Longrightarrow> pend_ok p"
    using sh_putEntry_pre [OF wf fresh fr key h] nowrap unfolding s'_def by metis
  note E = evict_wf [OF p(2), folded p(1)]
  show "shard_wf hf s'" by (rule E(1))
  show "kv hf s' v k = Some (core ?e)"
    by (rule kv_trimmed_pinned [OF E(2) p(3)]) (use nowrap in \<open>simp add: word_gt_0\<close>)
  show "kv_trimmed hf s s' v' k'" if "(v', k') \<noteq> (v, k)"
    using E(2) [of v' k'] p(4) [OF that] by (simp add: kv_trimmed_def)
  show "pend_ok s'" if "pend_ok s"
    using p(6) [OF that] E(5) evicts_pinned_addrs [OF E(3)] by (simp add: pend_ok_def)
  obtain xs ys where "sinv hf p xs ys [] (dom (sh_heap p))" using p(2) by (auto simp: shard_wf_def)
  then show "sh_bytes s' \<le> sh_budget s + pinned_bytes (sh_heap s')"
    using E(7) evicts_bytes(2) [OF E(3)] sinv_bytes(2) p(5) by metis
qed

subsection \<open>Reads and acknowledgements\<close>

lemma set_ent_queued:
  assumes "shard_wf hf s" and "sh_heap s a = Some e0"
    and "\<And>e. e_prev (f e) = e_prev e \<and> e_next (f e) = e_next e \<and> charge (f e) = charge e \<and>
      e_queue (f e) = e_queue e \<and> ekey (f e) = ekey e"
    and "e_freq (f e0) \<le> kMaxFreq"
  shows "shard_wf hf (set_ent s a f)"
    and "cores (sh_heap (set_ent s a f)) = (cores (sh_heap s))(a \<mapsto> core (f e0))"
proof -
  let ?s = "set_ent s a f"
  obtain xs ys where i: "sinv hf s xs ys [] (dom (sh_heap s))" using assms(1) by (auto simp: shard_wf_def)
  then have Q: "queues_ok s xs ys []" and E: "entries_ok hf s (dom (sh_heap s))" by (auto simp: sinv_def)
  note D = queues_okD [OF Q]
  have hp: "sh_heap ?s = upd (sh_heap s) a f" by (simp add: set_ent_def)
  have same: "ekey (ent (sh_heap ?s) b) = ekey (ent (sh_heap s) b)"
    "e_queue (ent (sh_heap ?s) b) = e_queue (ent (sh_heap s) b)" for b
    using assms(2,3) by (auto simp: hp)
  then have hash: "ent_hash hf (ent (sh_heap ?s) b) = ent_hash hf (ent (sh_heap s) b)" for b
    by (simp add: ent_hash_def)
  have "queues_ok ?s xs ys []"
  proof (rule queues_okI)
    show "dll (sh_heap ?s) (sh_small ?s) xs"
      unfolding hp using dll_upd_data [OF D(1), of f a] assms(3) by (simp add: set_ent_def)
    show "dll (sh_heap ?s) (sh_main ?s) ys"
      unfolding hp using dll_upd_data [OF D(2), of f a] assms(3) by (simp add: set_ent_def)
  qed (use D(3-6) same in \<open>simp_all add: set_ent_def\<close>)
  moreover have "index_of hf (sh_heap ?s) I = index_of hf (sh_heap s) I" for I
    unfolding index_of_def by (simp add: hash)
  moreover have "e_freq (ent (sh_heap ?s) b) \<le> kMaxFreq" if "b \<in> dom (sh_heap s)" for b
  proof -
    have "e_freq (ent (sh_heap s) b) \<le> kMaxFreq" using that E by (simp add: entries_ok_def)
    then show ?thesis using that assms(2,4) by (auto simp: hp)
  qed
  ultimately have "sinv hf ?s xs ys [] (dom (sh_heap ?s))"
    using i E same by (simp add: sinv_def entries_ok_def ghost_ok_def set_ent_def)
  then show "shard_wf hf ?s" by (auto simp: shard_wf_def)
  show "cores (sh_heap ?s) = (cores (sh_heap s))(a \<mapsto> core (f e0))"
    unfolding hp using cores_upd_at [of "sh_heap s" a e0 f] assms(2) by simp
qed

lemma touch_ok:
  assumes "shard_wf hf s" and "a \<in> dom (sh_heap s)"
  shows "shard_wf hf (touch s a)" and "cores (sh_heap (touch s a)) = cores (sh_heap s)"
    and "sh_index (touch s a) = sh_index s" and "sh_pendingItems (touch s a) = sh_pendingItems s"
proof -
  obtain e where e: "sh_heap s a = Some e" using assms(2) by auto
  let ?f = "\<lambda>x. x\<lparr>e_freq := e_freq e + 1\<rparr>"
  have same: "(cores (sh_heap s))(a \<mapsto> core e) = cores (sh_heap s)"
    using e by (simp add: fun_eq_iff cores_def)
  have "shard_wf hf (set_ent s a ?f) \<and>
      cores (sh_heap (set_ent s a ?f)) = (cores (sh_heap s))(a \<mapsto> core (?f e))" if "e_freq e < kMaxFreq"
    using set_ent_queued [OF assms(1) e, of ?f] that by (simp add: charge_def split: option.split)
  then show "shard_wf hf (touch s a)" and "cores (sh_heap (touch s a)) = cores (sh_heap s)"
    and "sh_index (touch s a) = sh_index s" and "sh_pendingItems (touch s a) = sh_pendingItems s"
    using assms(1) e same by (simp_all add: touch_def Let_def set_ent_def)
qed

lemma kv_cores:
  assumes "shard_wf hf s" and "shard_wf hf s'" and "cores (sh_heap s') = cores (sh_heap s)"
  shows "kv hf s' v k = kv hf s v k"
  by (rule kv_eqI [OF assms(1,2)]) (simp add: assms(3))

lemma doc_of_core [simp]: "doc_of (core e) = doc_of e"
  by (simp add: doc_of_def)

lemma sh_get_ok:
  assumes "shard_wf hf s" and "sh_get hf s v k = (r, s')"
  shows "r = map_option doc_of (kv hf s v k)" and "shard_wf hf s'" and "kv hf s' v' k' = kv hf s v' k'"
    and "pend_ok s \<Longrightarrow> pend_ok s'"
proof -
  have "r = map_option doc_of (kv hf s v k) \<and> shard_wf hf s' \<and> cores (sh_heap s') = cores (sh_heap s) \<and>
      sh_pendingItems s' = sh_pendingItems s"
  proof (cases "sh_find s (hf v k) (map_key v k)")
    case None
    then show ?thesis using assms by (auto simp: sh_get_def kv_def)
  next
    case (Some a)
    then have a: "a \<in> dom (sh_heap s)" using shard_wf_find [OF assms(1)] by blast
    note T = touch_ok [OF assms(1) a]
    have "core (ent (sh_heap (touch s a)) a) = core (ent (sh_heap s) a)"
      using cores_ent [OF T(2) [symmetric] a] by simp
    then have "doc_of (ent (sh_heap (touch s a)) a) = doc_of (ent (sh_heap s) a)" by (metis doc_of_core)
    then show ?thesis using assms(2) Some T by (auto simp: sh_get_def kv_def)
  qed
  then show "r = map_option doc_of (kv hf s v k)" "shard_wf hf s'" "kv hf s' v' k' = kv hf s v' k'"
    "pend_ok s \<Longrightarrow> pend_ok s'"
    using kv_cores [OF assms(1)] pinned_addrs_cores [of "sh_heap s'" "sh_heap s"]
    by (auto simp: pend_ok_def)
qed

lemma kv_update_at:
  assumes "shard_wf hf s" and "shard_wf hf s'" and "cores (sh_heap s) a = Some c" and "ekey c = (v, k)"
    and "cores (sh_heap s') = (cores (sh_heap s))(a \<mapsto> c')" and "ekey c' = (v, k)"
  shows "kv hf s' v k = Some c'" and "(v', k') \<noteq> (v, k) \<Longrightarrow> kv hf s' v' k' = kv hf s v' k'"
proof -
  show "kv hf s' v k = Some c'"
    unfolding kv_iff [OF assms(2)] using assms(5,6) by (intro exI [of _ a]) simp
  show "kv hf s' v' k' = kv hf s v' k'" if "(v', k') \<noteq> (v, k)"
  proof (rule kv_eqI [OF assms(1,2)])
    fix d assume "ekey d = (v', k')"
    then have "d \<noteq> c" "d \<noteq> c'" using that assms(4,6) by auto
    then show "(\<exists>b. cores (sh_heap s) b = Some d) \<longleftrightarrow> (\<exists>b. cores (sh_heap s') b = Some d)"
      unfolding assms(5) using assms(3) by (metis fun_upd_apply option.inject)
  qed
qed

definition acked :: "Entry \<Rightarrow> u64 \<Rightarrow> Entry" where
  "acked c seqno = (if seqno \<noteq> 0 then c\<lparr>e_seqno := seqno\<rparr> else c)\<lparr>e_pending := e_pending c - 1\<rparr>"

lemma card_pinned_ack:
  assumes "cores hp' = (cores hp)(a \<mapsto> c')" and "cores hp a = Some c" and "finite (dom hp)"
    and "pinned c"
  shows "card (pinned_addrs hp') = card (pinned_addrs hp) - (if pinned c' then 0 else 1)"
proof (cases "pinned c'")
  case True
  then have "pinned_addrs hp' = pinned_addrs hp"
    unfolding pinned_addrs_alt assms(1) using assms(2,4) by auto
  then show ?thesis using True by simp
next
  case False
  have "a \<in> pinned_addrs hp" unfolding pinned_addrs_alt using assms(2,4) by simp
  moreover have "pinned_addrs hp' = pinned_addrs hp - {a}"
    unfolding pinned_addrs_alt assms(1) using False by auto
  ultimately show ?thesis using False assms(3) by (simp add: pinned_addrs_def card_Diff_singleton)
qed

lemma shard_wf_fields [simp]:
  "shard_wf hf (s\<lparr>sh_seq := q\<rparr>) = shard_wf hf s" "shard_wf hf (s\<lparr>sh_pendingItems := n\<rparr>) = shard_wf hf s"
  "shard_wf hf (s\<lparr>sh_puts := n\<rparr>) = shard_wf hf s" "shard_wf hf (s\<lparr>sh_fills := n\<rparr>) = shard_wf hf s"
  "shard_wf hf (s\<lparr>sh_fillsDeferred := n\<rparr>) = shard_wf hf s"
  by (simp_all add: shard_wf_def)

lemma kv_fields [simp]:
  "kv hf (s\<lparr>sh_seq := q\<rparr>) = kv hf s" "kv hf (s\<lparr>sh_pendingItems := n\<rparr>) = kv hf s"
  "kv hf (s\<lparr>sh_puts := n\<rparr>) = kv hf s" "kv hf (s\<lparr>sh_fills := n\<rparr>) = kv hf s"
  "kv hf (s\<lparr>sh_fillsDeferred := n\<rparr>) = kv hf s"
  by (simp_all add: kv_def sh_find_def fun_eq_iff)

lemma sh_note_fields [simp]:
  "sh_heap (sh_note F s h n d p b) = sh_heap s" "sh_index (sh_note F s h n d p b) = sh_index s"
  "shard_wf hf (sh_note F s h n d p b) = shard_wf hf s" "kv hf (sh_note F s h n d p b) = kv hf s"
  "pend_ok (sh_note F s h n d p b) = pend_ok s" "sh_budget (sh_note F s h n d p b) = sh_budget s"
  by (simp_all add: sh_note_def pend_ok_def)

lemma sh_mark_absent:
  assumes "kv hf s v k = None"
  shows "sh_markPersisted F hf si s v k n =
    (if si \<and> n \<noteq> 0 then sh_note F s (hf v k) n False 0 True else s)"
  using assms by (simp add: sh_markPersisted_def kv_def Let_def)

lemma sh_mark_present:
  assumes wf: "shard_wf hf s" and c: "kv hf s v k = Some c"
  obtains p where "sh_markPersisted F hf si s v k n =
      (if e_pending c = 1 \<and> sh_bytes p > sh_budget p then evict hf p else p)"
    and "shard_wf hf p" and "kv hf p v k = Some (acked c n)"
    and "\<And>v' k'. (v', k') \<noteq> (v, k) \<Longrightarrow> kv hf p v' k' = kv hf s v' k'"
    and "pend_ok s \<Longrightarrow> pinned c \<Longrightarrow> pend_ok p"
proof -
  obtain a where a: "sh_find s (hf v k) (map_key v k) = Some a" "c = core (ent (sh_heap s) a)"
    using c by (auto simp: kv_def)
  then have "a \<in> dom (sh_heap s)" "ekey (ent (sh_heap s) a) = (v, k)" using shard_wf_find [OF wf] by blast+
  then obtain e where e: "sh_heap s a = Some e" "ekey e = (v, k)" "c = core e" using a(2) by auto
  define s1 where "s1 = (if si \<and> n \<noteq> 0 then sh_note F s (hf v k) n (e_deleted e) 0 True else s)"
  have s1: "shard_wf hf s1" "sh_heap s1 = sh_heap s" "pend_ok s1 = pend_ok s" "kv hf s1 = kv hf s"
    using wf by (auto simp: s1_def)
  define f :: "Entry \<Rightarrow> Entry" where "f = (\<lambda>x. (if n \<noteq> 0 then x\<lparr>e_seqno := n\<rparr> else x)\<lparr>e_pending := e_pending e - 1\<rparr>)"
  define s2 where "s2 = set_ent s1 a f"
  have "e_prev (f x) = e_prev x \<and> e_next (f x) = e_next x \<and> charge (f x) = charge x \<and>
      e_queue (f x) = e_queue x \<and> ekey (f x) = ekey x" for x
    by (simp add: f_def charge_def split: option.split)
  moreover have "e_freq e \<le> kMaxFreq"
    by (rule shard_wf_freq [OF wf e(1)])
  then have "e_freq (f e) \<le> kMaxFreq" by (simp add: f_def)
  ultimately have w2: "shard_wf hf s2" and c2: "cores (sh_heap s2) = (cores (sh_heap s))(a \<mapsto> core (f e))"
    using set_ent_queued [OF s1(1), of a e f] e(1) s1(2) by (auto simp: s2_def)
  have fe: "core (f e) = acked c n"
    unfolding e(3) acked_def f_def by (cases e) (simp add: core_def strip_def)
  have ca: "cores (sh_heap s) a = Some c" using e by (simp add: cores_def)
  have kc: "ekey c = (v, k)" "ekey (acked c n) = (v, k)" using e by (auto simp: acked_def)
  define p where "p = (if e_pending c = 1 then s2\<lparr>sh_pendingItems := sh_pendingItems s2 - 1\<rparr> else s2)"
  have s2_alt: "set_ent (if n \<noteq> 0 then set_ent s1 a (\<lambda>e. e\<lparr>e_seqno := n\<rparr>) else s1) a
      (\<lambda>x. x\<lparr>e_pending := e_pending e - 1\<rparr>) = s2"
    using e(1) s1(2) by (auto simp: s2_def set_ent_def upd_def f_def)
  have was: "e_pending (ent (sh_heap (if n \<noteq> 0 then set_ent s1 a (\<lambda>e. e\<lparr>e_seqno := n\<rparr>) else s1)) a) =
      e_pending e"
    using e(1) s1(2) by (simp add: set_ent_def)
  have "sh_markPersisted F hf si s v k n =
      (let s = (if n \<noteq> 0 then set_ent s1 a (\<lambda>e. e\<lparr>e_seqno := n\<rparr>) else s1);
           was = e_pending (ent (sh_heap s) a); s = set_ent s a (\<lambda>e. e\<lparr>e_pending := was - 1\<rparr>)
       in if was = 1 then let s = s\<lparr>sh_pendingItems := sh_pendingItems s - 1\<rparr>
                in if sh_bytes s > sh_budget s then evict hf s else s
          else s)"
    unfolding sh_markPersisted_def Let_def a(1) option.case e(1) option.sel s1_def [symmetric] ..
  then have "sh_markPersisted F hf si s v k n =
      (if e_pending c = 1 \<and> sh_bytes p > sh_budget p then evict hf p else p)"
    unfolding Let_def was s2_alt using e(3) by (simp add: p_def)
  moreover have "shard_wf hf p" using w2 by (simp add: p_def)
  moreover have "kv hf p v k = Some (acked c n)" "\<And>v' k'. (v', k') \<noteq> (v, k) \<Longrightarrow> kv hf p v' k' = kv hf s v' k'"
    using kv_update_at [OF wf w2 ca kc(1) _ kc(2)] c2 fe by (simp_all add: p_def)
  moreover have "pend_ok p" if "pend_ok s" "pinned c"
  proof -
    have fin: "finite (dom (sh_heap s))" using wf sinv_bytes(2) by (auto simp: shard_wf_def)
    have "card (pinned_addrs (sh_heap p)) =
        card (pinned_addrs (sh_heap s)) - (if pinned (acked c n) then 0 else 1)"
      using card_pinned_ack [OF _ ca fin that(2), of "sh_heap p" "acked c n"] c2 fe by (simp add: p_def)
    moreover have "pinned (acked c n) \<longleftrightarrow> e_pending c \<noteq> 1" by (auto simp: acked_def word_gt_0)
    moreover have "sh_pendingItems s2 = sh_pendingItems s"
      by (simp add: s2_def set_ent_def s1_def sh_note_def)
    ultimately show ?thesis using that(1) by (auto simp: pend_ok_def p_def)
  qed
  ultimately show thesis using that by blast
qed

lemma sh_mark_ok:
  assumes wf: "shard_wf hf s" and pins: "\<forall>c. kv hf s v k = Some c \<longrightarrow> pinned c"
    and s': "s' = sh_markPersisted F hf si s v k n"
  shows "shard_wf hf s' \<and> (pend_ok s \<longrightarrow> pend_ok s') \<and>
    (case kv hf s v k of None \<Rightarrow> kv hf s' v k = None
     | Some c \<Rightarrow> kv hf s' v k = Some (acked c n) \<or> (kv hf s' v k = None \<and> e_pending c = 1)) \<and>
    ((v', k') \<noteq> (v, k) \<longrightarrow> kv_trimmed hf s s' v' k')"
proof (cases "kv hf s v k")
  case None
  then show ?thesis using wf s' by (simp add: sh_mark_absent kv_trimmed_def)
next
  case (Some c)
  then have pin: "pinned c" using pins by simp
  obtain p where eq: "sh_markPersisted F hf si s v k n =
      (if e_pending c = 1 \<and> sh_bytes p > sh_budget p then evict hf p else p)"
    and p: "shard_wf hf p" "kv hf p v k = Some (acked c n)"
    "\<And>v' k'. (v', k') \<noteq> (v, k) \<Longrightarrow> kv hf p v' k' = kv hf s v' k'"
    "pend_ok s \<Longrightarrow> pinned c \<Longrightarrow> pend_ok p"
    by (rule sh_mark_present [OF wf Some, of F si n]) blast
  note E = evict_wf [OF p(1)]
  have po: "pend_ok (evict hf p) = pend_ok p"
    using E(5) evicts_pinned_addrs [OF E(3)] by (simp add: pend_ok_def)
  have other: "(v', k') \<noteq> (v, k) \<Longrightarrow> kv_trimmed hf s (evict hf p) v' k'"
    using E(2) [of v' k'] p(3) [of v' k'] unfolding kv_trimmed_def by simp
  have at: "kv hf (evict hf p) v k = Some (acked c n) \<or> kv hf (evict hf p) v k = None"
    using E(2) [of v k] p(2) unfolding kv_trimmed_def by auto
  show ?thesis
  proof (cases "e_pending c = 1 \<and> sh_bytes p > sh_budget p")
    case True
    then have "s' = evict hf p" using s' eq by simp
    then show ?thesis using Some True E(1) po other at p(4) pin by simp
  next
    case False
    then have "s' = p" using s' eq by auto
    then show ?thesis using Some p pin by (simp add: kv_trimmed_def)
  qed
qed

subsection \<open>Erase and read fills\<close>

lemma sh_erase_ok:
  assumes wf: "shard_wf hf s"
  shows "shard_wf hf (sh_erase hf s v k)" and "kv hf (sh_erase hf s v k) v k = None"
    and "(v', k') \<noteq> (v, k) \<Longrightarrow> kv hf (sh_erase hf s v k) v' k' = kv hf s v' k'"
    and "pend_ok s \<Longrightarrow> pend_ok (sh_erase hf s v k)"
proof -
  let ?s = "sh_erase hf s v k"
  have "shard_wf hf ?s \<and> kv hf ?s v k = None \<and> ((v', k') \<noteq> (v, k) \<longrightarrow> kv hf ?s v' k' = kv hf s v' k') \<and>
    (pend_ok s \<longrightarrow> pend_ok ?s)"
  proof (cases "sh_find s (hf v k) (map_key v k)")
    case None
    then show ?thesis using wf by (simp add: sh_erase_def kv_def)
  next
    case (Some a)
    have a: "a \<in> dom (sh_heap s)" "ekey (ent (sh_heap s) a) = (v, k)"
      using Some shard_wf_find [OF wf] by blast+
    obtain xs ys where i: "sinv hf s xs ys [] (dom (sh_heap s))" using wf by (auto simp: shard_wf_def)
    have "a \<in> set xs \<union> set ys" using a(1) i by (auto simp: sinv_def queues_ok_def)
    from unlink_ok [OF i this] obtain xs' ys' where u: "sinv hf (unlink s a) xs' ys' [a] (dom (sh_heap s))"
      "data (sh_heap (unlink s a)) = data (sh_heap s)" "same_rest s (unlink s a)" by blast
    note F = free_ok [OF u(1) a(1)]
    have s': "?s = sh_free hf (unlink s a) a" using Some by (simp add: sh_erase_def)
    have d: "dom (sh_heap ?s) = dom (sh_heap s) - {a}"
      using F data_eq_dom [OF u(2)] by (simp add: s')
    have wf': "shard_wf hf ?s" using F d by (auto simp: shard_wf_def s')
    have c: "cores (sh_heap ?s) = (cores (sh_heap s))(a := None)"
      using F data_eq_cores [OF u(2)] by (simp add: s' cores_remove)
    have e: "core (ent (sh_heap (unlink s a)) a) = core (ent (sh_heap s) a)"
      using cores_ent [OF data_eq_cores [OF u(2)]] a(1) data_eq_dom [OF u(2)] by simp
    have uniq: "b = a" if "cores (sh_heap s) b = Some c'" "ekey c' = (v, k)" for b c'
    proof -
      have "b \<in> dom (sh_heap s)" "ekey (ent (sh_heap s) b) = (v, k)" using that by (auto simp: cores_def)
      then show ?thesis using i a unfolding sinv_def entries_ok_def inj_on_def by metis
    qed
    have "kv hf ?s v k = None"
    proof (rule ccontr)
      assume "kv hf ?s v k \<noteq> None"
      then obtain b c' where "cores (sh_heap ?s) b = Some c'" "ekey c' = (v, k)"
        using kv_iff [OF wf'] by blast
      then show False using uniq [of b c'] unfolding c by (auto split: if_splits)
    qed
    moreover have "kv hf ?s v' k' = kv hf s v' k'" if "(v', k') \<noteq> (v, k)"
    proof (rule kv_eqI [OF wf wf'])
      fix d assume d: "ekey d = (v', k')"
      have "b \<noteq> a" if "cores (sh_heap s) b = Some d" for b
        using that d a(2) \<open>(v', k') \<noteq> (v, k)\<close> by (auto simp: cores_def)
      then show "(\<exists>b. cores (sh_heap s) b = Some d) \<longleftrightarrow> (\<exists>b. cores (sh_heap ?s) b = Some d)"
        unfolding c by (metis fun_upd_apply option.distinct(1))
    qed
    moreover have "pend_ok ?s" if "pend_ok s"
    proof -
      have fin: "finite (pinned_addrs (sh_heap s))"
        using sinv_bytes(2) [OF i] by (simp add: pinned_addrs_def)
      have pa: "pinned_addrs (sh_heap ?s) = pinned_addrs (sh_heap s) - {a}"
        unfolding pinned_addrs_alt c by auto
      have "sh_pendingItems ?s = (if a \<in> pinned_addrs (sh_heap s) then sh_pendingItems s - 1 else sh_pendingItems s)"
        using core_eqD(4) [OF e] a(1) u(3) unfolding s' free_rest by (simp add: pinned_addrs_def same_rest_def)
      then show ?thesis using that fin by (simp add: pend_ok_def pa card_Diff_singleton)
    qed
    ultimately show ?thesis using wf' by blast
  qed
  then show "shard_wf hf ?s" "kv hf ?s v k = None"
    "(v', k') \<noteq> (v, k) \<Longrightarrow> kv hf ?s v' k' = kv hf s v' k'" "pend_ok s \<Longrightarrow> pend_ok ?s" by blast+
qed

lemma ghostAdd_wf:
  "shard_wf hf s \<Longrightarrow> shard_wf hf (ghostAdd s h)" "kv hf (ghostAdd s h) = kv hf s"
  "pend_ok (ghostAdd s h) = pend_ok s"
proof -
  show "shard_wf hf (ghostAdd s h)" if "shard_wf hf s"
    using that ghostAdd_ok(1,2) unfolding shard_wf_def by metis
  have "sh_index (ghostAdd s h) = sh_index s"
    by (simp add: ghostAdd_def Let_def split: prod.split)
  then show "kv hf (ghostAdd s h) = kv hf s"
    by (simp add: kv_def sh_find_def ghostAdd_ok(2) fun_eq_iff)
  show "pend_ok (ghostAdd s h) = pend_ok s" by (simp add: pend_ok_def ghostAdd_ok)
qed

lemma fill_insert_ok:
  assumes wf: "shard_wf hf s" and fresh: "sh_heap s a = None"
    and fr: "e_freq e \<le> kMaxFreq" and key: "ekey e = (v, k)" and h: "h = hf v k"
    and "\<not> pinned e" and eq: "fill_insert hf s h a e = (landed, s')"
  shows "shard_wf hf s' \<and> (pend_ok s \<longrightarrow> pend_ok s') \<and>
    (landed \<longleftrightarrow> kv hf s v k = None) \<and> (\<not> landed \<longrightarrow> s' = s) \<and>
    (landed \<longrightarrow> kv hf s' v k = Some (core e) \<or> kv hf s' v k = None) \<and>
    ((v', k') \<noteq> (v, k) \<longrightarrow> kv_trimmed hf s s' v' k')"
proof -
  have mk: "mapKey e = map_key v k" using key by (simp add: mapKey_map_key)
  show ?thesis
  proof (cases "sh_find s h (mapKey e)")
    case (Some b)
    then show ?thesis using eq wf by (auto simp: fill_insert_def kv_def mk h kv_trimmed_def)
  next
    case None
    obtain xs ys where i: "sinv hf s xs ys [] (dom (sh_heap s))" using wf by (auto simp: shard_wf_def)
    let ?s = "s\<lparr>sh_heap := (sh_heap s)(a \<mapsto> e)\<rparr>"
    note A = alloc_ok [OF i fresh fr]
    have E: "entries_ok hf s (dom (sh_heap s))" using i by (auto simp: sinv_def)
    have absent: "ekey (ent (sh_heap s) b) \<noteq> (v, k)" if "b \<in> dom (sh_heap s)" for b
      using None that sh_find_None [OF E, of v k] by (simp add: mk h)
    have ne: "ekey (ent (sh_heap ?s) b) \<noteq> ekey (ent (sh_heap ?s) a)" if "b \<in> dom (sh_heap s)" for b
      using absent [OF that] that fresh key by auto
    have hh: "h = ent_hash hf (ent (sh_heap ?s) a)" using key h by (simp add: ent_hash_def)
    define p where "p = (sh_insert ?s a h)\<lparr>sh_fills := sh_fills (sh_insert ?s a h) + 1\<rparr>"
    note INS = insert_ok [OF A ne hh]
    have cp: "cores (sh_heap p) = (cores (sh_heap s))(a \<mapsto> core e)"
      using INS(2) by (simp add: p_def cores_upd_fresh)
    have "dom (sh_heap p) = dom (cores (sh_heap p))" by (auto simp: cores_def)
    then have dp: "dom (sh_heap p) = insert a (dom (sh_heap s))" unfolding cp by (auto simp: cores_def)
    have wfp: "shard_wf hf p" using INS(1) dp by (auto simp: shard_wf_def p_def)
    have kvp: "kv hf p v k = Some (core e)"
      unfolding kv_iff [OF wfp] using key by (intro exI [of _ a]) (simp add: cp)
    have kvo: "kv hf p v' k' = kv hf s v' k'" if "(v', k') \<noteq> (v, k)"
    proof (rule kv_eqI [OF wf wfp])
      fix d assume d: "ekey d = (v', k')"
      then have "d \<noteq> core e" using that key by auto
      moreover have "cores (sh_heap s) a = None" using fresh by (simp add: cores_def)
      ultimately show "(\<exists>b. cores (sh_heap s) b = Some d) \<longleftrightarrow> (\<exists>b. cores (sh_heap p) b = Some d)"
        unfolding cp by (metis fun_upd_apply option.inject option.distinct(1))
    qed
    have s': "s' = evict hf p" "landed" using eq None by (auto simp: fill_insert_def Let_def p_def)
    note V = evict_wf [OF wfp, folded s'(1)]
    have "pinned_addrs (sh_heap p) = pinned_addrs (sh_heap s)"
      unfolding pinned_addrs_alt cp using assms(6) fresh by (auto simp: cores_def)
    then have po: "pend_ok s \<longrightarrow> pend_ok s'"
      using V(5) evicts_pinned_addrs [OF V(3)] INS(5) by (simp add: pend_ok_def p_def)
    have "kv hf s v k = None" using None by (simp add: kv_def mk h)
    moreover have "kv hf s' v k = Some (core e) \<or> kv hf s' v k = None"
      using V(2) [of v k] kvp unfolding kv_trimmed_def by auto
    moreover have "kv_trimmed hf s s' v' k'" if "(v', k') \<noteq> (v, k)"
      using V(2) [of v' k'] unfolding kv_trimmed_def kvo [OF that] .
    ultimately show ?thesis using V(1) po s'(2) by simp
  qed
qed

lemma new_shard_ok: "shard_wf hf (new_shard b q)" "pend_ok (new_shard b q)" "kv hf (new_shard b q) v k = None"
proof -
  have "sinv hf (new_shard b q) [] [] [] (dom (sh_heap (new_shard b q)))"
    by (simp add: sinv_def queues_ok_def entries_ok_def ghost_ok_def new_shard_def index_of_def kSmallPercent_def)
  then show wf: "shard_wf hf (new_shard b q)" unfolding shard_wf_def by blast
  show "pend_ok (new_shard b q)" by (simp add: pend_ok_def pinned_addrs_def new_shard_def)
  show "kv hf (new_shard b q) v k = None"
    using kv_iff [OF wf, of v k] by (cases "kv hf (new_shard b q) v k") (auto simp: cores_def new_shard_def)
qed

lemma setBudget_ok:
  assumes "shard_wf hf s"
  shows "shard_wf hf (sh_setBudget hf b s)" "kv_trimmed hf s (sh_setBudget hf b s) v k"
    "pend_ok s \<Longrightarrow> pend_ok (sh_setBudget hf b s)"
    "sh_bytes (sh_setBudget hf b s) \<le> b + pinned_bytes (sh_heap s)"
proof -
  let ?s = "s\<lparr>sh_budget := b, sh_smallBudget := b * kSmallPercent div 100\<rparr>"
  have wf: "shard_wf hf ?s"
    using assms by (auto simp: shard_wf_def sinv_def queues_ok_def entries_ok_def ghost_ok_def kSmallPercent_def)
  note E = evict_wf [OF wf]
  have k: "kv hf ?s = kv hf s" by (simp add: kv_def sh_find_def fun_eq_iff)
  show "shard_wf hf (sh_setBudget hf b s)" using E(1) by (simp add: sh_setBudget_def)
  show "kv_trimmed hf s (sh_setBudget hf b s) v k"
    using E(2) [of v k] k by (simp add: sh_setBudget_def kv_trimmed_def)
  show "pend_ok (sh_setBudget hf b s)" if "pend_ok s"
    using that E(5) evicts_pinned_addrs [OF E(3)] by (simp add: sh_setBudget_def pend_ok_def)
  show "sh_bytes (sh_setBudget hf b s) \<le> b + pinned_bytes (sh_heap s)"
    using E(7) by (simp add: sh_setBudget_def)
qed

end
