(* ===== verification/Doc_Cache.thy ===== *)
theory Doc_Cache
  imports S3fifo_Cache
begin

text \<open>
  The contract of the document cache (the comment at the head of
  \<^verbatim>\<open>server/cache/doccache.h\<close>) as a locale, what the engine can conclude from it, and its
  interpretation on the S3-FIFO cache.
\<close>

subsection \<open>The cache as a whole\<close>

definition cache_wf :: "hashfn \<Rightarrow> 'm Cache \<Rightarrow> bool" where
  "cache_wf hf c \<longleftrightarrow> (\<exists>k. length (c_shards c) = 2 ^ k) \<and> length (c_shards c) = c_shardMask c + 1 \<and>
     (\<forall>s\<in>set (c_shards c). shard_wf hf s \<and> pend_ok s)"

definition shard_of :: "hashfn \<Rightarrow> 'm Cache \<Rightarrow> u16 \<Rightarrow> bytes \<Rightarrow> 'm Shard" where
  "shard_of hf c v k = c_shards c ! shardFor c (hf v k)"

text \<open>What the cache holds for a key, and how many unapplied writes pin it.\<close>

definition cview :: "hashfn \<Rightarrow> 'm Cache \<Rightarrow> u16 \<Rightarrow> bytes \<Rightarrow> Entry option" where
  "cview hf c v k = kv hf (shard_of hf c v k) v k"

definition cached :: "hashfn \<Rightarrow> 'm Cache \<Rightarrow> u16 \<times> bytes \<Rightarrow> CachedDoc option" where
  "cached hf c = (\<lambda>(v, k). map_option doc_of (cview hf c v k))"

definition pins :: "hashfn \<Rightarrow> 'm Cache \<Rightarrow> u16 \<times> bytes \<Rightarrow> nat" where
  "pins hf c = (\<lambda>(v, k). unat (pending_of (cview hf c v k)))"

definition fresh_for :: "hashfn \<Rightarrow> 'm Cache \<Rightarrow> u16 \<times> bytes \<Rightarrow> addr \<Rightarrow> bool" where
  "fresh_for hf c = (\<lambda>(v, k) a. sh_heap (shard_of hf c v k) a = None)"

lemma shardFor_less: "cache_wf hf c \<Longrightarrow> shardFor c h < length (c_shards c)"
proof -
  assume "cache_wf hf c"
  then obtain k where "c_shardMask c + 1 = 2 ^ k" "length (c_shards c) = c_shardMask c + 1"
    by (auto simp: cache_wf_def)
  moreover have "shardFor c h = home_slot (drop_bit 32 h) (c_shardMask c)"
    by (simp add: shardFor_def home_slot_def)
  ultimately show ?thesis using home_slot_less by metis
qed

lemma cache_wf_shard: "cache_wf hf c \<Longrightarrow> shard_wf hf (shard_of hf c v k) \<and> pend_ok (shard_of hf c v k)"
  using shardFor_less [of hf c "hf v k"] by (auto simp: cache_wf_def shard_of_def)

text \<open>Replacing the shard of a key.\<close>

lemma set_shard_wf:
  assumes "cache_wf hf c" and "shard_wf hf s" and "pend_ok s"
  shows "cache_wf hf (set_shard c i s)"
  using assms set_update_subset_insert [of "c_shards c" i s] by (auto simp: cache_wf_def set_shard_def)

lemma shardFor_set [simp]: "shardFor (set_shard c i s) h = shardFor c h"
  "shardFor (upd_stats c f) h = shardFor c h"
  by (simp_all add: shardFor_def set_shard_def upd_stats_def)

lemma upd_stats_simps [simp]:
  "cache_wf hf (upd_stats c f) = cache_wf hf c" "shard_of hf (upd_stats c f) = shard_of hf c"
  "cview hf (upd_stats c f) = cview hf c"
  by (simp_all add: cache_wf_def upd_stats_def shard_of_def shardFor_def cview_def fun_eq_iff)

lemma cview_set_shard:
  assumes "cache_wf hf c" and "i = shardFor c (hf v k)"
  shows "cview hf (set_shard c i s) v' k' =
    (if shardFor c (hf v' k') = i then kv hf s v' k' else cview hf c v' k')"
  using shardFor_less [OF assms(1)] assms(2)
  by (simp add: cview_def shard_of_def) (simp add: set_shard_def)

text \<open>One shard operation seen from the whole cache: what it does to its key, and that other
  keys are at most evicted.\<close>

definition key_trimmed :: "hashfn \<Rightarrow> 'm Cache \<Rightarrow> 'm Cache \<Rightarrow> u16 \<Rightarrow> bytes \<Rightarrow> bool" where
  "key_trimmed hf c c' v k \<longleftrightarrow> cview hf c' v k = cview hf c v k \<or>
     (cview hf c' v k = None \<and> (\<exists>e. cview hf c v k = Some e \<and> \<not> pinned e))"

lemma key_trimmed_refl [simp]: "key_trimmed hf c c v k"
  by (simp add: key_trimmed_def)

lemma lift_shard:
  assumes "cache_wf hf c" and "i = shardFor c (hf v k)" and "shard_wf hf s" and "pend_ok s"
    and "\<And>v' k'. (v', k') \<noteq> (v, k) \<Longrightarrow> kv_trimmed hf (shard_of hf c v k) s v' k'"
  shows "cache_wf hf (set_shard c i s)" and "cview hf (set_shard c i s) v k = kv hf s v k"
    and "(v', k') \<noteq> (v, k) \<Longrightarrow> key_trimmed hf c (set_shard c i s) v' k'"
proof -
  show "cache_wf hf (set_shard c i s)" using set_shard_wf assms(1,3,4) .
  show "cview hf (set_shard c i s) v k = kv hf s v k"
    using cview_set_shard [OF assms(1,2)] assms(2) by simp
  assume ne: "(v', k') \<noteq> (v, k)"
  show "key_trimmed hf c (set_shard c i s) v' k'"
  proof (cases "shardFor c (hf v' k') = i")
    case True
    then have "shard_of hf c v' k' = shard_of hf c v k" using assms(2) by (simp add: shard_of_def)
    then show ?thesis
      using assms(5) [OF ne] True cview_set_shard [OF assms(1,2), of s v' k']
      by (simp add: key_trimmed_def kv_trimmed_def cview_def)
  qed (simp add: key_trimmed_def cview_set_shard [OF assms(1,2)])
qed

subsection \<open>The operations on the view\<close>

lemma entry_facts [simp]:
  "e_freq (create v k b n f x d del) \<le> kMaxFreq" "ekey (create v k b n f x d del) = (v, k)"
  "e_freq (createShared v k b cap f x d del) \<le> kMaxFreq" "ekey (createShared v k b cap f x d del) = (v, k)"
  "e_pending (create v k b n f x d del) = 0"
  by (simp_all add: create_def createShared_def)

lemma putEntry_ok:
  assumes wf: "cache_wf hf c" and "fresh_for hf c (v, k) a" and "e_freq e \<le> kMaxFreq"
    and "ekey e = (v, k)" and nowrap: "pending_of (cview hf c v k) + 1 \<noteq> 0"
  defines "c' \<equiv> putEntry hf c (hf v k) a e"
  shows "cache_wf hf c'"
    and "cview hf c' v k = Some (core (e\<lparr>e_pending := pending_of (cview hf c v k) + 1\<rparr>))"
    and "(v', k') \<noteq> (v, k) \<Longrightarrow> key_trimmed hf c c' v' k'"
proof -
  let ?s = "shard_of hf c v k"
  have S: "shard_wf hf ?s" "pend_ok ?s" using cache_wf_shard [OF wf] by auto
  have fr: "sh_heap ?s a = None" using assms(2) by (simp add: fresh_for_def)
  have nw: "pending_of (kv hf ?s v k) + 1 \<noteq> 0" using nowrap by (simp add: cview_def)
  note P = sh_putEntry_ok [OF S(1) fr assms(3,4) refl nw]
  have c': "c' = set_shard c (shardFor c (hf v k)) (sh_putEntry hf ?s (hf v k) a e)"
    by (simp add: c'_def putEntry_def Let_def shard_of_def)
  note L = lift_shard [OF wf refl P(1) P(4) [OF S(2)] P(3), folded c']
  show "cache_wf hf c'" by (rule L(1))
  show "cview hf c' v k = Some (core (e\<lparr>e_pending := pending_of (cview hf c v k) + 1\<rparr>))"
    using L(2) P(2) by (simp add: cview_def)
  show "key_trimmed hf c c' v' k'" if "(v', k') \<noteq> (v, k)"
    using that by (intro L(3))
qed

lemma Get_ok:
  assumes wf: "cache_wf hf c" and get: "Get hf c v k = (r, c')"
  shows "r = cached hf c (v, k)" and "cache_wf hf c'" and "cview hf c' v' k' = cview hf c v' k'"
proof -
  let ?s = "shard_of hf c v k"
  obtain r0 s where g: "sh_get hf ?s v k = (r0, s)" by force
  note S = cache_wf_shard [OF wf, of v k]
  note G = sh_get_ok [OF S [THEN conjunct1] g]
  have r: "r = r0" and c': "\<exists>f. c' = upd_stats (set_shard c (shardFor c (hf v k)) s) f"
    using get g by (auto simp: Get_def Let_def shard_of_def split: option.splits prod.splits)
  have kv: "kv_trimmed hf ?s s v'' k''" for v'' k'' by (simp add: kv_trimmed_def G(3))
  note L = lift_shard [OF wf refl G(2) G(4) [OF S [THEN conjunct2]] kv]
  show "r = cached hf c (v, k)" using r G(1) by (simp add: cached_def cview_def)
  show "cache_wf hf c'" using c' L(1) by auto
  have "cview hf (set_shard c (shardFor c (hf v k)) s) v' k' = cview hf c v' k'"
    using cview_set_shard [OF wf refl, of v k s v' k'] G(3) [of v' k']
    by (auto simp: cview_def shard_of_def)
  then show "cview hf c' v' k' = cview hf c v' k'" using c' by auto
qed

lemma Mark_ok:
  assumes wf: "cache_wf hf c" and pin: "pinned (the (cview hf c v k)) \<or> cview hf c v k = None"
    and c'_def: "c' = MarkPersisted F hf c v k n"
  shows "cache_wf hf c'"
    and "cview hf c v k = None \<Longrightarrow> cview hf c' v k = None"
    and "cview hf c v k = Some e \<Longrightarrow>
      cview hf c' v k = Some (acked e n) \<or> (cview hf c' v k = None \<and> e_pending e = 1)"
    and "(v', k') \<noteq> (v, k) \<Longrightarrow> key_trimmed hf c c' v' k'"
proof -
  let ?s = "shard_of hf c v k"
  let ?s' = "sh_markPersisted F hf (c_seqnoIndex c) ?s v k n"
  note S = cache_wf_shard [OF wf, of v k]
  have p: "\<forall>d. kv hf ?s v k = Some d \<longrightarrow> pinned d"
    using pin by (auto simp: cview_def)
  note M = sh_mark_ok [OF S [THEN conjunct1] p refl, where F = F and si = "c_seqnoIndex c" and n = n]
  have c': "c' = set_shard c (shardFor c (hf v k)) ?s'"
    by (simp add: c'_def MarkPersisted_def Let_def shard_of_def)
  have W: "shard_wf hf ?s'" "pend_ok ?s'" using M S by simp_all
  have T: "(v'', k'') \<noteq> (v, k) \<Longrightarrow> kv_trimmed hf ?s ?s' v'' k''" for v'' k'' using M by blast
  note L = lift_shard [OF wf refl W T, folded c']
  show "cache_wf hf c'" by (rule L(1))
  have at: "cview hf c' v k = kv hf ?s' v k" by (rule L(2))
  show "cview hf c' v k = None" if "cview hf c v k = None"
    using M that at by (simp add: cview_def)
  show "cview hf c' v k = Some (acked e n) \<or> (cview hf c' v k = None \<and> e_pending e = 1)"
    if "cview hf c v k = Some e"
    using M that at by (simp add: cview_def)
  show "key_trimmed hf c c' v' k'" if "(v', k') \<noteq> (v, k)"
    using that by (intro L(3))
qed

lemma Erase_ok:
  assumes wf: "cache_wf hf c"
    and c'_def: "c' = Erase hf c v k"
  shows "cache_wf hf c'" and "cview hf c' v k = None"
    and "(v', k') \<noteq> (v, k) \<Longrightarrow> cview hf c' v' k' = cview hf c v' k'"
proof -
  let ?s = "shard_of hf c v k"
  note S = cache_wf_shard [OF wf, of v k]
  note E = sh_erase_ok [OF S [THEN conjunct1], where v = v and k = k]
  have c': "c' = set_shard c (shardFor c (hf v k)) (sh_erase hf ?s v k)"
    by (simp add: c'_def Erase_def Let_def shard_of_def)
  show "cache_wf hf c'" unfolding c' by (rule set_shard_wf [OF wf E(1) E(4)]) (use S in simp)
  show "cview hf c' v k = None" unfolding c' cview_set_shard [OF wf refl] using E(2) by simp
  show "cview hf c' v' k' = cview hf c v' k'" if "(v', k') \<noteq> (v, k)"
    unfolding c' cview_set_shard [OF wf refl] using E(3) [OF that]
    by (simp add: cview_def shard_of_def)
qed

lemma SetBudget_ok:
  assumes wf: "cache_wf hf c"
  shows "cache_wf hf (SetBudget hf c n)" and "key_trimmed hf c (SetBudget hf c n) v k"
proof -
  show "cache_wf hf (SetBudget hf c n)"
    using wf by (auto simp: cache_wf_def SetBudget_def setBudget_ok)
  have S: "shard_wf hf (shard_of hf c v k)" using cache_wf_shard [OF wf] by simp
  have "shard_of hf (SetBudget hf c n) v k =
      sh_setBudget hf (n div length (c_shards c)) (shard_of hf c v k)"
    using shardFor_less [OF wf, of "hf v k"] by (simp add: shard_of_def SetBudget_def shardFor_def)
  then show "key_trimmed hf c (SetBudget hf c n) v k"
    using setBudget_ok(2) [OF S] by (simp add: key_trimmed_def kv_trimmed_def cview_def)
qed

text \<open>A step that changes nothing a lookup sees: bookkeeping of the fill's first two lock scopes.\<close>

definition quiet :: "hashfn \<Rightarrow> 'm Cache \<Rightarrow> 'm Cache \<Rightarrow> bool" where
  "quiet hf c c' \<longleftrightarrow> cache_wf hf c' \<and> cview hf c' = cview hf c \<and> c_shardMask c' = c_shardMask c \<and>
     length (c_shards c') = length (c_shards c) \<and> (\<forall>i<length (c_shards c). sh_heap (c_shards c' ! i) = sh_heap (c_shards c ! i))"

lemma quiet_refl: "cache_wf hf c \<Longrightarrow> quiet hf c c"
  by (simp add: quiet_def)

lemma quiet_trans: "quiet hf c d \<Longrightarrow> quiet hf d e \<Longrightarrow> quiet hf c e"
  by (auto simp: quiet_def cache_wf_def)

lemma quiet_shard:
  assumes wf: "cache_wf hf c" and "i = shardFor c (hf v k)"
    and "shard_wf hf s" "pend_ok s" "kv hf s = kv hf (c_shards c ! i)" "sh_heap s = sh_heap (c_shards c ! i)"
  shows "quiet hf c (set_shard c i s)"
proof -
  have "cview hf (set_shard c i s) v' k' = cview hf c v' k'" for v' k'
    using cview_set_shard [OF wf assms(2)] assms(5) by (simp add: cview_def shard_of_def)
  moreover have "sh_heap (c_shards (set_shard c i s) ! j) = sh_heap (c_shards c ! j)"
    if "j < length (c_shards c)" for j
    using assms(6) that by (cases "j = i") (simp_all add: set_shard_def)
  ultimately show ?thesis
    using set_shard_wf [OF wf assms(3,4)] by (auto simp: quiet_def fun_eq_iff set_shard_def)
qed

lemma pend_ok_fields [simp]: "pend_ok (s\<lparr>sh_fillsDeferred := n\<rparr>) = pend_ok s" "pend_ok (s\<lparr>sh_seq := q\<rparr>) = pend_ok s"
  by (simp_all add: pend_ok_def)

lemma fill_doorkeeper_quiet:
  assumes "fill_doorkeeper s h = (go, s')" and "shard_wf hf s"
  shows "shard_wf hf s' \<and> (pend_ok s \<longrightarrow> pend_ok s') \<and> kv hf s' = kv hf s \<and> sh_heap s' = sh_heap s"
  using assms by (auto simp: fill_doorkeeper_def Let_def ghostAdd_wf ghostAdd_ok(2) split: if_splits)

lemma fill_last_ok:
  assumes wf: "cache_wf hf c" and "sh_heap (shard_of hf c v k) a = None"
    and i: "i = shardFor c (hf v k)" and f: "fill_insert hf (c_shards c ! i) (hf v k) a (create v k b n fl x d False) = (landed, s)"
    and c': "c' = (if landed then set_shard c i s else upd_stats c rejected_stat)"
  shows "cache_wf hf c' \<and>
    (case cview hf c v k of
       Some e \<Rightarrow> cview hf c' v k = Some e
     | None \<Rightarrow> cview hf c' v k = None \<or> cview hf c' v k = Some (core (create v k b n fl x d False))) \<and>
    ((v', k') \<noteq> (v, k) \<longrightarrow> key_trimmed hf c c' v' k')"
proof -
  let ?s = "shard_of hf c v k"
  note S = cache_wf_shard [OF wf, of v k]
  have f': "fill_insert hf ?s (hf v k) a (create v k b n fl x d False) = (landed, s)"
    using f i by (simp add: shard_of_def)
  have L0: "shard_wf hf s" "pend_ok s" "landed \<longleftrightarrow> kv hf ?s v k = None"
    "landed \<Longrightarrow> kv hf s v k = Some (core (create v k b n fl x d False)) \<or> kv hf s v k = None"
    using fill_insert_ok [OF S [THEN conjunct1] assms(2) _ _ refl _ f', of v k] S by simp_all
  have L1: "kv_trimmed hf ?s s v' k'" if "(v', k') \<noteq> (v, k)" for v' k'
    using fill_insert_ok [OF S [THEN conjunct1] assms(2) _ _ refl _ f', of v' k'] that by simp
  show ?thesis
  proof (cases landed)
    case True
    note L = lift_shard [OF wf i L0(1,2) L1]
    have "cview hf c v k = None" using True L0(3) by (simp add: cview_def)
    then show ?thesis using True L0(4) L c' by auto
  next
    case False
    then show ?thesis using wf c' L0(3) by (auto simp: cview_def key_trimmed_def)
  qed
qed

lemma PutIfAbsent_ok:
  assumes wf: "cache_wf hf c" and fresh: "fresh_for hf c (v, k) a"
    and c': "c' = PutIfAbsent F hf c a v k b n fl x d"
  shows "cache_wf hf c' \<and>
    (case cview hf c v k of
       Some e \<Rightarrow> cview hf c' v k = Some e
     | None \<Rightarrow> cview hf c' v k = None \<or> cview hf c' v k = Some (core (create v k b n fl x d False))) \<and>
    ((v', k') \<noteq> (v, k) \<longrightarrow> key_trimmed hf c c' v' k')"
proof -
  define i where "i = shardFor c (hf v k)"
  have li: "i < length (c_shards c)" using shardFor_less [OF wf] by (simp add: i_def)
  define c1 where "c1 = (if c_seqnoIndex c \<and> n \<noteq> 0
    then set_shard c i (sh_note F (c_shards c ! i) (hf v k) n False 0 False) else c)"
  have D: "c' = (if \<not> fill_check hf (c_shards c1 ! i) v k then upd_stats c1 rejected_stat
     else let (go, s) = (if c_fillDoorkeeper c1 then fill_doorkeeper (c_shards c1 ! i) (hf v k)
                         else (True, c_shards c1 ! i))
          in if \<not> go then set_shard c1 i s
             else let (landed, s2) = fill_insert hf (c_shards (set_shard c1 i s) ! i) (hf v k) a
                        (create v k b n fl x d False)
                  in if landed then set_shard (set_shard c1 i s) i s2
                     else upd_stats (set_shard c1 i s) rejected_stat)"
    by (simp only: c' PutIfAbsent_def Let_def c1_def i_def)
  have Si: "shard_wf hf (c_shards c ! i)" "pend_ok (c_shards c ! i)"
    using cache_wf_shard [OF wf, of v k] by (simp_all add: shard_of_def i_def)
  have q1: "quiet hf c c1"
    unfolding c1_def using quiet_refl [OF wf] quiet_shard [OF wf i_def] Si by simp
  have wf1: "cache_wf hf c1" using q1 by (simp add: quiet_def)
  have i1: "i = shardFor c1 (hf v k)" using q1 by (simp add: quiet_def shardFor_def i_def)
  have S1: "shard_wf hf (c_shards c1 ! i)" "pend_ok (c_shards c1 ! i)"
    using cache_wf_shard [OF wf1, of v k] i1 by (simp_all add: shard_of_def)
  show ?thesis
  proof (cases "fill_check hf (c_shards c1 ! i) v k")
    case False
    then have "c' = upd_stats c1 rejected_stat" by (simp add: D)
    then show ?thesis using q1 by (auto simp: quiet_def key_trimmed_def split: option.split)
  next
    case True
    obtain go s where g: "(if c_fillDoorkeeper c1 then fill_doorkeeper (c_shards c1 ! i) (hf v k)
        else (True, c_shards c1 ! i)) = (go, s)" by force
    define c2 where "c2 = set_shard c1 i s"
    have "shard_wf hf s \<and> pend_ok s \<and> kv hf s = kv hf (c_shards c1 ! i) \<and> sh_heap s = sh_heap (c_shards c1 ! i)"
      using g fill_doorkeeper_quiet [OF _ S1(1), of "hf v k" go s] S1 by (cases "c_fillDoorkeeper c1") simp_all
    then have "quiet hf c1 c2" unfolding c2_def by (intro quiet_shard [OF wf1 i1]) auto
    then have q2: "quiet hf c c2" using quiet_trans [OF q1] by simp
    then have wf2: "cache_wf hf c2" and v2: "cview hf c2 = cview hf c" by (simp_all add: quiet_def)
    have i2: "i = shardFor c2 (hf v k)" using q2 by (simp add: quiet_def shardFor_def i_def)
    have fr: "sh_heap (shard_of hf c2 v k) a = None"
      using q2 fresh li i2 i_def by (simp add: quiet_def fresh_for_def shard_of_def)
    have eq: "c' = (if \<not> go then c2 else
        let (landed, s) = fill_insert hf (c_shards c2 ! i) (hf v k) a (create v k b n fl x d False)
        in if landed then set_shard c2 i s else upd_stats c2 rejected_stat)"
      unfolding D c2_def using True g by simp
    obtain landed s2 where f: "fill_insert hf (c_shards c2 ! i) (hf v k) a (create v k b n fl x d False) = (landed, s2)"
      by force
    show ?thesis
    proof (cases go)
      case True
      then have "c' = (if landed then set_shard c2 i s2 else upd_stats c2 rejected_stat)"
        using eq f by simp
      note L = fill_last_ok [OF wf2 fr i2 f this, of v' k']
      then show ?thesis unfolding v2 key_trimmed_def by simp
    next
      case False
      then show ?thesis using eq wf2 v2 by (auto simp: key_trimmed_def split: option.split)
    qed
  qed
qed

subsection \<open>The contract\<close>

text \<open>
  The calls the engine makes on a cache. A key is a vbucket id and key bytes. \<open>Write\<close> is the
  write-through of a mutation, \<open>Fill\<close> the insertion of a disk read, \<open>Ack\<close> the notice that one
  queued write of the key has been applied, \<open>Drop\<close> the erase after a refused enqueue, \<open>Resize\<close> a
  new budget. New entries' addresses are arguments.
\<close>

datatype 'k cache_op = Lookup 'k | Write addr 'k CachedDoc | Fill addr 'k CachedDoc | Ack 'k u64
  | Drop 'k | Resize nat

definition same_doc :: "CachedDoc \<Rightarrow> CachedDoc \<Rightarrow> bool" where
  "same_doc d d' \<longleftrightarrow> d\<lparr>cd_seqno := 0\<rparr> = d'\<lparr>cd_seqno := 0\<rparr>"

fun ok_run :: "('c \<Rightarrow> 'o \<Rightarrow> bool) \<Rightarrow> ('c \<Rightarrow> 'o \<Rightarrow> 'c) \<Rightarrow> 'c \<Rightarrow> 'o list \<Rightarrow> bool" where
  "ok_run ok step c [] = True"
| "ok_run ok step c (x # xs) = (ok c x \<and> ok_run ok step (step c x) xs)"

text \<open>What the calls so far say about one key: the last document written to it, and how many of
  its writes are neither applied nor dropped.\<close>

fun track :: "'k \<Rightarrow> CachedDoc option \<times> nat \<Rightarrow> 'k cache_op \<Rightarrow> CachedDoc option \<times> nat" where
  "track k (d, n) (Write a k' d') = (if k' = k then (Some d', n + 1) else (d, n))"
| "track k (d, n) (Ack k' s) = (if k' = k then (d, n - 1) else (d, n))"
| "track k (d, n) (Drop k') = (if k' = k then (d, 0) else (d, n))"
| "track k (d, n) _ = (d, n)"

lemma same_doc_refl [simp]: "same_doc d d"
  by (simp add: same_doc_def)

lemma same_doc_sym: "same_doc d d' \<Longrightarrow> same_doc d' d"
  by (simp add: same_doc_def)

lemma same_doc_trans: "same_doc d d' \<Longrightarrow> same_doc d' d'' \<Longrightarrow> same_doc d d''"
  by (simp add: same_doc_def)

lemma same_doc_seqno [simp]: "same_doc (d\<lparr>cd_seqno := n\<rparr>) d' = same_doc d d'"
  "same_doc d (d'\<lparr>cd_seqno := n\<rparr>) = same_doc d d'"
  by (simp_all add: same_doc_def)

locale write_through_cache =
  fixes inv :: "'c \<Rightarrow> bool"
    and docs :: "'c \<Rightarrow> 'k \<Rightarrow> CachedDoc option"
    and pin :: "'c \<Rightarrow> 'k \<Rightarrow> nat"
    and ok :: "'c \<Rightarrow> 'k cache_op \<Rightarrow> bool"
    and step :: "'c \<Rightarrow> 'k cache_op \<Rightarrow> 'c"
    and result :: "'c \<Rightarrow> 'k \<Rightarrow> CachedDoc option"
  assumes step_inv: "inv c \<Longrightarrow> ok c x \<Longrightarrow> inv (step c x)"
    and absent_unpinned: "docs c k = None \<Longrightarrow> pin c k = 0"
    and lookup_result: "inv c \<Longrightarrow> result c k = docs c k"
    and lookup_docs: "inv c \<Longrightarrow> docs (step c (Lookup k)) = docs c \<and> pin (step c (Lookup k)) = pin c"
    and write_docs: "inv c \<Longrightarrow> ok c (Write a k d) \<Longrightarrow> pin (step c (Write a k d)) k = pin c k + 1 \<and>
      (\<exists>d'. docs (step c (Write a k d)) k = Some d' \<and> same_doc d' d)"
    and fill_docs: "inv c \<Longrightarrow> ok c (Fill a k d) \<Longrightarrow> docs c k = Some d0 \<Longrightarrow>
      docs (step c (Fill a k d)) k = Some d0 \<and> pin (step c (Fill a k d)) k = pin c k"
    and fill_absent: "inv c \<Longrightarrow> ok c (Fill a k d) \<Longrightarrow> docs c k = None \<Longrightarrow>
      pin (step c (Fill a k d)) k = 0 \<and>
      (docs (step c (Fill a k d)) k = None \<or> docs (step c (Fill a k d)) k = Some d)"
    and ack_docs: "inv c \<Longrightarrow> ok c (Ack k n) \<Longrightarrow> pin (step c (Ack k n)) k = pin c k - 1 \<and>
      (1 < pin c k \<longrightarrow> (\<exists>d d'. docs c k = Some d \<and> docs (step c (Ack k n)) k = Some d' \<and> same_doc d' d))"
    and drop_docs: "inv c \<Longrightarrow> docs (step c (Drop k)) k = None"
    and others: "inv c \<Longrightarrow> ok c x \<Longrightarrow>
      (\<forall>a d n. x \<noteq> Write a k d \<and> x \<noteq> Fill a k d \<and> x \<noteq> Ack k n \<and> x \<noteq> Drop k) \<Longrightarrow>
      pin (step c x) k = pin c k \<and> (0 < pin c k \<longrightarrow> docs (step c x) k = docs c k)"
begin

lemma run_inv: "inv c \<Longrightarrow> ok_run ok step c xs \<Longrightarrow> inv (foldl step c xs)"
  by (induction xs arbitrary: c) (auto intro: step_inv)

text \<open>One call keeps the agreement between the cache and the history of the key.\<close>

definition agrees :: "'c \<Rightarrow> 'k \<Rightarrow> CachedDoc option \<times> nat \<Rightarrow> bool" where
  "agrees c k t \<longleftrightarrow> pin c k = snd t \<and>
     (0 < snd t \<longrightarrow> (\<exists>d d'. docs c k = Some d \<and> fst t = Some d' \<and> same_doc d d'))"

lemma agrees_step:
  assumes "inv c" and "ok c x" and "agrees c k t"
  shows "agrees (step c x) k (track k t x)"
proof -
  obtain d n where t: "t = (d, n)" by force
  have oth: "agrees (step c x) k t" if "\<forall>a d n. x \<noteq> Write a k d \<and> x \<noteq> Fill a k d \<and> x \<noteq> Ack k n \<and> x \<noteq> Drop k"
    using others [OF assms(1,2) that] assms(3) by (auto simp: agrees_def)
  show ?thesis
  proof (cases x)
    case (Write a k' d')
    then show ?thesis using oth write_docs [OF assms(1), of a k d'] assms(2,3) t
      by (cases "k' = k") (auto simp: agrees_def)
  next
    case (Fill a k' d')
    then show ?thesis
    proof (cases "k' = k \<and> docs c k \<noteq> None")
      case True
      then show ?thesis using Fill fill_docs [OF assms(1), of a k d'] assms(2,3) t
        by (auto simp: agrees_def)
    next
      case False
      then show ?thesis using Fill oth fill_absent [OF assms(1), of a k d'] absent_unpinned [of c k] assms(2,3) t
        by (cases "k' = k") (auto simp: agrees_def)
    qed
  next
    case (Ack k' m)
    show ?thesis
    proof (cases "k' = k")
      case True
      then show ?thesis using Ack ack_docs [OF assms(1), of k m] assms(2,3) t
        by (auto simp: agrees_def dest: same_doc_trans)
    qed (use Ack oth t in auto)
  next
    case (Drop k')
    then show ?thesis
      using oth drop_docs [OF assms(1), of k] absent_unpinned [of "step c (Drop k)" k] t
      by (cases "k' = k") (auto simp: agrees_def)
  qed (use oth t in auto)
qed

lemma agrees_run:
  "inv c \<Longrightarrow> ok_run ok step c xs \<Longrightarrow> agrees c k t \<Longrightarrow> agrees (foldl step c xs) k (foldl (track k) t xs)"
proof (induction xs arbitrary: c t)
  case (Cons x xs)
  then show ?case using step_inv [of c x] agrees_step [of c x k t] by simp
qed simp

text \<open>A reader sees the last write of a key for as long as one of its writes is unapplied.\<close>

lemma read_last_write:
  assumes "inv c" and "pin c k = 0" and "ok_run ok step c xs"
    and "foldl (track k) (None, 0) xs = (d, n)" and "0 < n"
  shows "\<exists>d0 d1. d = Some d0 \<and> result (foldl step c xs) k = Some d1 \<and> same_doc d1 d0"
proof -
  have "agrees c k (None, 0)" using assms(2) by (simp add: agrees_def)
  then have "agrees (foldl step c xs) k (d, n)"
    using agrees_run [OF assms(1,3)] assms(4) by metis
  then show ?thesis
    using assms(5) lookup_result [OF run_inv [OF assms(1,3)]] by (auto simp: agrees_def)
qed

end

subsection \<open>The S3-FIFO cache keeps the contract\<close>

text \<open>The engine's calls on this cache, with the arguments the source passes.\<close>

fun cache_step :: "'m F14 \<Rightarrow> hashfn \<Rightarrow> 'm Cache \<Rightarrow> (u16 \<times> bytes) cache_op \<Rightarrow> 'm Cache" where
  "cache_step F hf c (Lookup (v, k)) = snd (Get hf c v k)"
| "cache_step F hf c (Write a (v, k) d) =
     Put hf c a v k (cd_value d) (cd_flags d) (cd_expiry d) (cd_datatype d) (cd_deleted d)"
| "cache_step F hf c (Fill a (v, k) d) =
     PutIfAbsent F hf c a v k (cd_value d) (cd_seqno d) (cd_flags d) (cd_expiry d) (cd_datatype d)"
| "cache_step F hf c (Ack (v, k) n) = MarkPersisted F hf c v k n"
| "cache_step F hf c (Drop (v, k)) = Erase hf c v k"
| "cache_step F hf c (Resize n) = SetBudget hf c n"

text \<open>What a call relies on: a fresh address, no more than \<open>2\<^sup>3\<^sup>2 - 1\<close> unapplied writes of a key, fills
  of live documents (the read path fills no tombstones), and an acknowledgement only for a key
  that is pinned or no longer resident.\<close>

fun call_ok :: "hashfn \<Rightarrow> 'm Cache \<Rightarrow> (u16 \<times> bytes) cache_op \<Rightarrow> bool" where
  "call_ok hf c (Write a k d) \<longleftrightarrow> fresh_for hf c k a \<and> pins hf c k < 2 ^ 32 - 1"
| "call_ok hf c (Fill a k d) \<longleftrightarrow> fresh_for hf c k a \<and> \<not> cd_deleted d"
| "call_ok hf c (Ack k n) \<longleftrightarrow> 0 < pins hf c k \<or> cached hf c k = None"
| "call_ok hf c _ \<longleftrightarrow> True"

lemma cached_pins_view:
  "cached hf c (v, k) = map_option doc_of (cview hf c v k)"
  "pins hf c (v, k) = unat (pending_of (cview hf c v k))"
  by (simp_all add: cached_def pins_def)

lemma pending_of_simps [simp]: "pending_of None = 0" "pending_of (Some e) = e_pending e"
  by (simp_all add: pending_of_def)

lemma key_trimmed_docs:
  assumes "key_trimmed hf c c' v k"
  shows "pins hf c' (v, k) = pins hf c (v, k) \<and>
    (0 < pins hf c (v, k) \<longrightarrow> cached hf c' (v, k) = cached hf c (v, k))"
  using assms unfolding key_trimmed_def cached_pins_view by (auto simp: unat_gt_0 word_gt_0)

lemma Put_step:
  assumes wf: "cache_wf hf c" and ok: "call_ok hf c (Write a (v, k) d)"
    and c': "c' = cache_step F hf c (Write a (v, k) d)"
  shows "cache_wf hf c' \<and> pins hf c' (v, k) = pins hf c (v, k) + 1 \<and>
    cached hf c' (v, k) = Some (d\<lparr>cd_seqno := 0\<rparr>) \<and>
    ((v', k') \<noteq> (v, k) \<longrightarrow> key_trimmed hf c c' v' k')"
proof -
  let ?e = "create v k (cd_value d) 0 (cd_flags d) (cd_expiry d) (cd_datatype d) (cd_deleted d)"
  have p: "unat (pending_of (cview hf c v k)) < 2 ^ 32 - 1" using ok by (simp add: cached_pins_view)
  then have n: "unat (pending_of (cview hf c v k) + 1) = unat (pending_of (cview hf c v k)) + 1"
    by (simp add: unat_word_ariths)
  then have nz: "pending_of (cview hf c v k) + 1 \<noteq> 0" by (metis add_is_0 unat_0 zero_neq_one)
  have fr: "fresh_for hf c (v, k) a" using ok by simp
  have e: "c' = putEntry hf c (hf v k) a ?e" by (simp add: c' Put_def)
  note P = putEntry_ok [OF wf fr _ _ nz, where e = "?e", folded e, simplified]
  have "doc_of (core (?e\<lparr>e_pending := x\<rparr>)) = d\<lparr>cd_seqno := 0\<rparr>" for x
    by (simp add: doc_of_def create_def core_def strip_def)
  then show ?thesis using P n by (auto simp: cached_pins_view core_def strip_def)
qed

lemma Fill_step:
  assumes wf: "cache_wf hf c" and ok: "call_ok hf c (Fill a (v, k) d)"
    and c': "c' = cache_step F hf c (Fill a (v, k) d)"
  shows "cache_wf hf c' \<and>
    (cached hf c (v, k) = Some d0 \<longrightarrow>
       cached hf c' (v, k) = Some d0 \<and> pins hf c' (v, k) = pins hf c (v, k)) \<and>
    (cached hf c (v, k) = None \<longrightarrow> pins hf c' (v, k) = 0 \<and>
       (cached hf c' (v, k) = None \<or> cached hf c' (v, k) = Some d)) \<and>
    ((v', k') \<noteq> (v, k) \<longrightarrow> key_trimmed hf c c' v' k')"
proof -
  let ?e = "create v k (cd_value d) (cd_seqno d) (cd_flags d) (cd_expiry d) (cd_datatype d) False"
  have "fresh_for hf c (v, k) a" "\<not> cd_deleted d" using ok by simp_all
  note P = PutIfAbsent_ok [OF wf this(1), where F = F and b = "cd_value d" and n = "cd_seqno d" and
      fl = "cd_flags d" and x = "cd_expiry d" and d = "cd_datatype d" and v' = v' and k' = k',
      OF c' [unfolded cache_step.simps]]
  have "doc_of (core ?e) = d" "e_pending (core ?e) = 0"
    using \<open>\<not> cd_deleted d\<close> by (simp_all add: doc_of_def create_def core_def strip_def)
  then show ?thesis using P by (cases "cview hf c v k") (auto simp: cached_pins_view)
qed

lemma Ack_step:
  assumes wf: "cache_wf hf c" and ok: "call_ok hf c (Ack (v, k) n)"
    and c': "c' = cache_step F hf c (Ack (v, k) n)"
  shows "cache_wf hf c' \<and> pins hf c' (v, k) = pins hf c (v, k) - 1 \<and>
    (1 < pins hf c (v, k) \<longrightarrow> (\<exists>d d'. cached hf c (v, k) = Some d \<and> cached hf c' (v, k) = Some d' \<and>
       same_doc d' d)) \<and>
    ((v', k') \<noteq> (v, k) \<longrightarrow> key_trimmed hf c c' v' k')"
proof -
  have pin: "pinned (the (cview hf c v k)) \<or> cview hf c v k = None"
    using ok by (cases "cview hf c v k") (auto simp: cached_pins_view unat_gt_0 word_gt_0)
  note M = Mark_ok [OF wf pin, where F = F and n = n and c' = c']
  have eq: "c' = MarkPersisted F hf c v k n" using c' by simp
  have "pins hf c' (v, k) = pins hf c (v, k) - 1 \<and>
    (1 < pins hf c (v, k) \<longrightarrow> (\<exists>d d'. cached hf c (v, k) = Some d \<and> cached hf c' (v, k) = Some d' \<and>
       same_doc d' d))"
  proof (cases "cview hf c v k")
    case None
    then show ?thesis using M(2) [OF eq] by (simp add: cached_pins_view)
  next
    case (Some e)
    have "e_pending e \<noteq> 0" using pin Some by (simp add: word_gt_0)
    then have u: "unat (e_pending e - 1) = unat (e_pending e) - 1" by (simp add: unat_minus_one)
    have "same_doc (doc_of (acked e n)) (doc_of e)"
      by (simp add: acked_def doc_of_def same_doc_def)
    moreover have "e_pending (acked e n) = e_pending e - 1" by (simp add: acked_def)
    ultimately show ?thesis using M(3) [OF eq Some] Some u by (auto simp: cached_pins_view)
  qed
  then show ?thesis using M(1,4) [OF eq] by blast
qed

lemma Get_step:
  assumes "cache_wf hf c"
  shows "fst (Get hf c v k) = cached hf c (v, k)" and "cache_wf hf (snd (Get hf c v k))"
    and "cview hf (snd (Get hf c v k)) = cview hf c"
  using Get_ok [OF assms prod.collapse [symmetric], of v k] by (simp_all add: fun_eq_iff)

lemma cache_step_others:
  assumes wf: "cache_wf hf c" and ok: "call_ok hf c x"
    and x: "\<forall>a d n. x \<noteq> Write a (v, k) d \<and> x \<noteq> Fill a (v, k) d \<and> x \<noteq> Ack (v, k) n \<and> x \<noteq> Drop (v, k)"
  shows "key_trimmed hf c (cache_step F hf c x) v k"
proof (cases x)
  case (Lookup q)
  then show ?thesis using Get_step(3) [OF wf] by (cases q) (simp add: key_trimmed_def)
next
  case (Write a q d)
  then show ?thesis using x ok Put_step [OF wf, where v' = v and k' = k] by (cases q) auto
next
  case (Fill a q d)
  then show ?thesis using x ok Fill_step [OF wf, where v' = v and k' = k] by (cases q) auto
next
  case (Ack q n)
  then show ?thesis using x ok Ack_step [OF wf, where v' = v and k' = k] by (cases q) auto
next
  case (Drop q)
  then show ?thesis using x Erase_ok(3) [OF wf refl] by (cases q) (auto simp: key_trimmed_def)
next
  case (Resize n)
  then show ?thesis using SetBudget_ok(2) [OF wf] by simp
qed

lemma cache_step_wf:
  assumes wf: "cache_wf hf c" and ok: "call_ok hf c x"
  shows "cache_wf hf (cache_step F hf c x)"
proof (cases x)
  case (Lookup q)
  then show ?thesis using Get_step(2) [OF wf] by (cases q) simp
next
  case (Write a q d)
  then show ?thesis using ok Put_step [OF wf _ refl] by (cases q) (metis)
next
  case (Fill a q d)
  then show ?thesis using ok Fill_step [OF wf _ refl] by (cases q) (metis)
next
  case (Ack q n)
  then show ?thesis using ok Ack_step [OF wf _ refl] by (cases q) (metis)
next
  case (Drop q)
  then show ?thesis using Erase_ok(1) [OF wf refl] by (cases q) simp
next
  case (Resize n)
  then show ?thesis using SetBudget_ok(1) [OF wf] by simp
qed

interpretation s3: write_through_cache "cache_wf hf" "cached hf" "pins hf" "call_ok hf" "cache_step F hf"
  "\<lambda>c (v, k). fst (Get hf c v k)" for hf F
proof (unfold_locales, goal_cases)
  case (1 c x)
  then show ?case by (rule cache_step_wf)
next
  case (2 c k)
  then show ?case by (cases k) (simp add: cached_pins_view)
next
  case (3 c k)
  then show ?case by (cases k) (simp add: Get_step)
next
  case (4 c k)
  then show ?case by (cases k) (simp add: Get_step cached_def pins_def fun_eq_iff)
next
  case (5 c a k d)
  then show ?case using Put_step [OF _ _ refl, of hf c a "fst k" "snd k" d F] by simp
next
  case (6 c a k d d0)
  then show ?case using Fill_step [OF _ _ refl, of hf c a "fst k" "snd k" d F d0] by simp
next
  case (7 c a k d)
  then show ?case using Fill_step [OF _ _ refl, of hf c a "fst k" "snd k" d F d] by simp
next
  case (8 c k n)
  then show ?case using Ack_step [OF _ _ refl, of hf c "fst k" "snd k" n F] by simp
next
  case (9 c k)
  then show ?case using Erase_ok(2) [OF _ refl] by (cases k) (simp add: cached_pins_view)
next
  case (10 c x k)
  then show ?case using key_trimmed_docs [OF cache_step_others [of hf c x "fst k" "snd k" F]] by simp
qed

subsection \<open>The first document of a shard\<close>

lemma evict_idle: "sh_bytes s \<le> sh_budget s \<Longrightarrow> evict hf s = s"
  by (simp add: evict_def)

lemma fill_first:
  assumes "charge e \<le> b" and "ekey e = (v, k)" and "e_freq e \<le> kMaxFreq" and "\<not> pinned e"
  shows "kv hf (snd (fill_insert hf (new_shard b q) (hf v k) a e)) v k = Some (core e)"
proof -
  let ?s = "new_shard b q"
  obtain landed t where f: "fill_insert hf ?s (hf v k) a e = (landed, t)" by force
  have mk: "mapKey e = map_key v k" using assms(2) by (simp add: mapKey_map_key)
  have "sh_find ?s (hf v k) (mapKey e) = None"
    using new_shard_ok(3) [of hf b q v k] by (simp add: kv_def mk)
  define p where "p = (sh_insert (?s\<lparr>sh_heap := [a \<mapsto> e]\<rparr>) a (hf v k))
    \<lparr>sh_fills := sh_fills (sh_insert (?s\<lparr>sh_heap := [a \<mapsto> e]\<rparr>) a (hf v k)) + 1\<rparr>"
  have "t = evict hf p"
    using f \<open>sh_find ?s (hf v k) (mapKey e) = None\<close>
    by (simp add: fill_insert_def p_def Let_def) (simp add: new_shard_def)
  moreover have P: "sh_bytes p = charge e" "sh_budget p = b" "cores (sh_heap p) a = Some (core e)"
    by (simp_all add: p_def sh_insert_def new_shard_def push_small_def set_ent_def pushHead_def
        empty_fifo_def sh_bytes_def upd_def cores_def charge_def core_def strip_def mapKey_def Let_def split: option.split)
  ultimately have t: "t = p" using assms(1) by (simp add: evict_idle)
  have "shard_wf hf t"
    by (rule fill_insert_ok [OF new_shard_ok(1) _ assms(3,2) refl assms(4) f, THEN conjunct1])
      (simp add: new_shard_def)
  then have "kv hf t v k = Some (core e)"
    using kv_iff [of hf t v k "core e"] P(3) t assms(2) by auto
  then show ?thesis using f by simp
qed

subsection \<open>Evictions on a concrete shard\<close>

text \<open>A shard holding one filled document, whose budget is then taken away.\<close>

definition sample_shard :: "(u64, SeqEntry) alist Shard" where
  "sample_shard = (snd (fill_insert (\<lambda>_ _. 7) (new_shard 1000 (empty_seq_index DAList.empty)) 7 1
     (create 3 [107] [1, 2] 5 0 0 0 False)))\<lparr>sh_budget := 0, sh_smallBudget := 0\<rparr>"

lemma sample_shard_ok: "shard_wf (\<lambda>_ _. 7) sample_shard"
proof -
  let ?s = "new_shard 1000 (empty_seq_index (DAList.empty :: (u64, SeqEntry) alist))" and ?e = "create 3 [107] [1, 2] 5 0 0 0 False"
  obtain landed t where f: "fill_insert (\<lambda>_ _. 7) ?s 7 1 ?e = (landed, t)" by force
  have "sh_heap ?s 1 = None" by (simp add: new_shard_def)
  then have "shard_wf (\<lambda>_ _. 7) t"
    by (rule fill_insert_ok [OF new_shard_ok(1) _ _ _ _ _ f, where v = 3 and k = "[107]", THEN conjunct1])
      simp_all
  then have "shard_wf (\<lambda>_ _. 7) (t\<lparr>sh_budget := 0, sh_smallBudget := 0\<rparr>)"
    by (auto simp: shard_wf_def sinv_def queues_ok_def entries_ok_def ghost_ok_def)
  then show ?thesis using f by (simp add: sample_shard_def)
qed

theorem evict_within_budget_witness:
  "\<exists>xs ys. shard_ok (\<lambda>_ _. 7) sample_shard xs ys \<and>
     sh_bytes (evict (\<lambda>_ _. 7) sample_shard) \<le> sh_budget sample_shard + pinned_bytes (sh_heap sample_shard)"
proof -
  obtain xs ys where "shard_ok (\<lambda>_ _. 7) sample_shard xs ys"
    using sample_shard_ok by (auto simp: shard_wf_def shard_ok_def)
  then show ?thesis using evict_within_budget by blast
qed

subsection \<open>Properties of the cache\<close>

lemma pow2_from_power: "\<exists>j. pow2_from (2 ^ i) n = 2 ^ j"
proof (induction "2 ^ i :: nat" n arbitrary: i rule: pow2_from.induct)
  case (1 n)
  show ?case
  proof (cases "(2 :: nat) ^ i < n")
    case True
    then show ?thesis using 1 [of "Suc i"] by (subst pow2_from.simps) (simp add: mult.commute)
  next
    case False
    then show ?thesis by (subst pow2_from.simps) auto
  qed
qed

lemma new_cache_ok:
  "cache_wf hf (S3FifoCache q maxBytes n)" "pins hf (S3FifoCache q maxBytes n) key = 0"
  "cview hf (S3FifoCache q maxBytes n) v k = None"
proof -
  obtain j where j: "pow2_from 1 (max 1 n) = 2 ^ j" using pow2_from_power [of 0] by auto
  show wf: "cache_wf hf (S3FifoCache q maxBytes n)"
    using j by (auto simp: cache_wf_def S3FifoCache_def Let_def new_shard_ok)
  show v: "cview hf (S3FifoCache q maxBytes n) v k = None" for v k
    using shardFor_less [OF wf, of "hf v k"]
    by (simp add: cview_def shard_of_def) (simp add: S3FifoCache_def Let_def new_shard_ok)
  show "pins hf (S3FifoCache q maxBytes n) key = 0"
    by (cases key) (simp add: cached_pins_view v)
qed



lemma new_cache_fresh: "fresh_for hf (S3FifoCache q maxBytes n) (v, k) a"
  using shardFor_less [OF new_cache_ok(1) [of hf q maxBytes n], of "hf v k"]
  by (simp add: fresh_for_def shard_of_def) (simp add: S3FifoCache_def Let_def new_shard_def)

lemma fresh_exists: "cache_wf hf c \<Longrightarrow> \<exists>a. fresh_for hf c key a"
proof -
  assume wf: "cache_wf hf c"
  obtain v k where k: "key = (v, k)" by force
  have "shard_wf hf (shard_of hf c v k)" using cache_wf_shard [OF wf] by simp
  then have "finite (dom (sh_heap (shard_of hf c v k)))" using sinv_bytes(2) by (auto simp: shard_wf_def)
  then obtain a where "a \<notin> dom (sh_heap (shard_of hf c v k))" using ex_new_if_finite infinite_UNIV_nat by blast
  then show ?thesis using k by (auto simp: fresh_for_def)
qed



text \<open>The pinned entries of the cache, which the statistics report as pending items.\<close>

definition pinned_entries :: "'m Cache \<Rightarrow> nat" where
  "pinned_entries c = (\<Sum>s\<leftarrow>c_shards c. card (pinned_addrs (sh_heap s)))"



text \<open>C28. What goes wrong when an acknowledgement finds its key resident but unpinned, which
  happens when a refused write erased a document pinned by earlier queued writes and the key was
  then filled again: the 32-bit pin count wraps from zero, and the entry stays pinned by
  \<open>2\<^sup>3\<^sup>2 - 1\<close> writes that do not exist.\<close>

theorem ack_of_unpinned_wraps:
  assumes "cache_wf hf c" and "cached hf c (v, k) \<noteq> None" and "pins hf c (v, k) = 0"
  shows "pins hf (MarkPersisted F hf c v k seqno) (v, k) = 2 ^ 32 - 1 \<and>
    cached hf (MarkPersisted F hf c v k seqno) (v, k) \<noteq> None"
proof -
  let ?s = "shard_of hf c v k"
  obtain e where e: "kv hf ?s v k = Some e" "e_pending e = 0"
    using assms(2,3) by (auto simp: cached_pins_view cview_def unat_eq_zero)
  have S: "shard_wf hf ?s" using cache_wf_shard [OF assms(1)] by simp
  obtain p where p: "sh_markPersisted F hf (c_seqnoIndex c) ?s v k seqno =
      (if e_pending e = 1 \<and> sh_bytes p > sh_budget p then evict hf p else p)"
    "kv hf p v k = Some (acked e seqno)"
    by (rule sh_mark_present [OF S e(1), of F "c_seqnoIndex c" seqno]) blast
  have "cview hf (MarkPersisted F hf c v k seqno) v k = Some (acked e seqno)"
    using p e(2) cview_set_shard [OF assms(1) refl]
    by (simp add: MarkPersisted_def Let_def shard_of_def)
  moreover have "e_pending (acked e seqno) = - 1" using e(2) by (simp add: acked_def)
  ultimately show ?thesis by (simp add: cached_pins_view unsigned_minus_1_eq_mask mask_eq_exp_minus_1)
qed

lemma one_shard_cache:
  "c_shards (S3FifoCache q b 1) = [new_shard b q]" "shardFor (S3FifoCache q b 1) h = 0"
  "c_seqnoIndex (S3FifoCache q b 1) = False" "c_fillDoorkeeper (S3FifoCache q b 1) = False"
proof -
  have "pow2_from 1 (max 1 1) = 1" by (simp add: pow2_from.simps)
  then show "c_shards (S3FifoCache q b 1) = [new_shard b q]" "shardFor (S3FifoCache q b 1) h = 0"
    "c_seqnoIndex (S3FifoCache q b 1) = False" "c_fillDoorkeeper (S3FifoCache q b 1) = False"
    by (simp_all add: S3FifoCache_def shardFor_def Let_def)
qed

lemma first_fill:
  assumes "charge (create v k value seqno flags expiry datatype False) \<le> b"
  shows "cview hf (PutIfAbsent F hf (S3FifoCache q b 1) a v k value seqno flags expiry datatype) v k =
    Some (core (create v k value seqno flags expiry datatype False))"
proof -
  let ?e = "create v k value seqno flags expiry datatype False" and ?c = "S3FifoCache q b 1"
  obtain landed t where f: "fill_insert hf (new_shard b q) (hf v k) a ?e = (landed, t)" by force
  have k: "kv hf t v k = Some (core ?e)"
    using fill_first [OF assms, where v = v and k = k and q = q and hf = hf and a = a] f by simp
  then have "landed" using f new_shard_ok(3) [of hf b q v k]
    by (auto simp: fill_insert_def Let_def split: if_splits)
  moreover have "fill_check hf (new_shard b q) v k"
    using new_shard_ok(3) [of hf b q v k] by (simp add: fill_check_def kv_def)
  ultimately have "PutIfAbsent F hf ?c a v k value seqno flags expiry datatype = set_shard (set_shard ?c 0 (new_shard b q)) 0 t"
    using f by (simp add: PutIfAbsent_def Let_def one_shard_cache [unfolded One_nat_def] set_shard_def)
  then show ?thesis using k by (simp add: cview_def shard_of_def one_shard_cache [unfolded One_nat_def])
    (simp add: set_shard_def one_shard_cache [unfolded One_nat_def])
qed

theorem ack_of_unpinned_wraps_witness:
  "pins (\<lambda>_ _. 0) (MarkPersisted alist_f14 (\<lambda>_ _. 0)
     (PutIfAbsent alist_f14 (\<lambda>_ _. 0) (S3FifoCache (empty_seq_index DAList.empty) 1000 1) 1 3 [9] [4] 7 0 0 0) 3 [9] 8) (3, [9]) =
   2 ^ 32 - 1"
proof -
  let ?c = "S3FifoCache (empty_seq_index (DAList.empty :: (u64, SeqEntry) alist)) 1000 1"
  let ?c' = "PutIfAbsent alist_f14 (\<lambda>_ _. 0) ?c 1 3 [9] [4] 7 0 0 0"
  have "charge (create 3 [9] [4] 7 0 0 0 False) \<le> 1000"
    by (simp add: charge_def create_def sizeof_Entry_def kMapSlotOverhead_def mapKey_def)
  from first_fill [OF this] have v: "cview (\<lambda>_ _. 0) ?c' 3 [9] = Some (core (create 3 [9] [4] 7 0 0 0 False))" .
  have wf: "cache_wf (\<lambda>_ _. 0) ?c'"
    using PutIfAbsent_ok [OF new_cache_ok(1) new_cache_fresh refl] by blast
  show ?thesis
    using ack_of_unpinned_wraps [OF wf, of 3 "[9]" alist_f14 8] v
    by (simp add: cached_pins_view)
qed

end
