(* ===== verification/Doc_Meta.thy ===== *)
theory Doc_Meta
  imports Flux_Prelude
begin

text \<open>
  Document metadata (\<^verbatim>\<open>server/metadata.h\<close>): the in-memory struct, its two on-disk
  forms (the 30-byte legacy image and the compact varint form), and the callbacks the
  storage engine uses to read a meta. A \<open>Slice\<close> is its byte list; the moving cursor
  \<open>p\<close> of the decoder is the list of the bytes still to be read.
\<close>

record DocMeta =
  m_seqno :: u64
  m_cas :: u64
  m_valueSize :: u32
  m_flags :: u32
  m_expiry :: u32
  m_deleted :: u8
  m_datatype :: u8

definition zero_meta :: DocMeta where
  "zero_meta = \<lparr>m_seqno = 0, m_cas = 0, m_valueSize = 0, m_flags = 0, m_expiry = 0,
     m_deleted = 0, m_datatype = 0\<rparr>"

definition kLegacySize :: nat where "kLegacySize = 30"
definition kMaxCompactSize :: nat where "kMaxCompactSize = 1 + 10 + 8 + 10 + 4 + 4 + 1 + 1"

definition kMetaHasFlags :: u8 where "kMetaHasFlags = 1"
definition kMetaHasExpiry :: u8 where "kMetaHasExpiry = 2"
definition kMetaDeleted :: u8 where "kMetaDeleted = 4"
definition kMetaHasDatatype :: u8 where "kMetaHasDatatype = 8"
definition kMetaVersionShift :: nat where "kMetaVersionShift = 5"
definition kMetaVersion :: u8 where "kMetaVersion = 1"

lemmas meta_consts = kMetaHasFlags_def kMetaHasExpiry_def kMetaDeleted_def kMetaHasDatatype_def
  kMetaVersionShift_def kMetaVersion_def

text \<open>\<open>encode\<close>: the packed struct as it lies in memory, and the struct copied back from it.\<close>

definition encode :: "DocMeta \<Rightarrow> bytes" where
  "encode m = bytes_le 8 (m_seqno m) @ bytes_le 8 (m_cas m) @ bytes_le 4 (m_valueSize m) @
     bytes_le 4 (m_flags m) @ bytes_le 4 (m_expiry m) @ [m_deleted m, m_datatype m]"

definition meta_of_bytes :: "bytes \<Rightarrow> DocMeta" where
  "meta_of_bytes b = \<lparr>m_seqno = le_word (take 8 b), m_cas = le_word (take 8 (drop 8 b)),
     m_valueSize = le_word (take 4 (drop 16 b)), m_flags = le_word (take 4 (drop 20 b)),
     m_expiry = le_word (take 4 (drop 24 b)), m_deleted = b ! 28, m_datatype = b ! 29\<rparr>"

subsection \<open>Varints and fixed-width fields\<close>

function putVarint :: "u64 \<Rightarrow> bytes" where
  "putVarint v = (if v \<ge> 0x80 then ucast (v OR 0x80) # putVarint (drop_bit 7 v) else [ucast v])"
  by pat_completeness auto
termination
proof (relation "measure unat", simp)
  fix v :: u64 assume "v \<ge> 0x80"
  then have "128 \<le> unat v" by (simp add: word_le_nat_alt)
  then show "(drop_bit 7 v, v) \<in> measure unat" by (simp add: drop_bit_eq_div unat_div)
qed

declare putVarint.simps [simp del]

primrec getVarint_loop :: "bytes \<Rightarrow> nat \<Rightarrow> u64 \<Rightarrow> (u64 \<times> bytes) option" where
  "getVarint_loop [] shift r = None"
| "getVarint_loop (b # p) shift r =
     (if shift < 64
      then let r = r OR push_bit shift (ucast (b AND 0x7f))
           in if b AND 0x80 = 0 then Some (r, p) else getVarint_loop p (shift + 7) r
      else None)"

definition getVarint :: "bytes \<Rightarrow> (u64 \<times> bytes) option" where
  "getVarint p = getVarint_loop p 0 0"

definition getFixed :: "nat \<Rightarrow> bytes \<Rightarrow> ('a::len word \<times> bytes) option" where
  "getFixed n p = (if length p < n then None else Some (le_word (take n p), drop n p))"

subsection \<open>The compact form\<close>

definition meta_hdr :: "DocMeta \<Rightarrow> u8" where
  "meta_hdr m = push_bit kMetaVersionShift kMetaVersion
     OR (if m_flags m \<noteq> 0 then kMetaHasFlags else 0)
     OR (if m_expiry m \<noteq> 0 then kMetaHasExpiry else 0)
     OR (if m_deleted m \<noteq> 0 then kMetaDeleted else 0)
     OR (if m_datatype m \<noteq> 0 then kMetaHasDatatype else 0)"

definition encodeCompact :: "DocMeta \<Rightarrow> bytes" where
  "encodeCompact m =
     (let out = [meta_hdr m] @ putVarint (m_seqno m) @ bytes_le 8 (m_cas m)
                @ putVarint (ucast (m_valueSize m));
          out = out @ (if m_flags m \<noteq> 0 then bytes_le 4 (m_flags m) else []);
          out = out @ (if m_expiry m \<noteq> 0 then bytes_le 4 (m_expiry m) else []);
          out = out @ (if m_datatype m \<noteq> 0 then [m_datatype m] else [])
      in if length out = kLegacySize then out @ [0] else out)"

definition getIf :: "bool \<Rightarrow> nat \<Rightarrow> bytes \<Rightarrow> ('a::len word \<times> bytes) option" where
  "getIf present n p = (if present then getFixed n p else Some (0, p))"

definition decode :: "bytes \<Rightarrow> DocMeta option" where
  "decode s =
     (if length s = kLegacySize then Some (meta_of_bytes s)
      else case s of [] \<Rightarrow> None
      | hdr # p \<Rightarrow>
        if drop_bit kMetaVersionShift hdr \<noteq> kMetaVersion then None
        else case getVarint p of None \<Rightarrow> None
        | Some (seq, p) \<Rightarrow> (case getFixed 8 p of None \<Rightarrow> None
        | Some (c, p) \<Rightarrow> (case getVarint p of None \<Rightarrow> None
        | Some (sz, p) \<Rightarrow>
          if sz > 0xFFFFFFFF then None
          else case getIf (hdr AND kMetaHasFlags \<noteq> 0) 4 p of None \<Rightarrow> None
          | Some (f, p) \<Rightarrow> (case getIf (hdr AND kMetaHasExpiry \<noteq> 0) 4 p of None \<Rightarrow> None
          | Some (e, p) \<Rightarrow> (case getIf (hdr AND kMetaHasDatatype \<noteq> 0) 1 p of None \<Rightarrow> None
          | Some (dt, p) \<Rightarrow>
             Some \<lparr>m_seqno = seq, m_cas = c, m_valueSize = ucast sz, m_flags = f, m_expiry = e,
                   m_deleted = (if hdr AND kMetaDeleted \<noteq> 0 then 1 else 0),
                   m_datatype = dt\<rparr>)))))"

text \<open>The overload that cannot fail, and the storage engine's callbacks.\<close>

definition decode_or_zero :: "bytes \<Rightarrow> DocMeta" where
  "decode_or_zero s = (case decode s of Some m \<Rightarrow> m | None \<Rightarrow> zero_meta)"

definition MetaGetSeqNum :: "bytes \<Rightarrow> u64" where
  "MetaGetSeqNum meta = m_seqno (decode_or_zero meta)"

definition MetaGetValueSize :: "bytes \<Rightarrow> nat" where
  "MetaGetValueSize meta = unat (m_valueSize (decode_or_zero meta))"

definition MetaIsTombstone :: "bytes \<Rightarrow> bool" where
  "MetaIsTombstone meta \<longleftrightarrow> m_deleted (decode_or_zero meta) \<noteq> 0"

definition MetaGetHistoryTimestamp :: "bytes \<Rightarrow> u64" where
  "MetaGetHistoryTimestamp meta = m_cas (decode_or_zero meta)"

subsection \<open>Varint round trip and length\<close>

lemma varint_head:
  fixes v :: u64
  shows "(ucast (ucast (v OR 0x80) AND 0x7f :: u8) :: u64) = v AND 0x7f"
    and "ucast (v OR 0x80) AND (0x80 :: u8) \<noteq> 0"
proof -
  show "(ucast (ucast (v OR 0x80) AND 0x7f :: u8) :: u64) = v AND 0x7f"
    by (rule bit_word_eqI) (auto simp: bit_ucast_iff bit_and_iff bit_or_iff)
  have "bit (ucast (v OR 0x80) AND (0x80 :: u8)) 7"
    by (simp add: bit_and_iff bit_ucast_iff bit_or_iff)
  then show "ucast (v OR 0x80) AND (0x80 :: u8) \<noteq> 0" by auto
qed

lemma varint_last:
  fixes v :: u64
  assumes "v < 0x80"
  shows "(ucast (ucast v AND 0x7f :: u8) :: u64) = v" and "ucast v AND (0x80 :: u8) = 0"
proof -
  have lt: "bit v n \<Longrightarrow> n < 7" for n
    using word_less_exp_bit [of v 7 n] assms by (simp add: word_less_nat_alt)
  show "(ucast (ucast v AND 0x7f :: u8) :: u64) = v"
    by (rule bit_word_eqI) (use lt in \<open>fastforce simp: bit_ucast_iff bit_and_iff\<close>)
  show "ucast v AND (0x80 :: u8) = 0"
    by (rule bit_word_eqI) (use lt [of 7] in \<open>auto simp: bit_ucast_iff bit_and_iff\<close>)
qed

lemma push_bit_split7:
  "push_bit s (v AND 0x7f) OR push_bit (s + 7) (drop_bit 7 v) = push_bit s (v :: u64)"
proof (rule bit_word_eqI)
  fix n :: nat assume "n < LENGTH(64)"
  then show "bit (push_bit s (v AND 0x7f) OR push_bit (s + 7) (drop_bit 7 v)) n = bit (push_bit s v) n"
    by (cases "n < s + 7") (auto simp: bit_or_iff bit_push_bit_iff bit_and_iff bit_drop_bit_eq)
qed

lemma putVarint_big:
  "v \<ge> 0x80 \<Longrightarrow> putVarint v = ucast (v OR 0x80) # putVarint (drop_bit 7 v)"
  and putVarint_small: "\<not> v \<ge> 0x80 \<Longrightarrow> putVarint v = [ucast v]"
  by (subst putVarint.simps, simp only: if_True if_False)+

lemma getVarint_loop_putVarint:
  assumes "s < 64" and "unat v < 2 ^ (64 - s)"
  shows "getVarint_loop (putVarint v @ rest) s r = Some (r OR push_bit s v, rest)"
  using assms
proof (induction v arbitrary: s r rule: putVarint.induct)
  case (1 v)
  show ?case
  proof (cases "v \<ge> 0x80")
    case True
    then have big: "128 \<le> unat v" by (simp add: word_le_nat_alt)
    have "64 - s > 7"
    proof (rule ccontr)
      assume "\<not> 64 - s > 7"
      then have "(2::nat) ^ (64 - s) \<le> 2 ^ 7" by (intro power_increasing) auto
      then show False using big "1.prems" by simp
    qed
    then have "(2::nat) ^ (64 - s) = 2 ^ (64 - (s + 7)) * 128"
      using power_add [of "2::nat" "64 - (s + 7)" 7] by simp
    then have "unat (drop_bit 7 v) < 2 ^ (64 - (s + 7))"
      using "1.prems" by (simp add: drop_bit_eq_div unat_div less_mult_imp_div_less)
    then have "getVarint_loop (putVarint (drop_bit 7 v) @ rest) (s + 7)
        (r OR push_bit s (v AND 0x7f)) = Some (r OR push_bit s v, rest)"
      using "1.IH" [OF True, of "s + 7"] \<open>64 - s > 7\<close>
      by (simp add: or.assoc push_bit_split7 del: push_bit_and)
    then show ?thesis
      using True "1.prems" varint_head [of v]
      by (simp add: putVarint_big Let_def)
  next
    case False
    then have "v < 0x80" by simp
    then show ?thesis
      using "1.prems" varint_last [of v]
      by (simp add: putVarint_small Let_def)
  qed
qed

lemma getVarint_putVarint [simp]: "getVarint (putVarint v @ rest) = Some (v, rest)"
  using getVarint_loop_putVarint [of 0 v rest 0] unsigned_less [of v, where 'a = nat]
  by (simp add: getVarint_def)

lemma length_putVarint:
  "k \<ge> 1 \<Longrightarrow> unat v < 2 ^ (7 * k) \<Longrightarrow> 1 \<le> length (putVarint v) \<and> length (putVarint v) \<le> k"
proof (induction v arbitrary: k rule: putVarint.induct)
  case (1 v)
  show ?case
  proof (cases "v \<ge> 0x80")
    case True
    then have big: "128 \<le> unat v" by (simp add: word_le_nat_alt)
    obtain j where j: "k = Suc j" using "1.prems" by (cases k) auto
    then have "j \<ge> 1" using big "1.prems" by (cases j) auto
    moreover have "unat (drop_bit 7 v) < 2 ^ (7 * j)"
      using "1.prems" j by (simp add: drop_bit_eq_div unat_div power_add less_mult_imp_div_less mult.commute)
    ultimately show ?thesis
      using "1.IH" [OF True, of j] j by (simp add: putVarint_big [OF True])
  next
    case False
    then show ?thesis using "1.prems" by (simp add: putVarint_small)
  qed
qed

subsection \<open>Round trips\<close>

lemma getFixed_bytes_le:
  "LENGTH('a) \<le> 8 * n \<Longrightarrow> getFixed n (bytes_le n w @ rest) = Some (w :: 'a::len word, rest)"
  by (simp add: getFixed_def)

lemma getFixed_byte: "getFixed (Suc 0) (b # rest) = Some (b :: u8, rest)"
  by (simp add: getFixed_def le_word.simps)

lemma meta_hdr_version: "drop_bit kMetaVersionShift (meta_hdr m) = kMetaVersion"
  by (simp add: meta_hdr_def meta_consts)

lemma meta_hdr_bits:
  "meta_hdr m AND kMetaHasFlags \<noteq> 0 \<longleftrightarrow> m_flags m \<noteq> 0"
  "meta_hdr m AND kMetaHasExpiry \<noteq> 0 \<longleftrightarrow> m_expiry m \<noteq> 0"
  "meta_hdr m AND kMetaDeleted \<noteq> 0 \<longleftrightarrow> m_deleted m \<noteq> 0"
  "meta_hdr m AND kMetaHasDatatype \<noteq> 0 \<longleftrightarrow> m_datatype m \<noteq> 0"
  by (simp_all add: meta_hdr_def meta_consts)

text \<open>The fields of the compact form, without the padding byte.\<close>

definition compact_fields :: "DocMeta \<Rightarrow> bytes" where
  "compact_fields m = putVarint (m_seqno m) @ bytes_le 8 (m_cas m)
     @ putVarint (ucast (m_valueSize m))
     @ (if m_flags m \<noteq> 0 then bytes_le 4 (m_flags m) else [])
     @ (if m_expiry m \<noteq> 0 then bytes_le 4 (m_expiry m) else [])
     @ (if m_datatype m \<noteq> 0 then [m_datatype m] else [])"

lemma encodeCompact_eq:
  "encodeCompact m = meta_hdr m # compact_fields m @
     (if length (compact_fields m) = 29 then [0] else [])"
  by (simp add: encodeCompact_def compact_fields_def Let_def kLegacySize_def)

abbreviation normal_deleted :: "DocMeta \<Rightarrow> DocMeta" where
  "normal_deleted m \<equiv> m\<lparr>m_deleted := (if m_deleted m \<noteq> 0 then 1 else 0)\<rparr>"

lemma valueSize_fits: "\<not> (0xFFFFFFFF :: u64) < ucast (v :: u32)"
  using unsigned_less [of v, where 'a = nat] by (simp add: word_less_nat_alt unsigned_ucast_eq take_bit_nat_eq_self)

lemma ucast_ucast_u32 [simp]: "ucast (ucast (v :: u32) :: u64) = v"
  by (rule bit_word_eqI) (auto simp: bit_ucast_iff)

lemma decode_fields:
  assumes "length (compact_fields m @ rest) \<noteq> 29"
  shows "decode (meta_hdr m # compact_fields m @ rest) = Some (normal_deleted m)"
proof -
  have "getIf (m_flags m \<noteq> 0) 4 ((if m_flags m \<noteq> 0 then bytes_le 4 (m_flags m) else []) @ r) =
      Some (m_flags m, r)"
    "getIf (m_expiry m \<noteq> 0) 4 ((if m_expiry m \<noteq> 0 then bytes_le 4 (m_expiry m) else []) @ r) =
      Some (m_expiry m, r)"
    "getIf (m_datatype m \<noteq> 0) 1 ((if m_datatype m \<noteq> 0 then [m_datatype m] else []) @ r) =
      Some (m_datatype m, r)" for r
    by (simp_all add: getIf_def getFixed_bytes_le getFixed_byte)
  then show ?thesis
    using assms
    by (simp add: decode_def meta_hdr_version meta_hdr_bits compact_fields_def kLegacySize_def
        getFixed_bytes_le valueSize_fits del: bytes_le.simps)
qed

lemma length_compact_fields:
  "10 \<le> length (compact_fields m)" "length (compact_fields m) \<le> 32"
proof -
  have "1 \<le> length (putVarint (m_seqno m)) \<and> length (putVarint (m_seqno m)) \<le> 10"
    by (rule length_putVarint) (use unsigned_less [of "m_seqno m", where 'a = nat] in simp_all)
  moreover have "1 \<le> length (putVarint (ucast (m_valueSize m))) \<and>
      length (putVarint (ucast (m_valueSize m))) \<le> 5"
    by (rule length_putVarint)
      (use unsigned_less [of "m_valueSize m", where 'a = nat] in \<open>simp_all add: unsigned_ucast_eq take_bit_nat_eq_self\<close>)
  ultimately show "10 \<le> length (compact_fields m)" "length (compact_fields m) \<le> 32"
    by (auto simp: compact_fields_def)
qed

text \<open>C24. The compact form of a meta, with any bytes a later version may append (as long as the
  whole is not exactly 30 bytes long), decodes to that meta: seqno, cas, value size, flags,
  expiry and datatype are recovered exactly, and the deleted byte as 0 or 1. The encoder
  itself never produces 30 bytes and never overruns the caller's buffer.\<close>

theorem encodeCompact_decode:
  assumes "length (encodeCompact m @ extra) \<noteq> kLegacySize"
  shows "decode (encodeCompact m @ extra) = Some (normal_deleted m) \<and>
    length (encodeCompact m) \<noteq> kLegacySize \<and> length (encodeCompact m) \<le> kMaxCompactSize"
proof -
  define pad where "pad = (if length (compact_fields m) = 29 then [0 :: u8] else [])"
  have "length (compact_fields m @ pad @ extra) \<noteq> 29"
    using assms by (auto simp: encodeCompact_eq pad_def kLegacySize_def)
  then have "decode (meta_hdr m # compact_fields m @ pad @ extra) = Some (normal_deleted m)"
    by (rule decode_fields)
  then show ?thesis
    using length_compact_fields [of m]
    by (auto simp: encodeCompact_eq pad_def kLegacySize_def kMaxCompactSize_def)
qed

theorem encodeCompact_decode_witness:
  "decode (encodeCompact (zero_meta\<lparr>m_seqno := 300, m_valueSize := 5\<rparr>) @ [7]) =
     Some (zero_meta\<lparr>m_seqno := 300, m_valueSize := 5\<rparr>)"
proof -
  define m where "m = zero_meta\<lparr>m_seqno := 300, m_valueSize := 5\<rparr>"
  have "length (encodeCompact m @ [7]) \<noteq> kLegacySize"
    by (simp add: m_def zero_meta_def encodeCompact_eq compact_fields_def kLegacySize_def
        putVarint.simps)
  from encodeCompact_decode [OF this] show ?thesis by (simp add: m_def zero_meta_def)
qed

lemma length_encode [simp]: "length (encode m) = kLegacySize"
  by (simp add: encode_def kLegacySize_def)

text \<open>A legacy meta is the struct's image: decoding it gives back every field, and the
  storage engine's callbacks report the stored seqno, value size, tombstone flag and
  timestamp.\<close>

theorem legacy_meta_roundtrip:
  "decode (encode m) = Some m \<and> MetaGetSeqNum (encode m) = m_seqno m \<and>
   MetaGetValueSize (encode m) = unat (m_valueSize m) \<and>
   (MetaIsTombstone (encode m) \<longleftrightarrow> m_deleted m \<noteq> 0) \<and>
   MetaGetHistoryTimestamp (encode m) = m_cas m"
proof -
  have "meta_of_bytes (encode m) = m"
    by (simp add: meta_of_bytes_def encode_def nth_append)
  then have "decode (encode m) = Some m" by (simp add: decode_def)
  then show ?thesis
    by (simp add: MetaGetSeqNum_def MetaGetValueSize_def MetaIsTombstone_def
        MetaGetHistoryTimestamp_def decode_or_zero_def)
qed

subsection \<open>Rejected metas\<close>

lemma getVarint_loop_cut:
  "n < length (putVarint v) \<Longrightarrow> getVarint_loop (take n (putVarint v)) s r = None"
proof (induction v arbitrary: n s r rule: putVarint.induct)
  case (1 v)
  show ?case
  proof (cases "v \<ge> 0x80")
    case True
    show ?thesis
      using "1.IH" [OF True] "1.prems" varint_head(2) [of v]
      by (cases n) (simp_all add: putVarint_big [OF True] Let_def)
  next
    case False
    then show ?thesis using "1.prems" by (simp add: putVarint_small)
  qed
qed

lemma getVarint_cut: "n < length (putVarint v) \<Longrightarrow> getVarint (take n (putVarint v)) = None"
  by (simp add: getVarint_def getVarint_loop_cut)

lemma getFixed_cut: "j < n \<Longrightarrow> getFixed n (take j (bytes_le n w)) = None"
  by (simp add: getFixed_def)

lemma compact_fields_cut:
  assumes "n < length (compact_fields m)" and "n \<noteq> 29"
  shows "decode (meta_hdr m # take n (compact_fields m)) = None"
proof -
  define xs where "xs = [putVarint (m_seqno m), bytes_le 8 (m_cas m),
    putVarint (ucast (m_valueSize m)), (if m_flags m \<noteq> 0 then bytes_le 4 (m_flags m) else []),
    (if m_expiry m \<noteq> 0 then bytes_le 4 (m_expiry m) else []),
    (if m_datatype m \<noteq> 0 then [m_datatype m] else [])]"
  have cf: "compact_fields m = concat xs" by (simp add: compact_fields_def xs_def)
  from take_concat_cut assms(1)[unfolded cf] obtain i j where ij: "i < length xs"
    "j < length (xs ! i)" "take n (concat xs) = concat (take i xs) @ take j (xs ! i)" by blast
  have "length (concat (take i xs) @ take j (xs ! i)) = n"
    unfolding ij(3) [symmetric] using assms(1) cf by simp
  then have ne: "length (concat (take i xs) @ take j (xs ! i)) \<noteq> 29" using assms(2) by simp
  from ij(1) have "i = 0 \<or> i = 1 \<or> i = 2 \<or> i = 3 \<or> i = 4 \<or> i = 5"
    by (auto simp: xs_def)
  then show ?thesis
    unfolding cf ij(3) using ne ij(2)
    by (elim disjE)
      (auto simp: xs_def decode_def kLegacySize_def meta_hdr_version meta_hdr_bits getVarint_cut
        getFixed_cut getFixed_bytes_le getIf_def valueSize_fits getFixed_def split: if_splits)
qed

text \<open>C25. Metas that cannot be read are refused rather than misread: an empty one, one whose
  header names another version, one cut off anywhere inside its fields, and one whose
  value-size varint exceeds 32 bits all decode to nothing, and the callbacks then see a
  zero seqno and no tombstone.\<close>

theorem bad_metas_refused:
  assumes "length s \<noteq> kLegacySize"
    and "s = [] \<or> (\<exists>hdr p. s = hdr # p \<and> drop_bit kMetaVersionShift hdr \<noteq> kMetaVersion) \<or>
      (\<exists>m n. s = meta_hdr m # take n (compact_fields m) \<and> n < length (compact_fields m)) \<or>
      (\<exists>hdr seq c sz rest. s = hdr # putVarint seq @ bytes_le 8 (c :: u64) @ putVarint sz @ rest \<and>
         sz > 0xFFFFFFFF)"
  shows "decode s = None \<and> MetaGetSeqNum s = 0 \<and> \<not> MetaIsTombstone s"
proof -
  have "decode s = None"
    using assms(2)
  proof (elim disjE exE conjE)
    fix m n assume "s = meta_hdr m # take n (compact_fields m)" "n < length (compact_fields m)"
    then show ?thesis using compact_fields_cut [of n m] assms(1) by (auto simp: kLegacySize_def)
  qed (use assms(1) in \<open>auto simp: decode_def getFixed_bytes_le\<close>)
  then show ?thesis
    by (simp add: MetaGetSeqNum_def MetaIsTombstone_def decode_or_zero_def zero_meta_def)
qed

theorem bad_metas_refused_witness:
  "decode [0x40, 1] = None \<and> MetaGetSeqNum [0x40, 1] = 0 \<and> \<not> MetaIsTombstone [0x40, 1]"
proof (rule bad_metas_refused)
  have "drop_bit kMetaVersionShift (0x40 :: u8) \<noteq> kMetaVersion" by (simp add: meta_consts)
  then show "[0x40, 1] = [] \<or>
      (\<exists>hdr p. [0x40, 1 :: u8] = hdr # p \<and> drop_bit kMetaVersionShift hdr \<noteq> kMetaVersion) \<or>
      (\<exists>m n. [0x40, 1 :: u8] = meta_hdr m # take n (compact_fields m) \<and> n < length (compact_fields m)) \<or>
      (\<exists>hdr seq c sz rest.
         [0x40, 1 :: u8] = hdr # putVarint seq @ bytes_le 8 (c :: u64) @ putVarint sz @ rest \<and>
         sz > 0xFFFFFFFF)" by blast
qed (simp add: kLegacySize_def)

end
