(* ===== verification/Mcbp_Protocol.thy ===== *)
theory Mcbp_Protocol
  imports Flux_Prelude
begin

text \<open>
  The memcached binary protocol layer (\<^verbatim>\<open>server/protocol.h\<close>,
  \<^verbatim>\<open>server/protocol.cc\<close>): opcodes, status codes, the packed 24-byte header with its
  byte swapping, and the two families of response builders (one contiguous \<open>IOBuf\<close>, or
  appended to an output vector). A C pointer argument that may be null is a
  \<open>bytes option\<close>; its length is passed separately, as in the source.
\<close>

subsection \<open>Opcodes and status codes\<close>

datatype Opcode = OpGet | OpSet | OpDelete | OpNoop | OpHello | OpSaslListMechs | OpSaslAuth
  | OpSaslStep | OpSelectBucket | OpGetClusterConfig | OpGetErrorMap

fun opcode_val :: "Opcode \<Rightarrow> u8" where
  "opcode_val OpGet = 0x00"
| "opcode_val OpSet = 0x01"
| "opcode_val OpDelete = 0x04"
| "opcode_val OpNoop = 0x0a"
| "opcode_val OpHello = 0x1f"
| "opcode_val OpSaslListMechs = 0x20"
| "opcode_val OpSaslAuth = 0x21"
| "opcode_val OpSaslStep = 0x22"
| "opcode_val OpSelectBucket = 0x89"
| "opcode_val OpGetClusterConfig = 0xb5"
| "opcode_val OpGetErrorMap = 0xfe"

definition all_opcodes :: "Opcode list" where
  "all_opcodes = [OpGet, OpSet, OpDelete, OpNoop, OpHello, OpSaslListMechs, OpSaslAuth,
     OpSaslStep, OpSelectBucket, OpGetClusterConfig, OpGetErrorMap]"

text \<open>\<open>static_cast<Opcode>\<close> followed by comparisons with the enumerators.\<close>

definition opcode_of :: "u8 \<Rightarrow> Opcode option" where
  "opcode_of b = find (\<lambda>op. opcode_val op = b) all_opcodes"

datatype McbpStatus = Success | KeyNotFound | KeyExists | NotMyVbucket | AuthError
  | AuthContinue | UnknownCommand | InternalError | TmpFail

fun status_val :: "McbpStatus \<Rightarrow> u16" where
  "status_val Success = 0x0000"
| "status_val KeyNotFound = 0x0001"
| "status_val KeyExists = 0x0002"
| "status_val NotMyVbucket = 0x0007"
| "status_val AuthError = 0x0020"
| "status_val AuthContinue = 0x0021"
| "status_val UnknownCommand = 0x0081"
| "status_val InternalError = 0x0084"
| "status_val TmpFail = 0x0086"

definition kRequestMagic :: u8 where "kRequestMagic = 0x80"
definition kResponseMagic :: u8 where "kResponseMagic = 0x81"
definition kHeaderSize :: nat where "kHeaderSize = 24"

lemma opcode_of_val [simp]: "opcode_of (opcode_val op) = Some op"
  by (cases op) (simp_all add: opcode_of_def all_opcodes_def)

lemma opcode_of_Some: "opcode_of b = Some op \<Longrightarrow> b = opcode_val op"
  by (auto simp: opcode_of_def find_Some_iff)

subsection \<open>The packed header\<close>

record McbpHeader =
  magic :: u8
  opcode :: u8
  keyLen :: u16
  extrasLen :: u8
  dataType :: u8
  specific :: u16
  bodyLen :: u32
  opaque :: u32
  cas :: u64

text \<open>The bytes of the packed struct, and the struct \<open>memcpy\<close>'d from 24 bytes.\<close>

definition hdr_bytes :: "McbpHeader \<Rightarrow> bytes" where
  "hdr_bytes h = [magic h, opcode h] @ bytes_le 2 (keyLen h) @ [extrasLen h, dataType h] @
     bytes_le 2 (specific h) @ bytes_le 4 (bodyLen h) @ bytes_le 4 (opaque h) @
     bytes_le 8 (cas h)"

definition hdr_of_bytes :: "bytes \<Rightarrow> McbpHeader" where
  "hdr_of_bytes b = \<lparr>magic = b ! 0, opcode = b ! 1, keyLen = le_word (take 2 (drop 2 b)),
     extrasLen = b ! 4, dataType = b ! 5, specific = le_word (take 2 (drop 6 b)),
     bodyLen = le_word (take 4 (drop 8 b)), opaque = le_word (take 4 (drop 12 b)),
     cas = le_word (take 8 (drop 16 b))\<rparr>"

definition ntoh :: "McbpHeader \<Rightarrow> McbpHeader" where
  "ntoh h = h\<lparr>keyLen := bswap 2 (keyLen h), specific := bswap 2 (specific h),
     bodyLen := bswap 4 (bodyLen h), cas := bswap 8 (cas h)\<rparr>"

definition hton :: "McbpHeader \<Rightarrow> McbpHeader" where
  "hton h = h\<lparr>keyLen := bswap 2 (keyLen h), specific := bswap 2 (specific h),
     bodyLen := bswap 4 (bodyLen h), cas := bswap 8 (cas h)\<rparr>"

lemma length_hdr_bytes [simp]: "length (hdr_bytes h) = kHeaderSize"
  by (simp add: hdr_bytes_def kHeaderSize_def)

lemma hdr_of_bytes_append [simp]:
  "hdr_of_bytes (hdr_bytes h @ rest) = h"
  by (simp add: hdr_of_bytes_def hdr_bytes_def nth_append)

lemma ntoh_hton [simp]: "ntoh (hton h) = h" and hton_ntoh [simp]: "hton (ntoh h) = h"
  by (simp_all add: ntoh_def hton_def)

lemma hdr_bytes_of_bytes:
  assumes "length b = kHeaderSize"
  shows "hdr_bytes (hdr_of_bytes b) = b"
proof -
  have "take n (drop i b) = map ((!) b) [i..<i + n]" if "i + n \<le> 24" for i n
    using that assms by (auto simp: kHeaderSize_def intro!: nth_equalityI)
  note slices = this [of 2 2, simplified] this [of 6 2, simplified] this [of 8 4, simplified]
    this [of 12 4, simplified] this [of 16 8, simplified]
  have "hdr_bytes (hdr_of_bytes b) = map ((!) b) ([0, 1] @ [2..<4] @ [4, 5] @ [6..<8] @
      [8..<12] @ [12..<16] @ [16..<24])"
    unfolding hdr_bytes_def hdr_of_bytes_def by (simp add: slices bytes_le_le_word)
  also have "[0, 1] @ [2..<4] @ [4, 5] @ [6..<8] @ [8..<12] @ [12..<16] @ [16..<24] = [0..<24]"
    by (simp add: upt_rec numeral_eq_Suc)
  also have "map ((!) b) [0..<24] = b"
    using assms by (metis kHeaderSize_def map_nth)
  finally show ?thesis .
qed

subsection \<open>Response builders\<close>

text \<open>
  The header both builders fill in. The narrowing \<open>static_cast\<close>s of the lengths are the
  truncating conversions \<open>of_nat\<close>.
\<close>

definition resp_hdr :: "u8 \<Rightarrow> McbpStatus \<Rightarrow> u32 \<Rightarrow> u64 \<Rightarrow> nat \<Rightarrow> nat \<Rightarrow> nat \<Rightarrow> McbpHeader" where
  "resp_hdr opc status opq cs extrasN keyN valueN =
     \<lparr>magic = kResponseMagic, opcode = opc, keyLen = of_nat keyN, extrasLen = of_nat extrasN,
      dataType = 0, specific = status_val status, bodyLen = of_nat (extrasN + keyN + valueN),
      opaque = opq, cas = cs\<rparr>"

text \<open>\<open>memcpy\<close> of \<open>src\<close> to offset \<open>p\<close> of a buffer.\<close>

definition poke :: "bytes \<Rightarrow> nat \<Rightarrow> bytes \<Rightarrow> bytes" where
  "poke buf p src = take p buf @ src @ drop (p + length src) buf"

text \<open>
  \<open>buildResponse\<close> fills a fresh buffer whose initial bytes are whatever the allocator
  returns (\<open>alloc n\<close>). Each section is copied, and the cursor advanced, only when its
  length is non-zero and its pointer non-null.
\<close>

definition put_section :: "bytes option \<Rightarrow> nat \<Rightarrow> bytes \<times> nat \<Rightarrow> bytes \<times> nat" where
  "put_section src n bp =
     (case src of
        Some d \<Rightarrow> if n > 0 then (poke (fst bp) (snd bp) (take n d), snd bp + n) else bp
      | None \<Rightarrow> bp)"

definition buildResponse :: "(nat \<Rightarrow> bytes) \<Rightarrow> u8 \<Rightarrow> McbpStatus \<Rightarrow> u32 \<Rightarrow> u64 \<Rightarrow>
    bytes option \<Rightarrow> nat \<Rightarrow> bytes option \<Rightarrow> nat \<Rightarrow> bytes option \<Rightarrow> nat \<Rightarrow> bytes" where
  "buildResponse alloc opc status opq cs extras extrasN key keyN value valueN =
     (let bodyN = extrasN + keyN + valueN;
          buf = alloc (kHeaderSize + bodyN);
          hdr = hton (resp_hdr opc status opq cs extrasN keyN valueN);
          buf = poke buf 0 (hdr_bytes hdr)
      in fst (put_section value valueN
               (put_section key keyN
                 (put_section extras extrasN (buf, kHeaderSize)))))"

definition buildEmptyResponse :: "(nat \<Rightarrow> bytes) \<Rightarrow> u8 \<Rightarrow> McbpStatus \<Rightarrow> u32 \<Rightarrow> u64 \<Rightarrow> bytes" where
  "buildEmptyResponse alloc opc status opq cs =
     buildResponse alloc opc status opq cs None 0 None 0 None 0"

text \<open>\<open>htonl\<close> of the flags, then the four bytes of the result.\<close>

definition flagsNBO :: "u32 \<Rightarrow> bytes" where
  "flagsNBO f = bytes_le 4 (bswap 4 f)"

definition buildGetResponse :: "(nat \<Rightarrow> bytes) \<Rightarrow> u32 \<Rightarrow> u64 \<Rightarrow> u32 \<Rightarrow> bytes option \<Rightarrow> nat \<Rightarrow> bytes" where
  "buildGetResponse alloc opq cs flags value valueN =
     buildResponse alloc (opcode_val OpGet) Success opq cs (Some (flagsNBO flags)) 4 None 0 value valueN"

text \<open>
  The appending variant: \<open>insert\<close> from a non-null pointer, \<open>resize\<close> (which
  value-initialises, i.e. appends zeros) from a null one.
\<close>

definition put :: "bytes option \<Rightarrow> nat \<Rightarrow> bytes \<Rightarrow> bytes" where
  "put src n out = (case src of Some b \<Rightarrow> out @ take n b | None \<Rightarrow> out @ replicate n 0)"

definition appendResponse :: "bytes \<Rightarrow> u8 \<Rightarrow> McbpStatus \<Rightarrow> u32 \<Rightarrow> u64 \<Rightarrow>
    bytes option \<Rightarrow> nat \<Rightarrow> bytes option \<Rightarrow> nat \<Rightarrow> bytes option \<Rightarrow> nat \<Rightarrow> bytes" where
  "appendResponse out opc status opq cs extras extrasN key keyN value valueN =
     (let hdr = hton (resp_hdr opc status opq cs extrasN keyN valueN)
      in put value valueN (put key keyN (put extras extrasN
           (put (Some (hdr_bytes hdr)) kHeaderSize out))))"

definition appendEmptyResponse :: "bytes \<Rightarrow> u8 \<Rightarrow> McbpStatus \<Rightarrow> u32 \<Rightarrow> u64 \<Rightarrow> bytes" where
  "appendEmptyResponse out opc status opq cs =
     appendResponse out opc status opq cs None 0 None 0 None 0"

definition appendGetResponse :: "bytes \<Rightarrow> u32 \<Rightarrow> u64 \<Rightarrow> u32 \<Rightarrow> bytes option \<Rightarrow> nat \<Rightarrow> u8 \<Rightarrow> bytes" where
  "appendGetResponse out opq cs flags value valueN dt =
     (let hdrOff = length out;
          out = appendResponse out (opcode_val OpGet) Success opq cs
                  (Some (flagsNBO flags)) 4 None 0 value valueN
      in out[hdrOff + 5 := dt])"

text \<open>What the callers guarantee of a section: a pointer to that many bytes, or null and zero.\<close>

definition section_ok :: "bytes option \<Rightarrow> nat \<Rightarrow> bool" where
  "section_ok src n \<longleftrightarrow> (case src of Some b \<Rightarrow> length b = n | None \<Rightarrow> n = 0)"

abbreviation section_bytes :: "bytes option \<Rightarrow> bytes" where
  "section_bytes src \<equiv> (case src of Some b \<Rightarrow> b | None \<Rightarrow> [])"

lemma length_section: "section_ok src n \<Longrightarrow> length (section_bytes src) = n"
  by (auto simp: section_ok_def split: option.splits)

lemma put_ok: "section_ok src n \<Longrightarrow> put src n out = out @ section_bytes src"
  by (auto simp: section_ok_def put_def split: option.splits)

lemma poke_end: "length pre = p \<Longrightarrow> poke (pre @ suf) p src = pre @ src @ drop (length src) suf"
  by (simp add: poke_def)

lemma put_section_ok:
  assumes "section_ok src n" and "length pre = p"
  shows "put_section src n (pre @ suf, p) = (pre @ section_bytes src @ drop n suf, p + n)"
  using assms by (auto simp: put_section_def section_ok_def poke_end split: option.splits)

lemma put_section_append:
  assumes "section_ok src n"
  shows "put_section src n (pre @ suf, length pre) =
    ((pre @ section_bytes src) @ drop n suf, length (pre @ section_bytes src))"
  using put_section_ok [OF assms, of pre "length pre" suf] length_section [OF assms] by simp

lemma appendResponse_eq:
  assumes "section_ok extras en" and "section_ok key kn" and "section_ok value vn"
  shows "appendResponse out opc st opq cs extras en key kn value vn =
    out @ hdr_bytes (hton (resp_hdr opc st opq cs en kn vn)) @
      section_bytes extras @ section_bytes key @ section_bytes value"
  by (simp add: appendResponse_def Let_def put_ok [OF assms(1)] put_ok [OF assms(2)]
      put_ok [OF assms(3)] put_ok [of "Some b" "length b" for b, folded kHeaderSize_def]
      put_def [of "Some _"])

lemma buildResponse_eq:
  assumes "\<And>n. length (alloc n) = n"
    and "section_ok extras en" and "section_ok key kn" and "section_ok value vn"
  shows "buildResponse alloc opc st opq cs extras en key kn value vn =
    hdr_bytes (hton (resp_hdr opc st opq cs en kn vn)) @
      section_bytes extras @ section_bytes key @ section_bytes value"
proof -
  define h where "h = hdr_bytes (hton (resp_hdr opc st opq cs en kn vn))"
  have lh: "length h = kHeaderSize" by (simp add: h_def)
  define b where "b = drop kHeaderSize (alloc (kHeaderSize + (en + kn + vn)))"
  have b: "length b = en + kn + vn" by (simp add: b_def assms(1))
  have "poke (alloc (kHeaderSize + (en + kn + vn))) 0 h = h @ b"
    by (simp add: poke_def lh b_def)
  then have "buildResponse alloc opc st opq cs extras en key kn value vn =
      fst (put_section value vn (put_section key kn (put_section extras en (h @ b, length h))))"
    by (simp add: buildResponse_def Let_def h_def)
  also have "\<dots> = h @ section_bytes extras @ section_bytes key @ section_bytes value @
      drop vn (drop kn (drop en b))"
    by (simp only: put_section_append [OF assms(2)] put_section_append [OF assms(3)]
        put_section_append [OF assms(4)]) simp
  also have "drop vn (drop kn (drop en b)) = []"
    using b by simp
  finally show ?thesis by (simp add: h_def)
qed

subsection \<open>What a client reads back\<close>

text \<open>
  The reading of a frame the protocol prescribes: header in network order, then extras, key
  and value, whose lengths the header gives; the rest belongs to the next frame.
\<close>

definition decode_frame ::
    "bytes \<Rightarrow> (McbpHeader \<times> bytes \<times> bytes \<times> bytes \<times> bytes) option" where
  "decode_frame b =
     (if length b < kHeaderSize then None
      else let h = ntoh (hdr_of_bytes b); e = unat (extrasLen h); k = unat (keyLen h);
               n = unat (bodyLen h); body = drop kHeaderSize b
           in if n < e + k \<or> length body < n then None
              else Some (h, take e body, take k (drop e body), take (n - e - k) (drop (e + k) body),
                         drop n body))"

definition lengths_fit :: "nat \<Rightarrow> nat \<Rightarrow> nat \<Rightarrow> bool" where
  "lengths_fit en kn vn \<longleftrightarrow> en < 2 ^ 8 \<and> kn < 2 ^ 16 \<and> en + kn + vn < 2 ^ 32"

lemma unat_of_nat_len: "n < 2 ^ LENGTH('a::len) \<Longrightarrow> unat (of_nat n :: 'a word) = n"
  by (simp add: unat_of_nat take_bit_nat_eq_self)

lemma resp_hdr_lengths:
  assumes "lengths_fit en kn vn"
  shows "unat (extrasLen (resp_hdr opc st opq cs en kn vn)) = en"
    and "unat (keyLen (resp_hdr opc st opq cs en kn vn)) = kn"
    and "unat (bodyLen (resp_hdr opc st opq cs en kn vn)) = en + kn + vn"
  using assms unat_of_nat_len [of en, where 'a = 8] unat_of_nat_len [of kn, where 'a = 16]
    unat_of_nat_len [of "en + kn + vn", where 'a = 32]
  by (simp_all add: resp_hdr_def lengths_fit_def del: of_nat_add)

lemma decode_frame_append:
  assumes "length e = unat (extrasLen h)" and "length k = unat (keyLen h)"
    and "length e + length k + length v = unat (bodyLen h)"
  shows "decode_frame (hdr_bytes (hton h) @ e @ k @ v @ rest) = Some (h, e, k, v, rest)"
  unfolding decode_frame_def
  by (simp add: Let_def assms(1,2) [symmetric] assms(3) [symmetric])

lemma list_update_dataType:
  "(hdr_bytes h)[5 := dt] = hdr_bytes (h\<lparr>dataType := dt\<rparr>)"
proof -
  define pre where "pre = [magic h, opcode h] @ bytes_le 2 (keyLen h) @ [extrasLen h]"
  have "length pre = 5" by (simp add: pre_def)
  then have "(pre @ x # suf)[5 := dt] = pre @ dt # suf" for x suf
    using list_update_length [of pre x suf dt] by simp
  then show ?thesis by (simp add: hdr_bytes_def pre_def)
qed

text \<open>C17. A response built in one buffer is read back by the protocol's framing as exactly the
  header, extras, key and value it was built from, whatever follows it on the stream and
  whatever the allocator left in the buffer; and the appending builder adds exactly those
  bytes to the output vector, keeping what was already there.\<close>

theorem response_roundtrip:
  assumes "\<And>n. length (alloc n) = n"
    and "section_ok extras en" and "section_ok key kn" and "section_ok value vn"
    and "lengths_fit en kn vn"
  shows "let b = buildResponse alloc opc st opq cs extras en key kn value vn in
     decode_frame (b @ rest) =
       Some (resp_hdr opc st opq cs en kn vn, section_bytes extras, section_bytes key,
             section_bytes value, rest) \<and>
     appendResponse out opc st opq cs extras en key kn value vn = out @ b"
  using assms
  by (simp add: Let_def buildResponse_eq appendResponse_eq decode_frame_append resp_hdr_lengths
      length_section)

theorem response_roundtrip_witness:
  "decode_frame (buildResponse (\<lambda>n. replicate n 0xAA) 0x20 Success 7 9 None 0 None 0
       (Some [0x50, 0x4C]) 2 @ [1]) =
     Some (resp_hdr 0x20 Success 7 9 0 0 2, [], [], [0x50, 0x4C], [1])"
  using response_roundtrip [of "\<lambda>n. replicate n 0xAA" None 0 None 0 "Some [0x50, 0x4C]" 2
      "0x20" Success 7 9 "[1]"]
  by (simp add: Let_def section_ok_def lengths_fit_def)

text \<open>C21. A GET hit appended to the output is one frame: the datatype stored with the document
  lands in the header's datatype byte (and nowhere else), the extras are the flags in
  network order, there is no key, and the value is the document's bytes.\<close>

theorem appendGetResponse_frame:
  assumes "section_ok value vn" and "4 + vn < 2 ^ 32"
  shows "\<exists>b. appendGetResponse out opq cs flags value vn dt = out @ b \<and>
    decode_frame (b @ rest) =
      Some (resp_hdr (opcode_val OpGet) Success opq cs 4 0 vn\<lparr>dataType := dt\<rparr>,
            rev (bytes_le 4 flags), [], section_bytes value, rest)"
proof -
  define h where "h = resp_hdr (opcode_val OpGet) Success opq cs 4 0 vn"
  have fit: "lengths_fit 4 0 vn" using assms(2) by (simp add: lengths_fit_def)
  have "section_ok (Some (flagsNBO flags)) 4" "section_ok (None :: bytes option) 0"
    by (simp_all add: section_ok_def flagsNBO_def)
  note app = appendResponse_eq [OF this assms(1)]
  have "appendGetResponse out opq cs flags value vn dt =
      out @ hdr_bytes (hton (h\<lparr>dataType := dt\<rparr>)) @ flagsNBO flags @ section_bytes value"
    by (simp add: appendGetResponse_def Let_def app list_update_append list_update_dataType
        kHeaderSize_def h_def hton_def resp_hdr_def)
  moreover have "decode_frame (hdr_bytes (hton (h\<lparr>dataType := dt\<rparr>)) @ flagsNBO flags @ [] @
      section_bytes value @ rest) =
      Some (h\<lparr>dataType := dt\<rparr>, flagsNBO flags, [], section_bytes value, rest)"
    by (rule decode_frame_append)
      (use resp_hdr_lengths [OF fit] length_section [OF assms(1)] in
        \<open>simp_all add: h_def flagsNBO_def\<close>)
  ultimately show ?thesis by (simp add: h_def flagsNBO_def bytes_le_bswap)
qed

theorem appendGetResponse_frame_witness:
  "\<exists>b. appendGetResponse [0xFF] 7 9 3 (Some [0x61]) 1 2 = [0xFF] @ b \<and>
    decode_frame (b @ []) =
     Some (resp_hdr (opcode_val OpGet) Success 7 9 4 0 1\<lparr>dataType := 2\<rparr>,
           rev (bytes_le 4 (3 :: u32)), [], [0x61], [])"
  using appendGetResponse_frame [of "Some [0x61]" 1 "[0xFF]" 7 9 3 2 "[]"]
  by (simp add: section_ok_def)

subsection \<open>Static documents\<close>

text \<open>Decimal output of an unsigned integer (\<open>ostream <<\<close>, \<open>std::to_string\<close>).\<close>

fun show_nat :: "nat \<Rightarrow> string" where
  "show_nat n = (if n < 10 then [char_of (48 + n)]
     else show_nat (n div 10) @ [char_of (48 + n mod 10)])"

declare show_nat.simps [simp del]

definition vbucket_map :: "nat \<Rightarrow> string" where
  "vbucket_map numVBuckets =
     concat (map (\<lambda>i. (if i > 0 then '','' else []) @ ''[0]'') [0..<numVBuckets])"

definition buildClusterConfigJson :: "string \<Rightarrow> u16 \<Rightarrow> string \<Rightarrow> u16 \<Rightarrow> u16 \<Rightarrow> string" where
  \<open>buildClusterConfigJson hostname port bucketName numVBuckets mgmtPort =
     (let mgmtPort = (if mgmtPort = 0 then port else mgmtPort);
          p = show_nat (unat port)
      in ''{'' @ ''"rev":1,'' @ ''"revEpoch":1,''
       @ ''"name":"'' @ bucketName @ ''",''
       @ ''"uri":"/pools/default/buckets/'' @ bucketName @ ''",''
       @ ''"streamingUri":"/pools/default/bucketsStreaming/'' @ bucketName @ ''",''
       @ ''"nodeLocator":"vbucket",'' @ ''"bucketType":"membase",''
       @ ''"uuid":"00000000000000000000000000000000",''
       @ ''"nodes":[{'' @ ''"hostname":"'' @ hostname @ '':'' @ p @ ''",''
       @ ''"ports":{"direct":'' @ p @ ''},'' @ ''"status":"healthy",''
       @ ''"version":"0.0.0"'' @ ''}],''
       @ ''"nodesExt":[{''
       @ ''"services":{"kv":'' @ p @ '',"mgmt":'' @ show_nat (unat mgmtPort) @ ''},''
       @ ''"thisNode":true,'' @ ''"hostname":"'' @ hostname @ ''"'' @ ''}],''
       @ ''"vBucketServerMap":{'' @ ''"hashAlgorithm":"CRC",'' @ ''"numReplicas":0,''
       @ ''"serverList":["'' @ hostname @ '':'' @ p @ ''"],'' @ ''"vBucketMap":[''
       @ vbucket_map (unat numVBuckets)
       @ '']}'' @ '',"bucketCapabilities":[]'' @ ''}'')\<close>

definition buildErrorMapJson :: string where
  \<open>buildErrorMapJson = ''{"version":1,"revision":1,"errors":{}}''\<close>

end
