(* ===== verification/Request_Queues.thy ===== *)
theory Request_Queues
  imports Mcbp_Protocol
begin

text \<open>
  Requests and the structures they are linked through (\<^verbatim>\<open>server/engine.h\<close>: \<open>Request\<close>,
  \<open>RequestStack\<close>, the shard's pool of recycled chains; \<^verbatim>\<open>server/engine.cc\<close>: the staging of writes,
  \<open>StageWrite\<close> and \<open>FlushStaged\<close>). A request is named by its address; the store maps addresses to
  requests, and a list is a chain of \<open>hook.next\<close> pointers in it. The latency-trace timestamps,
  which no decision reads, are left out. A magma status is represented by the answers to the two
  questions the server asks of it.
\<close>

subsection \<open>Requests\<close>

type_synonym rid = nat

record Status =
  IsOK :: bool
  IsOkDocNotFound :: bool

definition status_ok :: Status where
  "status_ok = \<lparr>IsOK = True, IsOkDocNotFound = False\<rparr>"

record Request =
  rq_next :: "rid option"
  rq_key :: bytes
  rq_value :: bytes
  rq_opcode :: u8
  rq_datatype :: u8
  rq_vbucket :: u16
  rq_flags :: u32
  rq_expiry :: u32
  rq_opaque :: u32
  rq_cas :: u64
  rq_dataBuf :: "bytes option"
  rq_conn :: "nat option"
  rq_evb :: "nat option"
  rq_ioOwner :: "nat option"
  rq_status :: Status
  rq_seqno :: u64
  rq_durableLsn :: u64
  rq_resFlags :: u32
  rq_resDatatype :: u8
  rq_response :: bytes
  rq_chainLen :: u32

definition new_request :: Request where
  "new_request = \<lparr>rq_next = None, rq_key = [], rq_value = [], rq_opcode = 0, rq_datatype = 0,
     rq_vbucket = 0, rq_flags = 0, rq_expiry = 0, rq_opaque = 0, rq_cas = 0, rq_dataBuf = None,
     rq_conn = None, rq_evb = None, rq_ioOwner = None, rq_status = status_ok, rq_seqno = 0,
     rq_durableLsn = 0, rq_resFlags = 0, rq_resDatatype = 0, rq_response = [], rq_chainLen = 0\<rparr>"

definition req_reset :: "Request \<Rightarrow> Request" where
  "req_reset r = r\<lparr>rq_opcode := 0, rq_vbucket := 0, rq_opaque := 0, rq_cas := 0, rq_key := [], rq_value := [],
     rq_flags := 0, rq_expiry := 0, rq_datatype := 0, rq_resDatatype := 0, rq_dataBuf := None,
     rq_conn := None, rq_evb := None, rq_ioOwner := None, rq_status := status_ok, rq_seqno := 0,
     rq_durableLsn := 0, rq_resFlags := 0, rq_response := []\<rparr>"

type_synonym store = "rid \<Rightarrow> Request"

definition set_req :: "store \<Rightarrow> rid \<Rightarrow> (Request \<Rightarrow> Request) \<Rightarrow> store" where
  "set_req st r f = st(r := f (st r))"

definition set_next :: "store \<Rightarrow> rid \<Rightarrow> rid option \<Rightarrow> store" where
  "set_next st r n = set_req st r (\<lambda>q. q\<lparr>rq_next := n\<rparr>)"

text \<open>What the queue budget charges for a request: its key, its value and the struct.\<close>

definition item_size :: "nat \<Rightarrow> Request \<Rightarrow> nat" where
  "item_size sizeof_Request q = length (rq_key q) + length (rq_value q) + sizeof_Request"

subsection \<open>The request stack\<close>

text \<open>\<open>insertChain\<close>: the exchange that publishes \<open>first\<close> succeeds against the head that \<open>last\<close> was
  linked to, so the pair is one atomic step. The result says whether the stack was empty.\<close>

definition insertChain :: "store \<Rightarrow> rid option \<Rightarrow> rid \<Rightarrow> rid \<Rightarrow> store \<times> rid option \<times> bool" where
  "insertChain st hd0 f l = (set_next st l hd0, Some f, hd0 = None)"

definition insertHead :: "store \<Rightarrow> rid option \<Rightarrow> rid \<Rightarrow> store \<times> rid option \<times> bool" where
  "insertHead st hd0 r = insertChain st hd0 r r"

text \<open>Unlinking a chain, with a bound on its length; the requests in the order met.\<close>

primrec drainChain :: "nat \<Rightarrow> store \<Rightarrow> rid option \<Rightarrow> (rid list \<times> store) option" where
  "drainChain 0 st h = (if h = None then Some ([], st) else None)"
| "drainChain (Suc n) st h =
     (case h of
        None \<Rightarrow> Some ([], st)
      | Some r \<Rightarrow>
          (case drainChain n (set_next st r None) (rq_next (st r)) of
             None \<Rightarrow> None
           | Some (rs, st') \<Rightarrow> Some (r # rs, st')))"

definition sweepOnce :: "nat \<Rightarrow> store \<Rightarrow> rid option \<Rightarrow> ((rid list \<times> store) \<times> rid option) option" where
  "sweepOnce n st hd0 = map_option (\<lambda>x. (x, None)) (drainChain n st hd0)"

subsection \<open>Staged writes\<close>

text \<open>The staging table of an IO thread, and the parts of the bucket the enqueue touches: per
  vbucket the write queue, its scheduling flag and its pending count, the bytes queued, and the
  tasks handed to the writer pools, newest last.\<close>

record StagedVB =
  sg_first :: "rid option"
  sg_last :: "rid option"
  sg_count :: nat

definition no_staged :: StagedVB where
  "no_staged = \<lparr>sg_first = None, sg_last = None, sg_count = 0\<rparr>"

record Staging =
  sg_vbs :: "u16 \<Rightarrow> StagedVB"
  sg_touched :: "u16 list"
  sg_bytes :: nat

definition empty_staging :: Staging where
  "empty_staging = \<lparr>sg_vbs = (\<lambda>_. no_staged), sg_touched = [], sg_bytes = 0\<rparr>"

record WriteQueues =
  wq_head :: "u16 \<Rightarrow> rid option"
  wq_scheduled :: "u16 \<Rightarrow> bool"
  wq_pending :: "u16 \<Rightarrow> nat"
  wq_queuedBytes :: nat
  wq_tasks :: "u16 list"

definition StageWrite :: "nat \<Rightarrow> nat \<Rightarrow> WriteQueues \<Rightarrow> store \<Rightarrow> Staging \<Rightarrow> rid \<Rightarrow> bool \<times> store \<times> Staging" where
  "StageWrite sizeof_Request limit q st t r =
     (let itemSize = item_size sizeof_Request (st r)
      in if wq_queuedBytes q + sg_bytes t + itemSize > limit then (False, st, t)
         else let t = t\<lparr>sg_bytes := sg_bytes t + itemSize\<rparr>;
                  v = rq_vbucket (st r);
                  s = sg_vbs t v;
                  t = (if sg_count s = 0 then t\<lparr>sg_touched := sg_touched t @ [v]\<rparr> else t);
                  s = (if sg_count s = 0 then s\<lparr>sg_last := Some r\<rparr> else s);
                  st = set_next st r (sg_first s);
                  s = s\<lparr>sg_first := Some r, sg_count := sg_count s + 1\<rparr>
              in (True, st, t\<lparr>sg_vbs := (sg_vbs t)(v := s)\<rparr>))"

text \<open>Handing one vbucket's chain over.\<close>

definition flush_vb :: "store \<times> WriteQueues \<times> Staging \<Rightarrow> u16 \<Rightarrow> store \<times> WriteQueues \<times> Staging" where
  "flush_vb x v =
     (let (st, q, t) = x; s = sg_vbs t v;
          (st, h, _) = insertChain st (wq_head q v) (the (sg_first s)) (the (sg_last s));
          q = q\<lparr>wq_head := (wq_head q)(v := h), wq_pending := (wq_pending q)(v := wq_pending q v + sg_count s)\<rparr>;
          t = t\<lparr>sg_vbs := (sg_vbs t)(v := no_staged)\<rparr>;
          was = wq_scheduled q v;
          q = q\<lparr>wq_scheduled := (wq_scheduled q)(v := True)\<rparr>;
          q = (if \<not> was then q\<lparr>wq_tasks := wq_tasks q @ [v]\<rparr> else q)
      in (st, q, t))"

definition FlushStaged :: "store \<Rightarrow> WriteQueues \<Rightarrow> Staging \<Rightarrow> store \<times> WriteQueues \<times> Staging" where
  "FlushStaged st q t =
     (let q = q\<lparr>wq_queuedBytes := wq_queuedBytes q + sg_bytes t\<rparr>;
          t = t\<lparr>sg_bytes := 0\<rparr>;
          (st, q, t) = foldl flush_vb (st, q, t) (sg_touched t)
      in (st, q, t\<lparr>sg_touched := []\<rparr>))"

subsection \<open>Recycled requests\<close>

text \<open>The shard's pool: the queue of chain heads and the count of requests they hold. Whether the
  bounded queue accepts a write is an argument.\<close>

record FreePool =
  fp_queue :: "rid list"
  fp_count :: int

definition kMaxFreeRequests :: int where "kMaxFreeRequests = 2 ^ 14"

definition RecycleRequests :: "bool \<Rightarrow> store \<Rightarrow> FreePool \<Rightarrow> rid \<Rightarrow> bool \<times> FreePool" where
  "RecycleRequests accepts st p chain =
     (let n = int (unat (rq_chainLen (st chain)))
      in if fp_count p + n > kMaxFreeRequests \<or> \<not> accepts then (False, p)
         else (True, p\<lparr>fp_queue := fp_queue p @ [chain], fp_count := fp_count p + n\<rparr>))"

definition TakeRequests :: "store \<Rightarrow> FreePool \<Rightarrow> rid option \<times> FreePool" where
  "TakeRequests st p =
     (case fp_queue p of
        [] \<Rightarrow> (None, p)
      | r # rs \<Rightarrow> (Some r, p\<lparr>fp_queue := rs, fp_count := fp_count p - int (unat (rq_chainLen (st r)))\<rparr>))"

subsection \<open>Chains\<close>

text \<open>The requests a chain of \<open>hook.next\<close> pointers goes through, up to \<open>e\<close>.\<close>

primrec path :: "store \<Rightarrow> rid option \<Rightarrow> rid list \<Rightarrow> rid option \<Rightarrow> bool" where
  "path st h [] e \<longleftrightarrow> h = e"
| "path st h (r # rs) e \<longleftrightarrow> h = Some r \<and> path st (rq_next (st r)) rs e"

lemma path_append: "path st h (xs @ ys) e \<longleftrightarrow> (\<exists>m. path st h xs m \<and> path st m ys e)"
  by (induction xs arbitrary: h) auto

lemma set_next_apply [simp]: "set_next st r n x = (if x = r then (st r)\<lparr>rq_next := n\<rparr> else st x)"
  by (simp add: set_next_def set_req_def)

lemma path_frame: "(\<And>x. x \<in> set xs \<Longrightarrow> rq_next (st' x) = rq_next (st x)) \<Longrightarrow> path st' h xs e = path st h xs e"
  by (induction xs arbitrary: h) auto

lemma path_outside [simp]: "r \<notin> set xs \<Longrightarrow> path (set_next st r n) h xs e = path st h xs e"
  by (rule path_frame) auto

lemma path_set_last:
  assumes "path st h (xs @ [l]) e" and "l \<notin> set xs"
  shows "path (set_next st l e') h (xs @ [l]) e'"
proof -
  obtain m where m: "path st h xs m" "m = Some l" using assms(1) by (auto simp: path_append)
  have "path (set_next st l e') h xs m" using m(1) assms(2) by simp
  then show ?thesis using m(2) by (auto simp: path_append)
qed

text \<open>Contents of a request that no list operation touches.\<close>

definition contents_eq :: "store \<Rightarrow> store \<Rightarrow> bool" where
  "contents_eq st st' \<longleftrightarrow> (\<forall>r. (st' r)\<lparr>rq_next := None\<rparr> = (st r)\<lparr>rq_next := None\<rparr>)"

lemma contents_eq_refl [simp]: "contents_eq st st"
  by (simp add: contents_eq_def)

lemma contents_eq_trans: "contents_eq st st' \<Longrightarrow> contents_eq st' st'' \<Longrightarrow> contents_eq st st''"
  by (simp add: contents_eq_def)

lemma contents_eq_set_next [simp]: "contents_eq st (set_next st' r n) = contents_eq st st'"
  by (auto simp: contents_eq_def)

lemma contents_eqD:
  assumes "contents_eq st st'"
  shows "rq_key (st' r) = rq_key (st r)" "rq_value (st' r) = rq_value (st r)"
    "rq_vbucket (st' r) = rq_vbucket (st r)" "item_size n (st' r) = item_size n (st r)"
proof -
  have e: "(st' r)\<lparr>rq_next := None\<rparr> = (st r)\<lparr>rq_next := None\<rparr>" using assms by (simp add: contents_eq_def)
  show k: "rq_key (st' r) = rq_key (st r)" using arg_cong [OF e, of rq_key] by simp
  show v: "rq_value (st' r) = rq_value (st r)" using arg_cong [OF e, of rq_value] by simp
  show "rq_vbucket (st' r) = rq_vbucket (st r)" using arg_cong [OF e, of rq_vbucket] by simp
  show "item_size n (st' r) = item_size n (st r)" using k v by (simp add: item_size_def)
qed

lemma insertChain_ok:
  assumes "path st (Some f) (xs @ [l]) e" and "distinct (xs @ l # ys)" and "path st h ys None"
    and "insertChain st h f l = (st', h', was)"
  shows "path st' h' (xs @ l # ys) None \<and> (was \<longleftrightarrow> ys = []) \<and> contents_eq st st'"
proof -
  have st': "st' = set_next st l h" "h' = Some f" "was \<longleftrightarrow> h = None" using assms(4) by (auto simp: insertChain_def)
  have "path st' (Some f) (xs @ [l]) h" unfolding st' by (rule path_set_last [OF assms(1)]) (use assms(2) in auto)
  moreover have "path st' h ys None"
    using assms(2,3) by (simp add: st')
  ultimately have "path st' (Some f) ((xs @ [l]) @ ys) None" unfolding path_append by blast
  then show ?thesis using st' assms(3) by (cases ys) auto
qed

lemma drainChain_ok:
  "path st h xs None \<Longrightarrow> distinct xs \<Longrightarrow> length xs \<le> n \<Longrightarrow>
   \<exists>st'. drainChain n st h = Some (xs, st') \<and> contents_eq st st'"
proof (induction xs arbitrary: st h n)
  case Nil
  then show ?case by (cases n) simp_all
next
  case (Cons r rs)
  obtain m where n: "n = Suc m" using Cons.prems(3) by (cases n) auto
  have p: "path (set_next st r None) (rq_next (st r)) rs None"
    using Cons.prems(1,2) by simp
  obtain st' where "drainChain m (set_next st r None) (rq_next (st r)) = Some (rs, st')"
    "contents_eq (set_next st r None) st'"
    using Cons.IH [OF p, of m] Cons.prems(2,3) n by (metis Suc_le_mono distinct.simps(2) length_Cons)
  then show ?case using Cons.prems(1) n contents_eq_trans [of st "set_next st r None" st'] by auto
qed

lemma sweepOnce_ok:
  assumes "path st h xs None" and "distinct xs" and "length xs \<le> n"
  shows "\<exists>st'. sweepOnce n st h = Some ((xs, st'), None) \<and> contents_eq st st'"
  using drainChain_ok [OF assms] by (auto simp: sweepOnce_def)

subsection \<open>Staging and queues as lists\<close>

text \<open>\<open>xs v\<close> are the requests staged for vbucket \<open>v\<close> and \<open>ys v\<close> those in its write queue, newest
  first.\<close>

definition vb_ok :: "store \<Rightarrow> WriteQueues \<Rightarrow> Staging \<Rightarrow> u16 \<Rightarrow> rid list \<Rightarrow> rid list \<Rightarrow> bool" where
  "vb_ok st q t v xs ys \<longleftrightarrow> path st (sg_first (sg_vbs t v)) xs None \<and> path st (wq_head q v) ys None \<and>
     distinct (xs @ ys) \<and> sg_count (sg_vbs t v) = length xs \<and>
     (xs \<noteq> [] \<longrightarrow> sg_last (sg_vbs t v) = Some (last xs))"

definition apart :: "(u16 \<Rightarrow> rid list) \<Rightarrow> (u16 \<Rightarrow> rid list) \<Rightarrow> bool" where
  "apart xs ys \<longleftrightarrow> (\<forall>v w. v \<noteq> w \<longrightarrow> (set (xs v) \<union> set (ys v)) \<inter> (set (xs w) \<union> set (ys w)) = {})"

definition staged_bytes :: "nat \<Rightarrow> store \<Rightarrow> (u16 \<Rightarrow> rid list) \<Rightarrow> u16 list \<Rightarrow> nat" where
  "staged_bytes n st xs vs = (\<Sum>v\<leftarrow>vs. \<Sum>r\<leftarrow>xs v. item_size n (st r))"

definition staging_ok :: "nat \<Rightarrow> store \<Rightarrow> WriteQueues \<Rightarrow> Staging \<Rightarrow> (u16 \<Rightarrow> rid list) \<Rightarrow> (u16 \<Rightarrow> rid list) \<Rightarrow> bool" where
  "staging_ok n st q t xs ys \<longleftrightarrow> (\<forall>v. vb_ok st q t v (xs v) (ys v)) \<and> apart xs ys \<and>
     distinct (sg_touched t) \<and> set (sg_touched t) = {v. xs v \<noteq> []} \<and>
     sg_bytes t = staged_bytes n st xs (sg_touched t)"

lemma staged_bytes_contents:
  "contents_eq st st' \<Longrightarrow> staged_bytes n st' xs vs = staged_bytes n st xs vs"
  by (simp add: staged_bytes_def contents_eqD(4))

lemma staged_bytes_simps [simp]: "staged_bytes n st xs [] = 0"
  "staged_bytes n st xs (v # vs) = (\<Sum>r\<leftarrow>xs v. item_size n (st r)) + staged_bytes n st xs vs"
  "staged_bytes n st xs (vs @ ws) = staged_bytes n st xs vs + staged_bytes n st xs ws"
  by (simp_all add: staged_bytes_def)

lemma staged_bytes_outside: "v \<notin> set vs \<Longrightarrow> staged_bytes n st (xs(v := ys)) vs = staged_bytes n st xs vs"
  by (auto simp: staged_bytes_def intro!: arg_cong [of _ _ sum_list])

lemma staged_bytes_add:
  assumes "distinct vs" and "v \<in> set vs"
  shows "staged_bytes n st (xs(v := r # xs v)) vs = item_size n (st r) + staged_bytes n st xs vs"
  using assms by (induction vs) (auto simp: staged_bytes_outside)

lemma vb_ok_frame:
  assumes "vb_ok st q t v xs ys" and "sg_vbs t' v = sg_vbs t v" and "wq_head q' v = wq_head q v"
    and "\<And>r. r \<in> set (xs @ ys) \<Longrightarrow> rq_next (st' r) = rq_next (st r)"
  shows "vb_ok st' q' t' v xs ys"
proof -
  have "path st' h xs e = path st h xs e" "path st' h ys e = path st h ys e" for h e
    using assms(4) by (auto intro!: path_frame)
  then show ?thesis using assms(1-3) by (simp add: vb_ok_def)
qed

lemma StageWrite_ok:
  assumes ok: "staging_ok n st q t xs ys" and fresh: "\<And>v. r \<notin> set (xs v) \<union> set (ys v)"
    and s: "StageWrite n limit q st t r = (True, st', t')" and v: "v = rq_vbucket (st r)"
  shows "staging_ok n st' q t' (xs(v := r # xs v)) ys \<and> contents_eq st st' \<and>
    sg_bytes t' = sg_bytes t + item_size n (st r) \<and> wq_queuedBytes q + sg_bytes t' \<le> limit"
proof -
  let ?s = "sg_vbs t v"
  have acc: "wq_queuedBytes q + sg_bytes t + item_size n (st r) \<le> limit"
    using s by (auto simp: StageWrite_def Let_def split: if_splits)
  have cnt: "sg_count ?s = length (xs v)" using ok by (simp add: staging_ok_def vb_ok_def)
  have st': "st' = set_next st r (sg_first ?s)"
    and vbs: "sg_vbs t' = (sg_vbs t)(v := ?s\<lparr>sg_first := Some r, sg_count := length (xs v) + 1,
       sg_last := (if xs v = [] then Some r else sg_last ?s)\<rparr>)"
    and tch: "sg_touched t' = (if xs v = [] then sg_touched t @ [v] else sg_touched t)"
    and byt: "sg_bytes t' = sg_bytes t + item_size n (st r)"
    using s acc cnt by (auto simp: StageWrite_def Let_def v)
  have ce: "contents_eq st st'" by (simp add: st')
  have V: "vb_ok st q t w (xs w) (ys w)" for w using ok by (simp add: staging_ok_def)
  have "vb_ok st' q t' w ((xs(v := r # xs v)) w) (ys w)" for w
  proof (cases "w = v")
    case True
    then show ?thesis using V [of v] fresh [of v] by (auto simp: vb_ok_def st' vbs)
  next
    case False
    then show ?thesis using fresh [of w] by (auto intro!: vb_ok_frame [OF V] simp: vbs st')
  qed
  moreover have "apart (xs(v := r # xs v)) ys"
    using ok fresh unfolding staging_ok_def apart_def by (auto split: if_splits)
  moreover have "distinct (sg_touched t') \<and> set (sg_touched t') = {w. (xs(v := r # xs v)) w \<noteq> []}"
    using ok by (auto simp: staging_ok_def tch)
  moreover have "sg_bytes t' = staged_bytes n st' (xs(v := r # xs v)) (sg_touched t')"
  proof (cases "xs v = []")
    case True
    then have "v \<notin> set (sg_touched t)" using ok by (simp add: staging_ok_def)
    then have "staged_bytes n st (xs(v := r # xs v)) (sg_touched t') =
        staged_bytes n st xs (sg_touched t) + item_size n (st r)"
      using True staged_bytes_outside [of v "sg_touched t" n st xs "[r]"] by (simp add: tch)
    then show ?thesis using ok staged_bytes_contents [OF ce] byt by (simp add: staging_ok_def)
  next
    case False
    then have "v \<in> set (sg_touched t)" "distinct (sg_touched t)" using ok by (auto simp: staging_ok_def)
    then show ?thesis
      using ok staged_bytes_contents [OF ce] byt False by (simp add: staging_ok_def tch staged_bytes_add)
  qed
  ultimately show ?thesis using ce byt acc by (simp add: staging_ok_def)
qed

lemma StageWrite_refused:
  "StageWrite n limit q st t r = (False, st', t') \<Longrightarrow>
     st' = st \<and> t' = t \<and> wq_queuedBytes q + sg_bytes t + item_size n (st r) > limit"
  by (auto simp: StageWrite_def Let_def split: if_splits)

definition lists_ok :: "store \<Rightarrow> WriteQueues \<Rightarrow> Staging \<Rightarrow> (u16 \<Rightarrow> rid list) \<Rightarrow> (u16 \<Rightarrow> rid list) \<Rightarrow> bool" where
  "lists_ok st q t xs ys \<longleftrightarrow> (\<forall>v. vb_ok st q t v (xs v) (ys v)) \<and> apart xs ys"

text \<open>What handing over the chains of the vbuckets \<open>vs\<close> leaves.\<close>

definition handed :: "u16 list \<Rightarrow> (u16 \<Rightarrow> rid list) \<Rightarrow> WriteQueues \<Rightarrow> Staging \<Rightarrow> WriteQueues \<Rightarrow> Staging \<Rightarrow> bool" where
  "handed vs xs q t q' t' \<longleftrightarrow> wq_queuedBytes q' = wq_queuedBytes q \<and> sg_bytes t' = sg_bytes t \<and>
     sg_touched t' = sg_touched t \<and>
     wq_scheduled q' = (\<lambda>v. v \<in> set vs \<or> wq_scheduled q v) \<and>
     wq_pending q' = (\<lambda>v. if v \<in> set vs then wq_pending q v + length (xs v) else wq_pending q v) \<and>
     wq_tasks q' = wq_tasks q @ filter (\<lambda>v. \<not> wq_scheduled q v) vs"

lemma flush_vb_ok:
  assumes ok: "lists_ok st q t xs ys" and ne: "xs v \<noteq> []" and f: "flush_vb (st, q, t) v = (st', q', t')"
  shows "lists_ok st' q' t' (xs(v := [])) (ys(v := xs v @ ys v)) \<and> contents_eq st st' \<and> handed [v] xs q t q' t'"
proof -
  have V: "vb_ok st q t w (xs w) (ys w)" for w using ok by (simp add: lists_ok_def)
  obtain l zs where xv: "xs v = zs @ [l]" using ne by (cases "xs v" rule: rev_cases) auto
  have p: "path st (sg_first (sg_vbs t v)) (zs @ [l]) None" "path st (wq_head q v) (ys v) None"
    "distinct (zs @ l # ys v)" "sg_last (sg_vbs t v) = Some l" "sg_count (sg_vbs t v) = length (xs v)"
    using V [of v] xv by (auto simp: vb_ok_def)
  obtain fst0 where f0: "sg_first (sg_vbs t v) = Some fst0" using p(1) by (cases zs) auto
  obtain h was where ic: "insertChain st (wq_head q v) fst0 l = (set_next st l (wq_head q v), h, was)"
    by (simp add: insertChain_def)
  note I = insertChain_ok [OF p(1) [unfolded f0] p(3,2) ic]
  have st': "st' = set_next st l (wq_head q v)" and t': "t' = t\<lparr>sg_vbs := (sg_vbs t)(v := no_staged)\<rparr>"
    and q': "q' = q\<lparr>wq_head := (wq_head q)(v := h), wq_pending := (wq_pending q)(v := wq_pending q v + length (xs v)),
      wq_scheduled := (wq_scheduled q)(v := True),
      wq_tasks := (if wq_scheduled q v then wq_tasks q else wq_tasks q @ [v])\<rparr>"
    using f ic f0 p(4,5) by (simp_all add: flush_vb_def Let_def split: if_splits)
  then have hd0: "wq_head q' = (wq_head q)(v := h)" and vbs: "sg_vbs t' = (sg_vbs t)(v := no_staged)"
    and H: "handed [v] xs q t q' t'"
    by (simp_all add: handed_def fun_eq_iff)
  have "vb_ok st' q' t' w ((xs(v := [])) w) ((ys(v := xs v @ ys v)) w)" for w
  proof (cases "w = v")
    case True
    then show ?thesis using I p(3) xv by (simp add: vb_ok_def vbs hd0 st' no_staged_def)
  next
    case False
    have "l \<in> set (xs v)" using xv by simp
    then have "l \<notin> set (xs w) \<union> set (ys w)" using ok False unfolding lists_ok_def apart_def by blast
    then show ?thesis using False by (auto intro!: vb_ok_frame [OF V] simp: vbs st' hd0)
  qed
  moreover have "apart (xs(v := [])) (ys(v := xs v @ ys v))"
    using ok unfolding lists_ok_def apart_def by (auto simp: Un_commute)
  ultimately show ?thesis using I H st' by (simp add: lists_ok_def)
qed

lemma handed_trans:
  assumes "handed [v] xs q t q1 t1" and "handed vs (xs(v := [])) q1 t1 q2 t2" and "v \<notin> set vs"
  shows "handed (v # vs) xs q t q2 t2"
proof -
  have "filter (\<lambda>w. \<not> wq_scheduled q1 w) vs = filter (\<lambda>w. \<not> wq_scheduled q w) vs"
    using assms(1,3) by (intro filter_cong) (auto simp: handed_def)
  then show ?thesis using assms by (auto simp: handed_def fun_eq_iff)
qed

lemma flush_all_ok:
  assumes "lists_ok st q t xs ys" and "distinct vs" and "\<And>v. v \<in> set vs \<Longrightarrow> xs v \<noteq> []"
    and "foldl flush_vb (st, q, t) vs = (st', q', t')"
  shows "lists_ok st' q' t' (\<lambda>v. if v \<in> set vs then [] else xs v) (\<lambda>v. if v \<in> set vs then xs v @ ys v else ys v) \<and>
    contents_eq st st' \<and> handed vs xs q t q' t'"
  using assms
proof (induction vs arbitrary: st q t xs ys)
  case Nil
  then show ?case by (simp add: handed_def)
next
  case (Cons v vs)
  obtain st1 q1 t1 where f: "flush_vb (st, q, t) v = (st1, q1, t1)" by (metis prod_cases3)
  note F = flush_vb_ok [OF Cons.prems(1) _ f]
  have F': "lists_ok st1 q1 t1 (xs(v := [])) (ys(v := xs v @ ys v))" "contents_eq st st1"
    "handed [v] xs q t q1 t1" using F Cons.prems(3) by auto
  have ne: "(xs(v := [])) w \<noteq> []" if "w \<in> set vs" for w using that Cons.prems(2,3) by auto
  have fl: "distinct vs" "foldl flush_vb (st1, q1, t1) vs = (st', q', t')"
    using Cons.prems(2,4) f by simp_all
  have R: "lists_ok st' q' t' (\<lambda>w. if w \<in> set vs then [] else (xs(v := [])) w)
      (\<lambda>w. if w \<in> set vs then (xs(v := [])) w @ (ys(v := xs v @ ys v)) w else (ys(v := xs v @ ys v)) w)"
    "contents_eq st1 st'" "handed vs (xs(v := [])) q1 t1 q' t'"
    using Cons.IH [OF F'(1) fl(1) ne fl(2)] by blast+
  have "(\<lambda>w. if w \<in> set vs then [] else (xs(v := [])) w) = (\<lambda>w. if w \<in> set (v # vs) then [] else xs w)"
    "(\<lambda>w. if w \<in> set vs then (xs(v := [])) w @ (ys(v := xs v @ ys v)) w else (ys(v := xs v @ ys v)) w) =
     (\<lambda>w. if w \<in> set (v # vs) then xs w @ ys w else ys w)"
    using Cons.prems(2) by (auto simp: fun_eq_iff)
  then show ?case
    using R contents_eq_trans [OF F'(2) R(2)] handed_trans [OF F'(3) R(3)] Cons.prems(2) by simp
qed

lemma FlushStaged_ok:
  assumes ok: "staging_ok n st q t xs ys" and f: "FlushStaged st q t = (st', q', t')"
  shows "staging_ok n st' q' t' (\<lambda>_. []) (\<lambda>v. xs v @ ys v) \<and> contents_eq st st' \<and>
    wq_queuedBytes q' = wq_queuedBytes q + staged_bytes n st xs (sg_touched t) \<and>
    (\<forall>v. xs v \<noteq> [] \<longrightarrow> wq_scheduled q' v) \<and>
    (\<forall>v. wq_pending q' v = wq_pending q v + length (xs v)) \<and>
    wq_tasks q' = wq_tasks q @ filter (\<lambda>v. \<not> wq_scheduled q v) (sg_touched t)"
proof -
  let ?q = "q\<lparr>wq_queuedBytes := wq_queuedBytes q + sg_bytes t\<rparr>" and ?t = "t\<lparr>sg_bytes := 0\<rparr>"
  obtain t1 where fl: "foldl flush_vb (st, ?q, ?t) (sg_touched t) = (st', q', t1)" and t': "t' = t1\<lparr>sg_touched := []\<rparr>"
    using f by (auto simp: FlushStaged_def Let_def split: prod.splits)
  have L: "lists_ok st ?q ?t xs ys" using ok by (simp add: staging_ok_def lists_ok_def vb_ok_def)
  have D: "distinct (sg_touched t)" "set (sg_touched t) = {v. xs v \<noteq> []}"
    "sg_bytes t = staged_bytes n st xs (sg_touched t)" using ok by (auto simp: staging_ok_def)
  have F: "lists_ok st' q' t1 (\<lambda>v. if v \<in> set (sg_touched t) then [] else xs v)
      (\<lambda>v. if v \<in> set (sg_touched t) then xs v @ ys v else ys v)"
    "contents_eq st st'" "handed (sg_touched t) xs ?q ?t q' t1"
    using flush_all_ok [OF L D(1) _ fl] D(2) by auto
  have xy: "(\<lambda>v. if v \<in> set (sg_touched t) then [] else xs v) = (\<lambda>_. [])"
    "(\<lambda>v. if v \<in> set (sg_touched t) then xs v @ ys v else ys v) = (\<lambda>v. xs v @ ys v)"
    using D(2) by (auto simp: fun_eq_iff)
  have "staging_ok n st' q' t' (\<lambda>_. []) (\<lambda>v. xs v @ ys v)"
    using F(1,3) unfolding xy by (simp add: staging_ok_def lists_ok_def t' vb_ok_def handed_def)
  then show ?thesis using F(2,3) D by (auto simp: handed_def)
qed

text \<open>Staging the requests of one socket read, in arrival order; the accepted ones.\<close>

fun stage_all :: "nat \<Rightarrow> nat \<Rightarrow> WriteQueues \<Rightarrow> store \<Rightarrow> Staging \<Rightarrow> rid list \<Rightarrow> rid list \<times> store \<times> Staging" where
  "stage_all n limit q st t [] = ([], st, t)"
| "stage_all n limit q st t (r # rs) =
     (let (ok, st, t) = StageWrite n limit q st t r; (acc, st, t) = stage_all n limit q st t rs
      in (if ok then r # acc else acc, st, t))"

definition for_vb :: "store \<Rightarrow> u16 \<Rightarrow> rid list \<Rightarrow> rid list" where
  "for_vb st v rs = filter (\<lambda>r. rq_vbucket (st r) = v) rs"

lemma for_vb_simps [simp]: "for_vb st v [] = []"
  "for_vb st v (r # rs) = (if rq_vbucket (st r) = v then r # for_vb st v rs else for_vb st v rs)"
  by (simp_all add: for_vb_def)

lemma for_vb_contents: "contents_eq st st' \<Longrightarrow> for_vb st' v rs = for_vb st v rs"
  by (simp add: for_vb_def contents_eqD(3))

lemma stage_all_ok:
  assumes "staging_ok n st q t xs ys" and "distinct rs"
    and "\<And>v. set rs \<inter> (set (xs v) \<union> set (ys v)) = {}"
    and "stage_all n limit q st t rs = (acc, st', t')"
  shows "staging_ok n st' q t' (\<lambda>v. rev (for_vb st v acc) @ xs v) ys \<and> contents_eq st st' \<and>
    set acc \<subseteq> set rs \<and> sg_bytes t' = sg_bytes t + (\<Sum>r\<leftarrow>acc. item_size n (st r)) \<and>
    (acc \<noteq> [] \<longrightarrow> wq_queuedBytes q + sg_bytes t' \<le> limit)"
  using assms
proof (induction rs arbitrary: st t xs acc)
  case Nil
  then show ?case by simp
next
  case (Cons r rs)
  obtain ok st1 t1 where s1: "StageWrite n limit q st t r = (ok, st1, t1)" by (metis prod_cases3)
  obtain acc1 where s2: "stage_all n limit q st1 t1 rs = (acc1, st', t')"
    and acc: "acc = (if ok then r # acc1 else acc1)"
    using Cons.prems(4) s1 by (auto simp: Let_def split: prod.splits)
  show ?case
  proof (cases ok)
    case True
    let ?v = "rq_vbucket (st r)"
    have s1': "StageWrite n limit q st t r = (True, st1, t1)" using s1 True by simp
    have fresh: "r \<notin> set (xs v) \<union> set (ys v)" for v using Cons.prems(3) [of v] by auto
    have S: "staging_ok n st1 q t1 (xs(?v := r # xs ?v)) ys" "contents_eq st st1"
      "sg_bytes t1 = sg_bytes t + item_size n (st r)" "wq_queuedBytes q + sg_bytes t1 \<le> limit"
      using StageWrite_ok [OF Cons.prems(1) fresh s1' refl] by blast+
    have d: "distinct rs" using Cons.prems(2) by simp
    have fr: "set rs \<inter> (set ((xs(?v := r # xs ?v)) v) \<union> set (ys v)) = {}" for v
      using Cons.prems(2) Cons.prems(3) [of v] by auto
    note I = Cons.IH [OF S(1) d fr s2]
    have eq: "(\<lambda>v. rev (for_vb st1 v acc1) @ (xs(?v := r # xs ?v)) v) = (\<lambda>v. rev (for_vb st v acc) @ xs v)"
      using for_vb_contents [OF S(2)] acc True by (auto simp: fun_eq_iff)
    have ok1: "staging_ok n st' q t' (\<lambda>v. rev (for_vb st v acc) @ xs v) ys"
      using I [THEN conjunct1] unfolding eq .
    have sz: "(\<Sum>r\<leftarrow>acc1. item_size n (st1 r)) = (\<Sum>r\<leftarrow>acc1. item_size n (st r))"
      by (simp add: contents_eqD(4) [OF S(2)])
    have b: "sg_bytes t' = sg_bytes t1 + (\<Sum>r\<leftarrow>acc1. item_size n (st r))" "set acc1 \<subseteq> set rs"
      "contents_eq st1 st'" "acc1 \<noteq> [] \<longrightarrow> wq_queuedBytes q + sg_bytes t' \<le> limit"
      using I sz by metis+
    have "wq_queuedBytes q + sg_bytes t' \<le> limit" using b(1,4) S(4) by (cases "acc1 = []") simp_all
    then show ?thesis
      using ok1 b S(3) contents_eq_trans [OF S(2) b(3)] acc True by auto
  next
    case False
    then have e: "st1 = st" "t1 = t" using StageWrite_refused s1 by auto
    have d: "distinct rs" using Cons.prems(2) by simp
    have fr: "set rs \<inter> (set (xs v) \<union> set (ys v)) = {}" for v using Cons.prems(3) [of v] by auto
    note I = Cons.IH [OF Cons.prems(1) d fr s2 [unfolded e]]
    show ?thesis using I acc False by auto
  qed
qed

text \<open>C20. A write reaches its writer in arrival order, nothing lost or duplicated: when an IO thread
  stages the requests of a socket read and flushes, the batch a writer then takes from a vbucket's
  queue (one sweep, reversed) is the requests already queued followed by the accepted ones of this
  vbucket, in the order they arrived; the vbucket is scheduled, the queue budget grew by exactly
  the accepted requests' sizes, and it stays within the limit.\<close>

theorem staged_writes_arrive_in_order:
  assumes "staging_ok n st q empty_staging (\<lambda>_. []) ys" and "distinct rs"
    and "\<And>v. set rs \<inter> set (ys v) = {}" and "stage_all n limit q st empty_staging rs = (acc, st1, t1)"
    and "FlushStaged st1 q t1 = (st2, q2, t2)" and "length (ys v) + length rs \<le> fuel"
  shows "\<exists>batch st3. sweepOnce fuel st2 (wq_head q2 v) = Some ((batch, st3), None) \<and>
    rev batch = rev (ys v) @ for_vb st v acc \<and> contents_eq st st3 \<and>
    (for_vb st v acc \<noteq> [] \<longrightarrow> wq_scheduled q2 v) \<and> set acc \<subseteq> set rs \<and>
    wq_queuedBytes q2 = wq_queuedBytes q + (\<Sum>r\<leftarrow>acc. item_size n (st r)) \<and>
    (acc \<noteq> [] \<longrightarrow> wq_queuedBytes q2 \<le> limit)"
proof -
  have dis: "set rs \<inter> (set [] \<union> set (ys v)) = {}" for v using assms(3) by simp
  have S: "staging_ok n st1 q t1 (\<lambda>v. rev (for_vb st v acc) @ []) ys" "contents_eq st st1"
    "set acc \<subseteq> set rs" "sg_bytes t1 = (\<Sum>r\<leftarrow>acc. item_size n (st r))"
    "acc \<noteq> [] \<longrightarrow> wq_queuedBytes q + sg_bytes t1 \<le> limit"
    using stage_all_ok [OF assms(1,2) dis assms(4)] by (auto simp: empty_staging_def)
  have F: "staging_ok n st2 q2 t2 (\<lambda>_. []) (\<lambda>v. rev (for_vb st v acc) @ ys v)" "contents_eq st1 st2"
    "wq_queuedBytes q2 = wq_queuedBytes q + sg_bytes t1"
    "rev (for_vb st v acc) \<noteq> [] \<longrightarrow> wq_scheduled q2 v"
    using FlushStaged_ok [OF S(1) assms(5)] S(1) by (auto simp: staging_ok_def)
  have p: "path st2 (wq_head q2 v) (rev (for_vb st v acc) @ ys v) None" "distinct (rev (for_vb st v acc) @ ys v)"
    using F(1) by (auto simp: staging_ok_def vb_ok_def)
  then have "length (for_vb st v acc) = card (set (for_vb st v acc))"
    by (metis distinct_append distinct_card distinct_rev)
  also have "\<dots> \<le> card (set rs)" using S(3) by (intro card_mono) (auto simp: for_vb_def)
  finally have "length (rev (for_vb st v acc) @ ys v) \<le> fuel" using assms(6) card_length [of rs] by simp
  from sweepOnce_ok [OF p this] obtain st3 where
    "sweepOnce fuel st2 (wq_head q2 v) = Some ((rev (for_vb st v acc) @ ys v, st3), None)" "contents_eq st2 st3"
    by blast
  then show ?thesis
    using S F contents_eq_trans [OF S(2) contents_eq_trans [OF F(2)]]
    by (intro exI [of _ "rev (for_vb st v acc) @ ys v"] exI [of _ st3]) auto
qed

definition idle_queues :: WriteQueues where
  "idle_queues = \<lparr>wq_head = \<lambda>_. None, wq_scheduled = \<lambda>_. False, wq_pending = \<lambda>_. 0,
     wq_queuedBytes = 0, wq_tasks = []\<rparr>"

lemma idle_queues_ok: "staging_ok n st idle_queues empty_staging (\<lambda>_. []) (\<lambda>_. [])"
  by (simp add: staging_ok_def vb_ok_def apart_def empty_staging_def no_staged_def idle_queues_def)

theorem staged_writes_arrive_in_order_witness:
  "\<exists>st1 t1 st2 q2 t2 batch st3.
     stage_all 1 100 idle_queues (\<lambda>_. new_request) empty_staging [1, 2] = ([1, 2], st1, t1) \<and>
     FlushStaged st1 idle_queues t1 = (st2, q2, t2) \<and>
     sweepOnce 2 st2 (wq_head q2 0) = Some ((batch, st3), None) \<and> rev batch = [1, 2]"
proof -
  obtain acc st1 t1 where s: "stage_all 1 100 idle_queues (\<lambda>_. new_request) empty_staging [1, 2] = (acc, st1, t1)"
    by (metis prod_cases3)
  obtain st2 q2 t2 where f: "FlushStaged st1 idle_queues t1 = (st2, q2, t2)" by (metis prod_cases3)
  have acc: "acc = [1, 2]"
    using s by (auto simp: StageWrite_def item_size_def new_request_def empty_staging_def no_staged_def
        idle_queues_def Let_def)
  have "\<exists>batch st3. sweepOnce 2 st2 (wq_head q2 0) = Some ((batch, st3), None) \<and>
      rev batch = rev [] @ for_vb (\<lambda>_. new_request) 0 acc"
    using staged_writes_arrive_in_order [OF idle_queues_ok _ _ s f, where v = 0 and fuel = 2] by fastforce
  moreover have "for_vb (\<lambda>_. new_request) 0 acc = [1, 2]" by (simp add: acc new_request_def)
  ultimately show ?thesis using s f acc by auto
qed

end
