(* ===== verification/Batch_Order.thy ===== *)
theory Batch_Order
  imports Request_Queues Complex_Main "HOL-Library.Multiset"
begin

text \<open>
  Ordering and deduplication of a write batch (\<^verbatim>\<open>server/engine.cc\<close>: \<open>keyPrefix\<close>,
  \<open>estimateDupFraction\<close>, and the sort inside \<open>WriterPool::executePersist\<close>). Keys are compared by an
  eight-byte prefix, a length and, only where these do not decide, the whole key; the theory shows
  that this is the byte order of the keys, so that equal keys are adjacent and the last of a run is
  the newest write.
\<close>

subsection \<open>The model\<close>

definition keyPrefix :: "bytes \<Rightarrow> u64" where
  "keyPrefix k =
     (if length k \<ge> 8 then bswap 8 (le_word (take 8 k))
      else foldl (\<lambda>p j. p OR push_bit (56 - 8 * j) (ucast (k ! j))) 0 [0..<length k])"

text \<open>\<open>std::string_view\<close>'s order.\<close>

fun sv_less :: "bytes \<Rightarrow> bytes \<Rightarrow> bool" where
  "sv_less xs [] \<longleftrightarrow> False"
| "sv_less [] (y # ys) \<longleftrightarrow> True"
| "sv_less (x # xs) (y # ys) \<longleftrightarrow> x < y \<or> (x = y \<and> sv_less xs ys)"

definition kDupSampleMax :: nat where "kDupSampleMax = 128"

text \<open>The sampling loop: position, items sampled, duplicates and prefixes seen so far.\<close>

function dup_sample :: "bytes list \<Rightarrow> nat \<Rightarrow> nat \<Rightarrow> nat \<Rightarrow> nat \<Rightarrow> nat \<Rightarrow> u64 set \<Rightarrow> nat \<times> nat" where
  "dup_sample keys want stride i sampled dups seen =
     (if i < length keys \<and> sampled < want \<and> 0 < stride
      then let p = keyPrefix (keys ! i)
           in dup_sample keys want stride (i + stride) (sampled + 1)
                (if p \<in> seen then dups + 1 else dups) (insert p seen)
      else (sampled, dups))"
  by pat_completeness auto
termination by (relation "measure (\<lambda>(keys, want, stride, i, sampled, dups, seen). length keys - i)") auto

declare dup_sample.simps [simp del]

definition estimateDupFraction :: "bytes list \<Rightarrow> real" where
  "estimateDupFraction keys =
     (let n = length keys; want = min n kDupSampleMax; stride = max 1 (n div want);
          (sampled, dups) = dup_sample keys want stride 0 0 0 {}
      in if sampled > 1 then real dups / real sampled else 0)"

record SortKey =
  sk_prefix :: u64
  sk_idx :: nat
  sk_len :: nat

definition sort_keys :: "bytes list \<Rightarrow> SortKey list" where
  "sort_keys ks = map (\<lambda>i. \<lparr>sk_prefix = keyPrefix (ks ! i), sk_idx = i, sk_len = length (ks ! i)\<rparr>) [0..<length ks]"

definition sameKey :: "bytes list \<Rightarrow> SortKey \<Rightarrow> SortKey \<Rightarrow> bool" where
  "sameKey ks a b \<longleftrightarrow> sk_prefix a = sk_prefix b \<and> sk_len a = sk_len b \<and>
     (sk_len a \<le> 8 \<or> ks ! sk_idx a = ks ! sk_idx b)"

definition key_less :: "bytes list \<Rightarrow> SortKey \<Rightarrow> SortKey \<Rightarrow> bool" where
  "key_less ks a b =
     (if sk_prefix a \<noteq> sk_prefix b then sk_prefix a < sk_prefix b
      else if sk_len a \<le> 8 \<and> sk_len b \<le> 8
      then if sk_len a \<noteq> sk_len b then sk_len a < sk_len b else sk_idx a < sk_idx b
      else let ka = ks ! sk_idx a; kb = ks ! sk_idx b
           in if ka \<noteq> kb then sv_less ka kb else sk_idx a < sk_idx b)"

text \<open>\<open>std::sort\<close> by a comparison. The result is determined by the comparison where it is a strict
  total order on the elements, which \<open>sort_by_unique\<close> below shows for \<open>key_less\<close>.\<close>

fun insert_by :: "('a \<Rightarrow> 'a \<Rightarrow> bool) \<Rightarrow> 'a \<Rightarrow> 'a list \<Rightarrow> 'a list" where
  "insert_by lt x [] = [x]"
| "insert_by lt x (y # ys) = (if lt y x then y # insert_by lt x ys else x # y # ys)"

definition sort_by :: "('a \<Rightarrow> 'a \<Rightarrow> bool) \<Rightarrow> 'a list \<Rightarrow> 'a list" where
  "sort_by lt xs = foldr (insert_by lt) xs []"

text \<open>The pass over the sorted keys: survivors and dropped duplicates, as positions in the batch.\<close>

fun split_runs :: "bytes list \<Rightarrow> SortKey list \<Rightarrow> nat list \<times> nat list" where
  "split_runs ks [] = ([], [])"
| "split_runs ks [a] = ([sk_idx a], [])"
| "split_runs ks (a # b # cs) =
     (let (keep, drop) = split_runs ks (b # cs)
      in if sameKey ks a b then (keep, sk_idx a # drop) else (sk_idx a # keep, drop))"

definition sort_batch :: "bytes list \<Rightarrow> nat list \<times> nat list" where
  "sort_batch ks = split_runs ks (sort_by (key_less ks) (sort_keys ks))"

subsection \<open>Prefixes as numbers\<close>

primrec le_val :: "bytes \<Rightarrow> nat" where
  "le_val [] = 0"
| "le_val (b # bs) = unat b + 256 * le_val bs"

primrec be_val :: "nat \<Rightarrow> bytes \<Rightarrow> nat" where
  "be_val 0 k = 0"
| "be_val (Suc n) k = (case k of [] \<Rightarrow> 0 | x # xs \<Rightarrow> unat x * 256 ^ n + be_val n xs)"

lemma u8_less [simp]: "unat (x :: u8) < 256"
  by (rule order_less_le_trans [OF unsigned_less]) simp

lemma u8_eqI: "unat (x :: u8) = unat y \<Longrightarrow> x = y"
  by (rule unsigned_word_eqI)

lemma be_val_less: "be_val n k < 256 ^ n"
proof (induction n arbitrary: k)
  case (Suc n)
  show ?case
  proof (cases k)
    case (Cons x xs)
    have "unat x * 256 ^ n + be_val n xs < (unat x + 1) * 256 ^ n" using Suc [of xs] by simp
    also have "\<dots> \<le> 256 * 256 ^ n" using u8_less [of x] by (intro mult_le_mono1) linarith
    finally show ?thesis using Cons by simp
  qed simp
qed simp

lemma le_word_le_val: "(le_word bs :: 'a::len word) = of_nat (le_val bs)"
proof (induction bs)
  case (Cons b bs)
  have "(ucast b :: 'a word) OR push_bit 8 (le_word bs) = ucast b + push_bit 8 (le_word bs)"
  proof (rule disjunctive_add [symmetric])
    fix n
    show "\<not> bit (ucast b :: 'a word) n \<or> \<not> bit (push_bit 8 (le_word bs) :: 'a word) n"
      using bit_imp_le_length [of b n] by (auto simp: bit_ucast_iff bit_push_bit_iff)
  qed
  then show ?case
    using Cons by (simp add: le_word.simps push_bit_eq_mult of_nat_unat)
qed (simp add: le_word.simps)

lemma le_val_less: "le_val bs < 256 ^ length bs"
proof (induction bs)
  case (Cons b bs)
  then have "256 * (le_val bs + 1) \<le> 256 * 256 ^ length bs" by (intro mult_le_mono2) simp
  then show ?case using u8_less [of b] by (simp del: u8_less)
qed simp

lemma le_val_append: "le_val (xs @ ys) = le_val xs + 256 ^ length xs * le_val ys"
  by (induction xs) (simp_all add: algebra_simps)

lemma be_val_rev: "be_val (length xs) xs = le_val (rev xs)"
  by (induction xs) (simp_all add: le_val_append)

lemma be_val_pad: "be_val n (take n (k @ replicate n 0)) = be_val n k"
proof (induction n arbitrary: k)
  case (Suc n)
  have z: "be_val n (replicate n 0) = 0" for n by (induction n) simp_all
  show ?case
  proof (cases k)
    case Nil
    then show ?thesis using z [of n] by simp
  next
    case (Cons x xs)
    have "take n (xs @ replicate (Suc n) 0) = take n (xs @ replicate n (0 :: u8))"
      by (simp add: take_append replicate_append_same [symmetric] del: replicate_Suc)
    then show ?thesis using Suc [of xs] Cons by simp
  qed
qed simp

text \<open>Both ways of loading the prefix read the first eight bytes, zero-padded, as a big-endian
  number.\<close>

lemma bit_or_loop:
  "bit (foldl (\<lambda>p j. p OR push_bit (56 - 8 * j) (ucast (k ! j))) (p0 :: u64) js) n \<longleftrightarrow>
     bit p0 n \<or> (\<exists>j\<in>set js. n < 64 \<and> 56 - 8 * j \<le> n \<and> bit (k ! j) (n - (56 - 8 * j)))"
  by (induction js arbitrary: p0)
    (auto simp: bit_or_iff bit_push_bit_iff bit_ucast_iff dest: bit_imp_le_length)

lemma keyPrefix_le_word: "keyPrefix k = le_word (rev (take 8 (k @ replicate 8 0)))"
proof (cases "length k \<ge> 8")
  case True
  then have "bytes_le 8 (le_word (take 8 k) :: u64) = take 8 k" by (intro bytes_le_le_word) simp_all
  then show ?thesis using True by (simp add: keyPrefix_def bswap_def)
next
  case False
  define p where "p = take 8 (k @ replicate 8 0)"
  have len: "length p = 8" by (simp add: p_def)
  have nth: "p ! j = (if j < length k then k ! j else 0)" if "j < 8" for j
    using that by (simp add: p_def nth_append)
  have "keyPrefix k = le_word (rev p)"
  proof (rule bit_word_eqI)
    fix n assume "n < LENGTH(64)"
    then have n: "n < 64" by simp
    let ?j = "7 - n div 8"
    have d: "n div 8 < 8" using n by (simp add: less_mult_imp_div_less)
    have j: "?j < 8" "n - (56 - 8 * ?j) = n mod 8" "56 - 8 * ?j \<le> n"
      using d by (auto simp: minus_mult_div_eq_mod [symmetric])
    have "rev p ! (n div 8) = p ! ?j" using d len by (subst rev_nth) simp_all
    then have R: "bit (le_word (rev p) :: u64) n \<longleftrightarrow> ?j < length k \<and> bit (k ! ?j) (n mod 8)"
      using n d nth [OF j(1)] len by (simp add: bit_le_word)
    have uniq: "j = ?j" if "j < length k" "56 - 8 * j \<le> n" "bit (k ! j) (n - (56 - 8 * j))" for j
    proof -
      define r where "r = n - (56 - 8 * j)"
      have "r < 8" using bit_imp_le_length [OF that(3)] by (simp add: r_def)
      moreover have "n = r + 8 * (7 - j)" using that(2) by (simp add: r_def)
      ultimately have "n div 8 = 7 - j" by simp
      then show ?thesis using that(1) False by simp
    qed
    have "(\<exists>j<length k. 56 - 8 * j \<le> n \<and> bit (k ! j) (n - (56 - 8 * j))) \<longleftrightarrow>
        ?j < length k \<and> bit (k ! ?j) (n mod 8)"
    proof
      assume "\<exists>j<length k. 56 - 8 * j \<le> n \<and> bit (k ! j) (n - (56 - 8 * j))"
      then obtain i where i: "i < length k" "56 - 8 * i \<le> n" "bit (k ! i) (n - (56 - 8 * i))" by blast
      show "?j < length k \<and> bit (k ! ?j) (n mod 8)" using i(1,3) j(2) uniq [OF i] by simp
    next
      assume "?j < length k \<and> bit (k ! ?j) (n mod 8)"
      then show "\<exists>j<length k. 56 - 8 * j \<le> n \<and> bit (k ! j) (n - (56 - 8 * j))"
        using j(2,3) by (intro exI [of _ ?j]) simp
    qed
    moreover have "bit (keyPrefix k) n \<longleftrightarrow> (\<exists>j<length k. 56 - 8 * j \<le> n \<and> bit (k ! j) (n - (56 - 8 * j)))"
      unfolding keyPrefix_def if_not_P [OF False] bit_or_loop using n by auto
    ultimately have "bit (keyPrefix k) n \<longleftrightarrow> ?j < length k \<and> bit (k ! ?j) (n mod 8)" by simp
    then show "bit (keyPrefix k) n \<longleftrightarrow> bit (le_word (rev p) :: u64) n" using R by simp
  qed
  then show ?thesis by (simp only: p_def)
qed

lemma unat_keyPrefix: "unat (keyPrefix k) = be_val 8 k"
proof -
  define p where "p = take 8 (k @ replicate 8 0)"
  have len: "length (rev p) = 8" by (simp add: p_def)
  have "le_val (rev p) < 256 ^ 8" using le_val_less [of "rev p"] unfolding len .
  then have "unat (keyPrefix k) = le_val (rev p)"
    unfolding keyPrefix_le_word p_def [symmetric] le_word_le_val
    by (simp add: unsigned_of_nat take_bit_nat_eq_self)
  also have "\<dots> = be_val 8 p" using be_val_rev [of p] len by simp
  also have "\<dots> = be_val 8 k" using be_val_pad [of 8 k] by (simp only: p_def)
  finally show ?thesis .
qed

subsection \<open>The comparison is the byte order of keys\<close>

lemma be_val_lessD: "be_val n a < be_val n b \<Longrightarrow> sv_less a b"
proof (induction n arbitrary: a b)
  case (Suc n)
  show ?case
  proof (cases b)
    case (Cons y ys)
    show ?thesis
    proof (cases a)
      case (Cons x xs)
      have "unat x \<le> unat y"
      proof (rule ccontr)
        assume "\<not> unat x \<le> unat y"
        then have "(unat y + 1) * 256 ^ n \<le> unat x * 256 ^ n" by (intro mult_le_mono1) simp
        then show False using Suc.prems be_val_less [of n ys] Cons \<open>b = y # ys\<close> by simp
      qed
      then show ?thesis
        using Suc.prems Suc.IH [of xs ys] Cons \<open>b = y # ys\<close>
        by (cases "x = y") (auto simp: word_less_nat_alt order.order_iff_strict dest: u8_eqI)
    qed (use Cons in simp)
  qed (use Suc.prems in simp)
qed simp

lemma be_val_eqD:
  "be_val n a = be_val n b \<Longrightarrow> length a \<le> n \<Longrightarrow> length b \<le> n \<Longrightarrow>
     (length a = length b \<longrightarrow> a = b) \<and> (length a < length b \<longrightarrow> sv_less a b)"
proof (induction n arbitrary: a b)
  case (Suc n)
  show ?case
  proof (cases a; cases b)
    fix x xs y ys assume c: "a = x # xs" "b = y # ys"
    have "\<not> unat x < unat y" "\<not> unat y < unat x"
    proof -
      have "(unat u + 1) * 256 ^ n \<le> unat w * 256 ^ n" if "unat u < unat w" for u w :: u8
        using that by (intro mult_le_mono1) simp
      then show "\<not> unat x < unat y" "\<not> unat y < unat x"
        using Suc.prems(1) be_val_less [of n xs] be_val_less [of n ys] c by fastforce+
    qed
    then have "x = y" using u8_eqI [of x y] by linarith
    then show ?thesis using Suc.IH [of xs ys] Suc.prems c by auto
  qed auto
qed simp

lemma sv_less_irrefl [simp]: "\<not> sv_less a a"
  by (induction a) auto

lemma sv_less_trans: "sv_less a b \<Longrightarrow> sv_less b c \<Longrightarrow> sv_less a c"
proof (induction a b arbitrary: c rule: sv_less.induct)
  case (2 y ys)
  then show ?case by (cases c) auto
next
  case (3 x xs y ys)
  then show ?case by (cases c) (auto intro: order_less_trans)
qed simp

lemma sv_less_total: "a \<noteq> b \<Longrightarrow> sv_less a b \<or> sv_less b a"
proof (induction a b rule: sv_less.induct)
  case (1 xs)
  then show ?case by (cases xs) auto
next
  case (3 x xs y ys)
  then show ?case by (auto simp: not_less_iff_gr_or_eq)
qed simp

lemma sv_less_asym: "sv_less a b \<Longrightarrow> \<not> sv_less b a"
  using sv_less_trans sv_less_irrefl by blast

definition sk_ok :: "bytes list \<Rightarrow> SortKey \<Rightarrow> bool" where
  "sk_ok ks a \<longleftrightarrow> sk_idx a < length ks \<and> sk_prefix a = keyPrefix (ks ! sk_idx a) \<and> sk_len a = length (ks ! sk_idx a)"

abbreviation key_of :: "bytes list \<Rightarrow> SortKey \<Rightarrow> bytes" where
  "key_of ks a \<equiv> ks ! sk_idx a"

text \<open>Two different keys with one prefix: the padding makes the shorter one an initial part of the
  longer one.\<close>

lemma keyPrefix_less: "keyPrefix a < keyPrefix b \<Longrightarrow> sv_less a b"
  using be_val_lessD [of 8 a b] by (simp add: word_less_nat_alt unat_keyPrefix)

lemma keyPrefix_eq:
  assumes "keyPrefix a = keyPrefix b" and "length a \<le> 8" and "length b \<le> 8"
  shows "length a = length b \<longleftrightarrow> a = b" and "length a < length b \<longleftrightarrow> sv_less a b"
proof -
  have e: "be_val 8 a = be_val 8 b" using assms(1) by (metis unat_keyPrefix)
  show 1: "length a = length b \<longleftrightarrow> a = b" using be_val_eqD [OF e assms(2,3)] by auto
  have 2: "length b < length a \<Longrightarrow> sv_less b a" using be_val_eqD [OF e [symmetric] assms(3,2)] by auto
  show "length a < length b \<longleftrightarrow> sv_less a b"
  proof
    assume "sv_less a b"
    then have "\<not> sv_less b a" "a \<noteq> b" using sv_less_asym by auto
    then show "length a < length b" using 1 2 by (meson linorder_neqE_nat)
  qed (use be_val_eqD [OF e assms(2,3)] in auto)
qed

lemma sameKey_iff: "sk_ok ks a \<Longrightarrow> sk_ok ks b \<Longrightarrow> sameKey ks a b \<longleftrightarrow> key_of ks a = key_of ks b"
  unfolding sameKey_def sk_ok_def using keyPrefix_eq(1) [of "key_of ks a" "key_of ks b"] by auto

lemma key_less_iff:
  assumes "sk_ok ks a" and "sk_ok ks b"
  shows "key_less ks a b \<longleftrightarrow> sv_less (key_of ks a) (key_of ks b) \<or> (key_of ks a = key_of ks b \<and> sk_idx a < sk_idx b)"
proof (cases "sk_prefix a = sk_prefix b")
  case False
  then have "keyPrefix (key_of ks a) \<noteq> keyPrefix (key_of ks b)" using assms by (simp add: sk_ok_def)
  moreover from this have "key_of ks a \<noteq> key_of ks b" by metis
  ultimately show ?thesis
    using assms False keyPrefix_less [of "key_of ks a" "key_of ks b"] keyPrefix_less [of "key_of ks b" "key_of ks a"] sv_less_asym
    by (auto simp: key_less_def sk_ok_def) (meson linorder_neqE)
next
  case True
  then have "keyPrefix (key_of ks a) = keyPrefix (key_of ks b)" using assms by (simp add: sk_ok_def)
  note E = keyPrefix_eq [OF this]
  show ?thesis
  proof (cases "sk_len a \<le> 8 \<and> sk_len b \<le> 8")
    case True
    then show ?thesis using assms E \<open>sk_prefix a = sk_prefix b\<close> by (auto simp: key_less_def sk_ok_def)
  next
    case False
    then show ?thesis using \<open>sk_prefix a = sk_prefix b\<close> by (auto simp: key_less_def Let_def)
  qed
qed

subsection \<open>Sorting\<close>

lemma mset_sort_by: "mset (sort_by lt xs) = mset xs"
proof -
  have i: "mset (insert_by lt x ys) = {#x#} + mset ys" for x ys by (induction ys) auto
  show ?thesis by (induction xs) (simp_all add: sort_by_def i)
qed

lemma insert_by_sorted:
  assumes "sorted_wrt lt ys" and "\<And>a b c. lt a b \<Longrightarrow> lt b c \<Longrightarrow> lt a c"
    and "\<And>y. y \<in> set ys \<Longrightarrow> lt x y \<or> lt y x"
  shows "sorted_wrt lt (insert_by lt x ys)"
  using assms(1,3)
proof (induction ys)
  case (Cons y ys)
  have s: "set (insert_by lt x ys) = insert x (set ys)" by (induction ys) auto
  show ?case
  proof (cases "lt y x")
    case True
    then show ?thesis using Cons s by auto
  next
    case False
    then have "lt x y" using Cons.prems(2) by auto
    then show ?thesis using False Cons.prems(1) assms(2) by auto
  qed
qed simp

lemma sort_by_unique:
  assumes "sorted_wrt lt xs" and "sorted_wrt lt ys" and "mset xs = mset ys"
    and "\<And>a b. lt a b \<Longrightarrow> \<not> lt b a"
  shows "xs = ys"
  using assms(1-3)
proof (induction xs arbitrary: ys)
  case (Cons x xs)
  then obtain y zs where ys: "ys = y # zs" by (cases ys) auto
  have "x = y"
  proof (rule ccontr)
    assume "x \<noteq> y"
    moreover have "x \<in> set ys" "y \<in> set (x # xs)" using Cons.prems(3) ys mset_eq_setD by fastforce+
    ultimately have "lt y x" "lt x y" using Cons.prems(1,2) ys by auto
    then show False using assms(4) by blast
  qed
  then show ?case using Cons ys by auto
qed simp

lemma sort_keys_ok: "a \<in> set (sort_keys ks) \<Longrightarrow> sk_ok ks a"
  by (auto simp: sort_keys_def sk_ok_def)

lemma map_idx_sort_keys [simp]: "map sk_idx (sort_keys ks) = [0..<length ks]"
  by (simp add: sort_keys_def comp_def)

definition before :: "bytes list \<Rightarrow> SortKey \<Rightarrow> SortKey \<Rightarrow> bool" where
  "before ks a b \<longleftrightarrow> sk_ok ks a \<and> sk_ok ks b \<and>
     (sv_less (key_of ks a) (key_of ks b) \<or> (key_of ks a = key_of ks b \<and> sk_idx a < sk_idx b))"

lemma before_trans: "before ks a b \<Longrightarrow> before ks b c \<Longrightarrow> before ks a c"
  by (auto simp: before_def intro: sv_less_trans)

lemma sort_by_before: "set xs \<subseteq> Collect (sk_ok ks) \<Longrightarrow> sort_by (key_less ks) xs = sort_by (before ks) xs"
proof -
  have i: "sk_ok ks x \<Longrightarrow> set ys \<subseteq> Collect (sk_ok ks) \<Longrightarrow>
      insert_by (key_less ks) x ys = insert_by (before ks) x ys" for x ys
    by (induction ys) (auto simp: key_less_iff before_def)
  assume "set xs \<subseteq> Collect (sk_ok ks)"
  then show ?thesis
  proof (induction xs)
    case (Cons x xs)
    have "set (sort_by (before ks) xs) = set xs" using mset_sort_by by (metis set_mset_mset)
    then show ?case using Cons i [of x "sort_by (before ks) xs"] by (simp add: sort_by_def)
  qed (simp add: sort_by_def)
qed

lemma sort_batch_sorted:
  "sorted_wrt (before ks) (sort_by (key_less ks) (sort_keys ks))"
proof -
  have main: "set xs \<subseteq> set (sort_keys ks) \<Longrightarrow> distinct (map sk_idx xs) \<Longrightarrow>
      sorted_wrt (before ks) (sort_by (before ks) xs)" for xs
  proof (induction xs)
    case (Cons x xs)
    have s: "set (sort_by (before ks) xs) = set xs" using mset_sort_by by (metis set_mset_mset)
    have "before ks x y \<or> before ks y x" if "y \<in> set xs" for y
    proof -
      have "sk_idx x \<noteq> sk_idx y" using Cons.prems(2) that by auto
      moreover have "sk_ok ks x" "sk_ok ks y" using Cons.prems(1) that sort_keys_ok by auto
      ultimately show ?thesis
        using sv_less_total [of "key_of ks x" "key_of ks y"]
        by (cases "key_of ks x = key_of ks y") (auto simp: before_def)
    qed
    then have "sorted_wrt (before ks) (insert_by (before ks) x (sort_by (before ks) xs))"
      using Cons s by (intro insert_by_sorted) (auto intro: before_trans)
    then show ?case by (simp add: sort_by_def)
  qed (simp add: sort_by_def)
  have "set (sort_keys ks) \<subseteq> Collect (sk_ok ks)" using sort_keys_ok by blast
  then show ?thesis using main [of "sort_keys ks"] sort_by_before by simp
qed

text \<open>The pass over a sorted list keeps the last of each run.\<close>

definition newest :: "bytes list \<Rightarrow> SortKey list \<Rightarrow> nat \<Rightarrow> bool" where
  "newest ks L i \<longleftrightarrow> (\<exists>a\<in>set L. sk_idx a = i \<and> (\<forall>c\<in>set L. key_of ks c = key_of ks a \<longrightarrow> sk_idx c \<le> sk_idx a))"

lemma newest_skip:
  assumes "b \<in> set L" and "key_of ks a = key_of ks b" and "sk_idx a < sk_idx b"
  shows "newest ks (a # L) i \<longleftrightarrow> newest ks L i"
proof
  assume "newest ks (a # L) i"
  then obtain x where x: "x \<in> set (a # L)" "sk_idx x = i"
    "\<And>c. c \<in> set (a # L) \<Longrightarrow> key_of ks c = key_of ks x \<Longrightarrow> sk_idx c \<le> sk_idx x"
    unfolding newest_def by blast
  have "x \<noteq> a" using x(3) [of b] assms by auto
  then have "x \<in> set L" using x(1) by simp
  then show "newest ks L i" unfolding newest_def using x(2,3) by auto
next
  assume "newest ks L i"
  then obtain x where x: "x \<in> set L" "sk_idx x = i"
    "\<And>c. c \<in> set L \<Longrightarrow> key_of ks c = key_of ks x \<Longrightarrow> sk_idx c \<le> sk_idx x"
    unfolding newest_def by blast
  have "sk_idx a \<le> sk_idx x" if "key_of ks a = key_of ks x" using x(3) [of b] assms that by simp
  then show "newest ks (a # L) i" unfolding newest_def using x by auto
qed

lemma newest_new:
  assumes "\<And>c. c \<in> set L \<Longrightarrow> key_of ks c \<noteq> key_of ks a"
  shows "newest ks (a # L) i \<longleftrightarrow> i = sk_idx a \<or> newest ks L i"
proof
  assume "newest ks (a # L) i"
  then obtain x where x: "x \<in> set (a # L)" "sk_idx x = i"
    "\<And>c. c \<in> set (a # L) \<Longrightarrow> key_of ks c = key_of ks x \<Longrightarrow> sk_idx c \<le> sk_idx x"
    unfolding newest_def by blast
  then show "i = sk_idx a \<or> newest ks L i" unfolding newest_def by (cases "x = a") auto
next
  assume "i = sk_idx a \<or> newest ks L i"
  then show "newest ks (a # L) i"
  proof
    assume "i = sk_idx a"
    then show ?thesis unfolding newest_def using assms by (intro bexI [of _ a]) auto
  next
    assume "newest ks L i"
    then obtain x where x: "x \<in> set L" "sk_idx x = i"
      "\<And>c. c \<in> set L \<Longrightarrow> key_of ks c = key_of ks x \<Longrightarrow> sk_idx c \<le> sk_idx x"
      unfolding newest_def by blast
    then show ?thesis unfolding newest_def using assms [OF x(1)] by (intro bexI [of _ x]) auto
  qed
qed

lemma split_runs_ok:
  assumes "sorted_wrt (before ks) L" and "set L \<subseteq> Collect (sk_ok ks)" and "split_runs ks L = (keep, drp)"
  shows "mset keep + mset drp = mset (map sk_idx L) \<and> (\<forall>i. i \<in> set keep \<longleftrightarrow> newest ks L i) \<and>
    sorted_wrt (\<lambda>i j. sv_less (ks ! i) (ks ! j)) keep"
  using assms
proof (induction ks L arbitrary: keep drp rule: split_runs.induct)
  case (1 ks)
  then show ?case by (simp add: newest_def)
next
  case (2 ks a)
  then show ?case by (auto simp: newest_def)
next
  case (3 ks a b cs)
  obtain keep1 drp1 where r: "split_runs ks (b # cs) = (keep1, drp1)" by force
  have IH: "mset keep1 + mset drp1 = mset (map sk_idx (b # cs))" "\<forall>i. i \<in> set keep1 \<longleftrightarrow> newest ks (b # cs) i"
    "sorted_wrt (\<lambda>i j. sv_less (ks ! i) (ks ! j)) keep1"
    using "3.IH" [OF _ _ r] "3.prems"(1,2) by simp_all
  have ok: "sk_ok ks a" "sk_ok ks b" using "3.prems"(2) by auto
  have bef: "before ks a c" if "c \<in> set (b # cs)" for c using "3.prems"(1) that by auto
  show ?case
  proof (cases "key_of ks a = key_of ks b")
    case True
    then have k: "keep = keep1" "drp = sk_idx a # drp1" using "3.prems"(3) r ok by (auto simp: sameKey_iff)
    have "sk_idx a < sk_idx b" using bef [of b] True by (auto simp: before_def)
    then have "newest ks (a # b # cs) i = newest ks (b # cs) i" for i
      using newest_skip [of b "b # cs" ks a] True by simp
    then show ?thesis unfolding k using IH by simp
  next
    case False
    then have k: "keep = sk_idx a # keep1" "drp = drp1" using "3.prems"(3) r ok by (auto simp: sameKey_iff)
    have ab: "sv_less (key_of ks a) (key_of ks b)" using bef [of b] False by (auto simp: before_def)
    have lt: "sv_less (key_of ks a) (key_of ks c)" if "c \<in> set (b # cs)" for c
    proof (cases "c = b")
      case False
      then have "before ks b c" using that "3.prems"(1) by auto
      then show ?thesis using ab by (auto simp: before_def intro: sv_less_trans)
    qed (use ab in simp)
    then have ne: "key_of ks c \<noteq> key_of ks a" if "c \<in> set (b # cs)" for c using that by fastforce
    have "sv_less (key_of ks a) (ks ! j)" if "j \<in> set keep1" for j
    proof -
      have "newest ks (b # cs) j" using IH(2) that by blast
      then obtain c where c: "c \<in> set (b # cs)" "sk_idx c = j" unfolding newest_def by blast
      show ?thesis using lt [OF c(1)] unfolding c(2) .
    qed
    moreover have "newest ks (a # b # cs) i \<longleftrightarrow> i = sk_idx a \<or> newest ks (b # cs) i" for i
      by (rule newest_new [OF ne])
    ultimately show ?thesis unfolding k using IH by simp
  qed
qed

lemma sort_batch_correct:
  assumes "sort_batch ks = (keep, drp)"
  shows "mset keep + mset drp = mset [0..<length ks]"
    and "i \<in> set keep \<longleftrightarrow> i < length ks \<and> (\<forall>j<length ks. ks ! j = ks ! i \<longrightarrow> j \<le> i)"
    and "sorted_wrt (\<lambda>i j. sv_less (ks ! i) (ks ! j)) keep"
proof -
  let ?L = "sort_by (key_less ks) (sort_keys ks)"
  have m: "mset ?L = mset (sort_keys ks)" by (rule mset_sort_by)
  then have st: "set ?L = set (sort_keys ks)" by (metis set_mset_mset)
  then have "set ?L \<subseteq> Collect (sk_ok ks)" using sort_keys_ok by auto
  note R = split_runs_ok [OF sort_batch_sorted this assms [unfolded sort_batch_def]]
  have "mset (map sk_idx ?L) = mset (map sk_idx (sort_keys ks))" by (metis m mset_map)
  then show "mset keep + mset drp = mset [0..<length ks]" using R by simp
  have "newest ks ?L i \<longleftrightarrow> newest ks (sort_keys ks) i" by (simp add: newest_def st)
  also have "\<dots> \<longleftrightarrow> i < length ks \<and> (\<forall>j<length ks. ks ! j = ks ! i \<longrightarrow> j \<le> i)"
    by (auto simp: newest_def sort_keys_def)
  finally show "i \<in> set keep \<longleftrightarrow> i < length ks \<and> (\<forall>j<length ks. ks ! j = ks ! i \<longrightarrow> j \<le> i)" using R by simp
  show "sorted_wrt (\<lambda>i j. sv_less (ks ! i) (ks ! j)) keep" using R by simp
qed

text \<open>C16. Deduplicating a batch keeps, for every key, exactly the newest write, and drops the others:
  the survivors are the positions after which no write of the same key comes, in the byte order of
  their keys, and survivors and dropped together are the batch.\<close>

theorem sort_batch_keeps_newest:
  "let (keep, drp) = sort_batch ks
   in mset (keep @ drp) = mset [0..<length ks] \<and>
      {i. i \<in> set keep} = {i. i < length ks \<and> {j. j < length ks \<and> ks ! j = ks ! i} \<subseteq> {..i}} \<and>
      sorted_wrt (\<lambda>i j. sv_less (ks ! i) (ks ! j)) keep"
proof -
  obtain keep drp where r: "sort_batch ks = (keep, drp)" by force
  have "{i. i \<in> set keep} = {i. i < length ks \<and> {j. j < length ks \<and> ks ! j = ks ! i} \<subseteq> {..i}}"
    unfolding sort_batch_correct(2) [OF r] by (intro Collect_cong) blast
  then show ?thesis using sort_batch_correct(1,3) [OF r] unfolding r by simp
qed

end
