(* ===== verification/Durable_Ack.thy ===== *)
theory Durable_Ack
  imports Request_Queues "HOL-Library.Multiset"
begin

text \<open>
  Acknowledging writes once the shared log covers them (\<^verbatim>\<open>server/engine.cc\<close>: \<open>DurableNotifier\<close>,
  \<open>DrainDurable\<close>, \<open>Shard::durableLoop\<close>, \<open>Shard::AwaitDurable\<close>). IO loops are numbered; the log's durable
  watermark is an argument of the steps that read it.
\<close>

subsection \<open>The notifier\<close>

text \<open>The durable part of an IO loop, and the notifier's own state. A posted drain is a loop number
  in \<open>nt_posts\<close>.\<close>

record LoopPark =
  lp_head :: "rid option"
  lp_count :: int
  lp_wakeQueued :: bool
  lp_registered :: bool
  lp_local :: "rid list"

record Notifier =
  nt_loops :: "nat list"
  nt_ledger :: "(u64 \<times> nat) list"
  nt_parkGen :: nat
  nt_io :: "nat \<Rightarrow> LoopPark"
  nt_posts :: "nat list"

definition set_io :: "Notifier \<Rightarrow> nat \<Rightarrow> (LoopPark \<Rightarrow> LoopPark) \<Rightarrow> Notifier" where
  "set_io N t f = N\<lparr>nt_io := (nt_io N)(t := f (nt_io N t))\<rparr>"

definition Park :: "store \<Rightarrow> Notifier \<Rightarrow> nat \<Rightarrow> rid \<Rightarrow> rid \<Rightarrow> nat \<Rightarrow> store \<times> Notifier" where
  "Park st N t f l n =
     (let st = set_next st l (lp_head (nt_io N t));
          N = set_io N t (\<lambda>p. p\<lparr>lp_head := Some f, lp_count := lp_count p + int n\<rparr>);
          N = (if \<not> lp_registered (nt_io N t)
               then set_io (N\<lparr>nt_loops := nt_loops N @ [t]\<rparr>) t (\<lambda>p. p\<lparr>lp_registered := True\<rparr>)
               else N)
      in (st, N))"

definition AddBytes :: "Notifier \<Rightarrow> u64 \<Rightarrow> nat \<Rightarrow> Notifier" where
  "AddBytes N lsn b = N\<lparr>nt_ledger := nt_ledger N @ [(lsn, b)], nt_parkGen := nt_parkGen N + 1\<rparr>"

definition Unregister :: "Notifier \<Rightarrow> nat \<Rightarrow> Notifier" where
  "Unregister N t = N\<lparr>nt_loops := filter (\<lambda>u. u \<noteq> t) (nt_loops N)\<rparr>"

text \<open>\<open>release\<close>: the loop that compacts the ledger in place, and what the bucket gets back.\<close>

fun release_loop :: "u64 \<Rightarrow> (u64 \<times> nat) list \<Rightarrow> nat \<Rightarrow> (u64 \<times> nat) list \<Rightarrow> nat \<times> (u64 \<times> nat) list" where
  "release_loop durable [] b kept = (b, kept)"
| "release_loop durable ((lsn, n) # es) b kept =
     (if lsn \<le> durable then release_loop durable es (b + n) kept
      else release_loop durable es b (kept @ [(lsn, n)]))"

definition release :: "Notifier \<Rightarrow> nat \<Rightarrow> u64 \<Rightarrow> Notifier \<times> nat" where
  "release N queuedBytes durable =
     (let (b, kept) = release_loop durable (nt_ledger N) 0 []
      in (N\<lparr>nt_ledger := kept\<rparr>, if b \<noteq> 0 then queuedBytes - b else queuedBytes))"

definition wake_loop :: "Notifier \<Rightarrow> nat \<Rightarrow> Notifier" where
  "wake_loop N t =
     (if lp_count (nt_io N t) > 0
      then let queued = lp_wakeQueued (nt_io N t);
               N = set_io N t (\<lambda>p. p\<lparr>lp_wakeQueued := True\<rparr>)
           in if \<not> queued then N\<lparr>nt_posts := nt_posts N @ [t]\<rparr> else N
      else N)"

definition wake :: "Notifier \<Rightarrow> Notifier" where
  "wake N = foldl wake_loop N (nt_loops N)"

text \<open>One turn of \<open>run\<close>, with what it saw last.\<close>

definition run_turn :: "Notifier \<Rightarrow> nat \<Rightarrow> u64 \<Rightarrow> u64 \<times> nat \<Rightarrow> Notifier \<times> nat \<times> u64 \<times> nat" where
  "run_turn N queuedBytes d seen =
     (let (lastD, lastG) = seen; g = nt_parkGen N
      in if d \<noteq> lastD \<or> g \<noteq> lastG
         then let (N, q) = release N queuedBytes d in (wake N, q, d, g)
         else (N, queuedBytes, lastD, lastG))"

text \<open>The loop's side: take the parked chain, answer what is covered, keep the rest. \<open>live\<close> says that the
  notifier still exists.\<close>

fun answer_loop :: "store \<Rightarrow> u64 \<Rightarrow> rid list \<Rightarrow> rid list \<Rightarrow> rid list \<Rightarrow> rid list \<times> rid list" where
  "answer_loop st durable [] kept answered = (kept, answered)"
| "answer_loop st durable (r # rs) kept answered =
     (if rq_durableLsn (st r) \<le> durable then answer_loop st durable rs kept (answered @ [r])
      else answer_loop st durable rs (kept @ [r]) answered)"

definition DrainDurable :: "nat \<Rightarrow> bool \<Rightarrow> store \<Rightarrow> Notifier \<Rightarrow> nat \<Rightarrow> u64 \<Rightarrow> (store \<times> Notifier \<times> rid list) option" where
  "DrainDurable fuel live st N t durable =
     (let N = set_io N t (\<lambda>p. p\<lparr>lp_wakeQueued := False\<rparr>)
      in case drainChain fuel st (lp_head (nt_io N t)) of
           None \<Rightarrow> None
         | Some (chain, st) \<Rightarrow>
             let N = set_io N t (\<lambda>p. p\<lparr>lp_head := None, lp_local := lp_local p @ chain\<rparr>)
             in if \<not> live \<or> lp_local (nt_io N t) = [] then Some (st, N, [])
                else let (kept, answered) = answer_loop st durable (lp_local (nt_io N t)) [] []
                     in Some (st, set_io N t (\<lambda>p. p\<lparr>lp_local := kept, lp_count := lp_count p - int (length answered)\<rparr>),
                              answered))"

subsection \<open>The shard's completion thread\<close>

record PendingDurable =
  pd_lsn :: u64
  pd_status :: Status
  pd_reqs :: "rid list"
  pd_bytes :: nat

definition AwaitDurable :: "PendingDurable list \<Rightarrow> PendingDurable \<Rightarrow> PendingDurable list" where
  "AwaitDurable q p = q @ [p]"

text \<open>One pass of \<open>durableLoop\<close> at watermark \<open>durable\<close>: the batches taken, the requests marked, the
  groups by answering thread and by event loop, and the slices posted to each.\<close>

fun take_ready :: "u64 \<Rightarrow> PendingDurable list \<Rightarrow> PendingDurable list \<times> PendingDurable list" where
  "take_ready durable [] = ([], [])"
| "take_ready durable (p # q) =
     (if pd_lsn p \<le> durable then let (r, q) = take_ready durable q in (p # r, q) else ([], p # q))"

definition mark_reqs :: "store \<Rightarrow> PendingDurable \<Rightarrow> store" where
  "mark_reqs st p = (\<lambda>r. if r \<in> set (pd_reqs p) \<and> \<not> IsOK (pd_status p) then (st r)\<lparr>rq_status := pd_status p\<rparr> else st r)"

fun group_push :: "('k \<times> rid list) list \<Rightarrow> 'k \<Rightarrow> rid \<Rightarrow> ('k \<times> rid list) list" where
  "group_push [] k r = [(k, [r])]"
| "group_push ((k', rs) # gs) k r = (if k' = k then (k', rs @ [r]) # gs else (k', rs) # group_push gs k r)"

definition add_group :: "store \<Rightarrow> (nat \<times> rid list) list \<times> (nat option \<times> rid list) list \<Rightarrow> rid \<Rightarrow>
    (nat \<times> rid list) list \<times> (nat option \<times> rid list) list" where
  "add_group st g r =
     (case rq_ioOwner (st r) of
        Some t \<Rightarrow> (group_push (fst g) t r, snd g)
      | None \<Rightarrow> (fst g, group_push (snd g) (rq_evb (st r)) r))"

function slices :: "nat \<Rightarrow> rid list \<Rightarrow> rid list list" where
  "slices n rs = (if rs = [] \<or> n = 0 then [] else take n rs # slices n (drop n rs))"
  by pat_completeness auto
termination by (relation "measure (\<lambda>(n, rs). length rs)") auto

declare slices.simps [simp del]

definition durable_pass :: "nat \<Rightarrow> store \<Rightarrow> PendingDurable list \<Rightarrow> nat \<Rightarrow> u64 \<Rightarrow>
    store \<times> PendingDurable list \<times> nat \<times> (nat \<times> rid list list) list \<times> (nat option \<times> rid list list) list" where
  "durable_pass sliceLen st q queuedBytes durable =
     (let (ready, q) = take_ready durable q;
          st = foldl mark_reqs st ready;
          (byThread, byLoop) = foldl (add_group st) ([], []) (concat (map pd_reqs ready));
          queuedBytes = queuedBytes - sum_list (map pd_bytes ready)
      in (st, q, queuedBytes, map (\<lambda>(t, rs). (t, slices sliceLen rs)) byThread,
          map (\<lambda>(e, rs). (e, slices sliceLen rs)) byLoop))"

subsection \<open>Properties of the steps\<close>

lemma release_loop_eq:
  "release_loop durable es b kept =
     (b + sum_list (map snd (filter (\<lambda>e. fst e \<le> durable) es)), kept @ filter (\<lambda>e. \<not> fst e \<le> durable) es)"
  by (induction durable es b kept rule: release_loop.induct) auto

lemma release_eq:
  "release N q d = (N\<lparr>nt_ledger := filter (\<lambda>e. d < fst e) (nt_ledger N)\<rparr>,
     q - (\<Sum>e\<leftarrow>filter (\<lambda>e. fst e \<le> d) (nt_ledger N). snd e))"
proof -
  have "(if b \<noteq> 0 then q - b else q) = q - b" for b :: nat by simp
  then show ?thesis unfolding release_def release_loop_eq Let_def by (simp only: prod.case not_le append_Nil add_0)
qed

lemma answer_loop_eq:
  "answer_loop st durable rs kept answered =
     (kept @ filter (\<lambda>r. \<not> rq_durableLsn (st r) \<le> durable) rs,
      answered @ filter (\<lambda>r. rq_durableLsn (st r) \<le> durable) rs)"
  by (induction st durable rs kept answered rule: answer_loop.induct) auto

lemma set_io_apply [simp]: "nt_io (set_io N t f) u = (if u = t then f (nt_io N t) else nt_io N u)"
  "nt_loops (set_io N t f) = nt_loops N" "nt_ledger (set_io N t f) = nt_ledger N"
  "nt_parkGen (set_io N t f) = nt_parkGen N" "nt_posts (set_io N t f) = nt_posts N"
  by (simp_all add: set_io_def)

text \<open>The requests waiting on a loop.\<close>

definition waiting :: "store \<Rightarrow> Notifier \<Rightarrow> nat \<Rightarrow> rid list \<Rightarrow> bool" where
  "waiting st N t rs \<longleftrightarrow> (\<exists>chain. path st (lp_head (nt_io N t)) chain None \<and>
     rs = lp_local (nt_io N t) @ chain \<and> distinct rs \<and> lp_count (nt_io N t) = int (length rs))"

lemma wake_loop_io:
  "lp_count (nt_io (wake_loop N t) u) = lp_count (nt_io N u)"
  "nt_loops (wake_loop N t) = nt_loops N" "nt_ledger (wake_loop N t) = nt_ledger N"
  "lp_wakeQueued (nt_io (wake_loop N t) u) \<longleftrightarrow> lp_wakeQueued (nt_io N u) \<or> (u = t \<and> lp_count (nt_io N t) > 0)"
  "u \<in> set (nt_posts (wake_loop N t)) \<longleftrightarrow>
     u \<in> set (nt_posts N) \<or> (u = t \<and> lp_count (nt_io N t) > 0 \<and> \<not> lp_wakeQueued (nt_io N t))"
  by (auto simp: wake_loop_def Let_def)

lemma wake_all:
  "lp_count (nt_io (foldl wake_loop N ts) u) = lp_count (nt_io N u)"
  "u \<in> set ts \<Longrightarrow> lp_count (nt_io N u) > 0 \<Longrightarrow> lp_wakeQueued (nt_io (foldl wake_loop N ts) u)"
  "lp_wakeQueued (nt_io N u) \<Longrightarrow> lp_wakeQueued (nt_io (foldl wake_loop N ts) u)"
  "(lp_wakeQueued (nt_io N u) \<longrightarrow> u \<in> set (nt_posts N)) \<Longrightarrow>
     lp_wakeQueued (nt_io (foldl wake_loop N ts) u) \<Longrightarrow> u \<in> set (nt_posts (foldl wake_loop N ts))"
proof -
  show "lp_count (nt_io (foldl wake_loop N ts) u) = lp_count (nt_io N u)"
    by (induction ts arbitrary: N) (simp_all add: wake_loop_io)
  show q: "lp_wakeQueued (nt_io N u) \<Longrightarrow> lp_wakeQueued (nt_io (foldl wake_loop N ts) u)" for N ts
    by (induction ts arbitrary: N) (simp_all add: wake_loop_io)
  show "u \<in> set ts \<Longrightarrow> lp_count (nt_io N u) > 0 \<Longrightarrow> lp_wakeQueued (nt_io (foldl wake_loop N ts) u)"
  proof (induction ts arbitrary: N)
    case (Cons t ts)
    then show ?case using q [of "wake_loop N t" ts] by (cases "u = t") (auto simp: wake_loop_io)
  qed simp
  show "(lp_wakeQueued (nt_io N u) \<longrightarrow> u \<in> set (nt_posts N)) \<Longrightarrow>
     lp_wakeQueued (nt_io (foldl wake_loop N ts) u) \<Longrightarrow> u \<in> set (nt_posts (foldl wake_loop N ts))"
  proof (induction ts arbitrary: N)
    case (Cons t ts)
    have "lp_wakeQueued (nt_io (wake_loop N t) u) \<longrightarrow> u \<in> set (nt_posts (wake_loop N t))"
      using Cons.prems(1) by (auto simp: wake_loop_io)
    then show ?case using Cons.IH [of "wake_loop N t"] Cons.prems(2) by simp
  qed simp
qed

text \<open>Parking a chain and draining a loop, on the requests waiting there.\<close>

lemma Park_waiting:
  assumes "waiting st N t rs" and "path st (Some f) (xs @ [l]) e" and "distinct (xs @ l # rs)"
    and "Park st N t f l (length xs + 1) = (st', N')"
  shows "waiting st' N' t (lp_local (nt_io N t) @ xs @ l # drop (length (lp_local (nt_io N t))) rs)"
    and "t \<in> set (nt_loops N') \<or> lp_registered (nt_io N t)" and "contents_eq st st'"
proof -
  obtain chain where c: "path st (lp_head (nt_io N t)) chain None" "rs = lp_local (nt_io N t) @ chain"
    "lp_count (nt_io N t) = int (length rs)" using assms(1) by (auto simp: waiting_def)
  have st': "st' = set_next st l (lp_head (nt_io N t))" and
    io: "nt_io N' t = (nt_io N t)\<lparr>lp_head := Some f, lp_count := lp_count (nt_io N t) + int (length xs + 1), lp_registered := True\<rparr>"
    using assms(4) by (auto simp: Park_def Let_def split: if_splits)
  have "distinct (xs @ l # chain)" using assms(3) c(2) by auto
  from insertChain_ok [OF assms(2) this c(1)] have "path st' (Some f) (xs @ l # chain) None"
    by (simp add: insertChain_def st')
  then show "waiting st' N' t (lp_local (nt_io N t) @ xs @ l # drop (length (lp_local (nt_io N t))) rs)"
    unfolding waiting_def using c assms(3) io by (intro exI [of _ "xs @ l # chain"]) auto
  show "t \<in> set (nt_loops N') \<or> lp_registered (nt_io N t)"
    using assms(4) by (auto simp: Park_def Let_def split: if_splits)
  show "contents_eq st st'" by (simp add: st')
qed

lemma contents_eq_lsn: "contents_eq st st' \<Longrightarrow> rq_durableLsn (st' r) = rq_durableLsn (st r)"
proof -
  assume "contents_eq st st'"
  then have "(st' r)\<lparr>rq_next := None\<rparr> = (st r)\<lparr>rq_next := None\<rparr>" by (simp add: contents_eq_def)
  from arg_cong [OF this, of rq_durableLsn] show ?thesis by simp
qed

text \<open>C14. A durable write is acknowledged exactly when the log covers it: draining a loop answers
  every request waiting there whose log position is at or below the durable watermark, in the
  order they wait, answers no other, loses none, and leaves the loop's count of waiting requests
  exact.\<close>

theorem drain_answers_covered:
  assumes "waiting st N t rs" and "length rs \<le> fuel"
  shows "\<exists>st' N' answered. DrainDurable fuel True st N t durable = Some (st', N', answered) \<and>
    answered = filter (\<lambda>r. rq_durableLsn (st r) \<le> durable) rs \<and>
    waiting st' N' t (filter (\<lambda>r. durable < rq_durableLsn (st r)) rs) \<and> contents_eq st st' \<and>
    \<not> lp_wakeQueued (nt_io N' t)"
proof -
  obtain chain where c: "path st (lp_head (nt_io N t)) chain None" "rs = lp_local (nt_io N t) @ chain"
    "distinct rs" "lp_count (nt_io N t) = int (length rs)" using assms(1) by (auto simp: waiting_def)
  have "distinct chain" "length chain \<le> fuel" using c(2,3) assms(2) by auto
  from drainChain_ok [OF c(1) this] obtain st' where
    d: "drainChain fuel st (lp_head (nt_io N t)) = Some (chain, st')" "contents_eq st st'" by blast
  note L = contents_eq_lsn [OF d(2)]
  have len: "length rs = length (filter (\<lambda>r. rq_durableLsn (st r) \<le> durable) rs) +
      length (filter (\<lambda>r. durable < rq_durableLsn (st r)) rs)"
    using sum_length_filter_compl [of "\<lambda>r. rq_durableLsn (st r) \<le> durable" rs] by (simp add: not_le)
  show ?thesis
  proof (cases "rs = []")
    case True
    then show ?thesis using c d by (auto simp: DrainDurable_def waiting_def)
  next
    case False
    then show ?thesis
      using c d len by (auto simp: DrainDurable_def waiting_def answer_loop_eq L not_le)
  qed
qed

definition sample_park :: Notifier where
  "sample_park = \<lparr>nt_loops = [4], nt_ledger = [(5, 10), (9, 20)], nt_parkGen = 2,
     nt_io = (\<lambda>t. if t = 4 then \<lparr>lp_head = Some 1, lp_count = 2, lp_wakeQueued = False, lp_registered = True, lp_local = [2]\<rparr>
                  else \<lparr>lp_head = None, lp_count = 0, lp_wakeQueued = False, lp_registered = False, lp_local = []\<rparr>),
     nt_posts = []\<rparr>"

definition sample_reqs :: store where
  "sample_reqs = (\<lambda>r. new_request\<lparr>rq_durableLsn := if r = 1 then 5 else 9\<rparr>)"

theorem drain_answers_covered_witness:
  "\<exists>st' N'. DrainDurable 2 True sample_reqs sample_park 4 5 = Some (st', N', [1]) \<and> waiting st' N' 4 [2]"
proof -
  have "waiting sample_reqs sample_park 4 [2, 1]"
    by (auto simp: waiting_def sample_park_def sample_reqs_def new_request_def intro!: exI [of _ "[1]"])
  from drain_answers_covered [OF this, of 2 5] show ?thesis by (auto simp: sample_reqs_def)
qed

text \<open>C30. A turn of the notifier that sees a new watermark or newly parked writes misses nothing: the
  queue budget gets back exactly the bytes of the batches the log now covers, the ledger keeps
  exactly the others, and every registered loop on which a request waits has a drain posted to it.\<close>

theorem notifier_turn_complete:
  assumes "run_turn N queuedBytes d (lastD, lastG) = (N', queuedBytes', seenD, seenG)"
    and "d \<noteq> lastD \<or> nt_parkGen N \<noteq> lastG"
    and "\<And>t. lp_wakeQueued (nt_io N t) \<Longrightarrow> t \<in> set (nt_posts N)"
  shows "queuedBytes' = queuedBytes - (\<Sum>e\<leftarrow>filter (\<lambda>e. fst e \<le> d) (nt_ledger N). snd e) \<and>
    nt_ledger N' = filter (\<lambda>e. d < fst e) (nt_ledger N) \<and> seenD = d \<and> seenG = nt_parkGen N \<and>
    (t \<in> set (nt_loops N) \<and> 0 < lp_count (nt_io N t) \<longrightarrow> t \<in> set (nt_posts N'))"
proof -
  let ?N = "N\<lparr>nt_ledger := filter (\<lambda>e. d < fst e) (nt_ledger N)\<rparr>"
  have N': "N' = foldl wake_loop ?N (nt_loops N)" and
    q: "queuedBytes' = queuedBytes - (\<Sum>e\<leftarrow>filter (\<lambda>e. fst e \<le> d) (nt_ledger N). snd e)" and
    sn: "seenD = d" "seenG = nt_parkGen N"
    using assms(1,2) by (auto simp: run_turn_def release_eq wake_def Let_def split: if_splits)
  have l: "nt_ledger (foldl wake_loop M ts) = nt_ledger M" for M ts
    by (induction ts arbitrary: M) (simp_all add: wake_loop_io)
  have "t \<in> set (nt_posts N')" if "t \<in> set (nt_loops N)" "0 < lp_count (nt_io N t)"
    unfolding N' by (rule wake_all(4)) (use that assms(3) wake_all(2) in auto)
  then show ?thesis using q sn l [of ?N "nt_loops N"] N' by simp
qed

theorem notifier_turn_complete_witness:
  "\<exists>N'. run_turn sample_park 100 5 (0, 0) = (N', 90, 5, 2) \<and> nt_ledger N' = [(9, 20)] \<and> 4 \<in> set (nt_posts N')"
proof -
  obtain N' q d g where r: "run_turn sample_park 100 5 (0, 0) = (N', q, d, g)" by (metis prod_cases4)
  have "\<And>t. lp_wakeQueued (nt_io sample_park t) \<Longrightarrow> t \<in> set (nt_posts sample_park)"
    by (simp add: sample_park_def split: if_splits)
  from notifier_turn_complete [OF r _ this, of 4] show ?thesis using r by (simp add: sample_park_def)
qed

subsection \<open>The completion thread's pass\<close>

lemma concat_slices: "0 < n \<Longrightarrow> concat (slices n rs) = rs \<and> (\<forall>s\<in>set (slices n rs). s \<noteq> [] \<and> length s \<le> n)"
proof (induction n rs rule: slices.induct)
  case (1 n rs)
  show ?case
  proof (cases "rs = []")
    case True
    then show ?thesis by (simp add: slices.simps)
  next
    case False
    then show ?thesis using 1 by (subst (1 2) slices.simps) simp
  qed
qed

lemma group_push_mset: "mset (concat (map snd (group_push gs k r))) = mset (concat (map snd gs)) + {#r#}"
  by (induction gs k r rule: group_push.induct) simp_all

lemma add_groups_mset:
  "mset (concat (map snd (fst (foldl (add_group st) g rs)))) + mset (concat (map snd (snd (foldl (add_group st) g rs)))) =
   mset (concat (map snd (fst g))) + mset (concat (map snd (snd g))) + mset rs"
  by (induction rs arbitrary: g) (simp_all add: add_group_def group_push_mset split: option.split)

lemma take_ready_eq: "take_ready d q = (takeWhile (\<lambda>p. pd_lsn p \<le> d) q, dropWhile (\<lambda>p. pd_lsn p \<le> d) q)"
  by (induction q) simp_all

lemma concat_group_slices:
  "0 < n \<Longrightarrow> concat (concat (map snd (map (\<lambda>(t, rs). (t, slices n rs)) gs))) = concat (map snd gs)"
  by (induction gs) (auto simp: concat_slices)

lemma group_slices_bound:
  assumes "0 < n" and "s \<in> set (concat (map snd (map (\<lambda>(t, rs). (t, slices n rs)) gs)))"
  shows "s \<noteq> [] \<and> length s \<le> n"
proof -
  obtain rs where "s \<in> set (slices n rs)" using assms(2) by auto
  then show ?thesis using concat_slices [OF assms(1), of rs] by blast
qed

text \<open>The completion thread answers every request of every batch it takes exactly once, in posts
  of at most the slice length; it takes the batches at the head of the queue that the log covers and
  leaves the rest, and gives back exactly their bytes.\<close>

theorem durable_pass_complete:
  assumes "durable_pass n st q queuedBytes d = (st', q', queuedBytes', byThread, byLoop)" and "0 < n"
  shows "mset (concat (concat (map snd byThread))) + mset (concat (concat (map snd byLoop))) =
      mset (concat (map pd_reqs (takeWhile (\<lambda>p. pd_lsn p \<le> d) q))) \<and>
    q' = dropWhile (\<lambda>p. pd_lsn p \<le> d) q \<and>
    queuedBytes' = queuedBytes - (\<Sum>p\<leftarrow>takeWhile (\<lambda>p. pd_lsn p \<le> d) q. pd_bytes p) \<and>
    (s \<in> set (concat (map snd byThread)) \<union> set (concat (map snd byLoop)) \<longrightarrow> s \<noteq> [] \<and> length s \<le> n)"
proof -
  let ?r = "takeWhile (\<lambda>p. pd_lsn p \<le> d) q"
  let ?st = "foldl mark_reqs st ?r"
  let ?g = "foldl (add_group ?st) ([], []) (concat (map pd_reqs ?r))"
  have e: "byThread = map (\<lambda>(t, rs). (t, slices n rs)) (fst ?g)" "byLoop = map (\<lambda>(t, rs). (t, slices n rs)) (snd ?g)"
    "q' = dropWhile (\<lambda>p. pd_lsn p \<le> d) q" "queuedBytes' = queuedBytes - (\<Sum>p\<leftarrow>?r. pd_bytes p)"
    using assms(1) by (auto simp: durable_pass_def take_ready_eq Let_def split: prod.splits)
  have "mset (concat (map snd (fst ?g))) + mset (concat (map snd (snd ?g))) = mset (concat (map pd_reqs ?r))"
    using add_groups_mset [of ?st "([], [])" "concat (map pd_reqs ?r)"] by simp
  moreover have "s \<noteq> [] \<and> length s \<le> n" if "s \<in> set (concat (map snd byThread)) \<union> set (concat (map snd byLoop))"
    using that unfolding e(1,2) Un_iff by (elim disjE) (erule group_slices_bound [OF assms(2)])+
  ultimately show ?thesis using e(3,4) unfolding e(1,2) concat_group_slices [OF assms(2)] by blast
qed

theorem durable_pass_complete_witness:
  "\<exists>st' byThread byLoop. durable_pass 2 sample_reqs
      [\<lparr>pd_lsn = 5, pd_status = status_ok, pd_reqs = [1, 2, 3], pd_bytes = 30\<rparr>,
       \<lparr>pd_lsn = 9, pd_status = status_ok, pd_reqs = [4], pd_bytes = 7\<rparr>] 100 6 =
     (st', [\<lparr>pd_lsn = 9, pd_status = status_ok, pd_reqs = [4], pd_bytes = 7\<rparr>], 70, byThread, byLoop) \<and>
     mset (concat (concat (map snd byThread))) + mset (concat (concat (map snd byLoop))) = mset [1, 2, 3]"
proof -
  let ?q = "[\<lparr>pd_lsn = 5, pd_status = status_ok, pd_reqs = [1, 2, 3], pd_bytes = 30\<rparr>,
       \<lparr>pd_lsn = 9, pd_status = status_ok, pd_reqs = [4], pd_bytes = 7\<rparr>]"
  obtain st' q' b bt bl where r: "durable_pass 2 sample_reqs ?q 100 6 = (st', q', b, bt, bl)" by (metis prod_cases5)
  show ?thesis using durable_pass_complete [OF r] r by simp
qed

end
