(* ===== verification/Write_Path.thy ===== *)
theory Write_Path
  imports Doc_Cache Doc_Meta Batch_Order Durable_Ack
begin

text \<open>
  What a writer thread does with a vbucket's queue (\<^verbatim>\<open>server/engine.cc\<close>:
  \<open>WriterPool::executePersist\<close>, \<open>releaseVBQueue\<close>, \<open>releaseVBQueueAfterWrite\<close>, \<open>Shard::NextSeqno\<close>). The
  storage engine is a parameter: what \<open>WriteDocs\<close> returns and does to its own state, and the log's
  tail position. The function follows the source in three phases: taking the batch, writing and
  completing it, releasing the queue; requests that arrive between the phases are treated in the
  theory of the queue protocol. The cache is the S3-FIFO cache.
\<close>

subsection \<open>Configuration and state\<close>

datatype BatchSort = Auto | Always | Never

datatype WriteOp = NewDocDelete bytes bytes | NewDocUpsert bytes bytes bytes

record WriteCfg =
  wc_durable :: bool
  wc_asyncDurable :: bool
  wc_compactMeta :: bool
  wc_batchSort :: BatchSort
  wc_sortDupThreshold :: real
  wc_sizeofRequest :: nat

record ('m, 'mg) Writer =
  wr_store :: store
  wr_q :: WriteQueues
  wr_lastWriteNs :: "u16 \<Rightarrow> u64"
  wr_seqnos :: "u16 \<Rightarrow> u64"
  wr_cache :: "'m Cache option"
  wr_magma :: 'mg
  wr_free :: FreePool
  wr_durableQueue :: "PendingDurable list"
  wr_notifier :: "Notifier option"
  wr_responses :: "(nat option \<times> rid) list"

text \<open>The storage engine, and what the environment supplies to one execution: the clock readings and
  whether the pool of recycled requests accepts a chain.\<close>

record 'mg Magma =
  WriteDocs :: "'mg \<Rightarrow> u16 \<Rightarrow> WriteOp list \<Rightarrow> Status \<times> 'mg"
  GetWALTailLSN :: "'mg \<Rightarrow> u64"

record WriteEnv =
  we_cas :: u64
  we_writtenNs :: u64
  we_accepts :: bool

subsection \<open>Taking the batch\<close>

definition releaseVBQueue :: "WriteQueues \<Rightarrow> u16 \<Rightarrow> WriteQueues" where
  "releaseVBQueue q v =
     (let q = q\<lparr>wq_scheduled := (wq_scheduled q)(v := False)\<rparr>
      in if wq_head q v \<noteq> None \<and> \<not> wq_scheduled q v
         then q\<lparr>wq_scheduled := (wq_scheduled q)(v := True), wq_tasks := wq_tasks q @ [v]\<rparr>
         else q)"

definition take_batch :: "nat \<Rightarrow> store \<Rightarrow> WriteQueues \<Rightarrow> u16 \<Rightarrow> (rid list \<times> store \<times> WriteQueues) option" where
  "take_batch fuel st q v =
     (case sweepOnce fuel st (wq_head q v) of
        None \<Rightarrow> None
      | Some ((batch, st), h) \<Rightarrow>
          Some (rev batch, st, q\<lparr>wq_head := (wq_head q)(v := h),
            wq_pending := (wq_pending q)(v := wq_pending q v - length batch)\<rparr>))"

subsection \<open>Writing the batch\<close>

definition doSort :: "WriteCfg \<Rightarrow> bytes list \<Rightarrow> bool" where
  "doSort cfg keys \<longleftrightarrow> length keys > 1 \<and>
     (wc_batchSort cfg = Always \<or>
      (wc_batchSort cfg = Auto \<and> estimateDupFraction keys \<ge> wc_sortDupThreshold cfg))"

definition order_batch :: "WriteCfg \<Rightarrow> store \<Rightarrow> rid list \<Rightarrow> rid list \<times> rid list" where
  "order_batch cfg st batch =
     (let keys = map (\<lambda>r. rq_key (st r)) batch
      in if doSort cfg keys
         then let (keep, dropped) = sort_batch keys in (map (\<lambda>i. batch ! i) keep, map (\<lambda>i. batch ! i) dropped)
         else (batch, []))"

definition NextSeqno :: "(u16 \<Rightarrow> u64) \<Rightarrow> u16 \<Rightarrow> u64 \<times> (u16 \<Rightarrow> u64)" where
  "NextSeqno s v = (s v + 1, s(v := s v + 1))"

definition doc_meta :: "Request \<Rightarrow> u64 \<Rightarrow> u64 \<Rightarrow> DocMeta" where
  "doc_meta q seqno casNow = \<lparr>m_seqno = seqno, m_cas = casNow, m_valueSize = of_nat (length (rq_value q)),
     m_flags = rq_flags q, m_expiry = rq_expiry q,
     m_deleted = (if rq_opcode q = opcode_val OpDelete then 1 else 0), m_datatype = rq_datatype q\<rparr>"

definition write_op :: "WriteCfg \<Rightarrow> Request \<Rightarrow> DocMeta \<Rightarrow> WriteOp" where
  "write_op cfg q dm =
     (let meta = (if wc_compactMeta cfg then encodeCompact dm else encode dm)
      in if rq_opcode q = opcode_val OpDelete then NewDocDelete (rq_key q) meta
         else NewDocUpsert (rq_key q) meta (rq_value q))"

fun build_ops :: "WriteCfg \<Rightarrow> u64 \<Rightarrow> u16 \<Rightarrow> store \<Rightarrow> (u16 \<Rightarrow> u64) \<Rightarrow> rid list \<Rightarrow>
    WriteOp list \<times> nat \<times> store \<times> (u16 \<Rightarrow> u64)" where
  "build_ops cfg casNow v st s [] = ([], 0, st, s)"
| "build_ops cfg casNow v st s (r # rs) =
     (let (seqno, s) = NextSeqno s v;
          st = set_req st r (\<lambda>q. q\<lparr>rq_seqno := seqno\<rparr>);
          op = write_op cfg (st r) (doc_meta (st r) seqno casNow);
          (ops, b, st', s) = build_ops cfg casNow v st s rs
      in (op # ops, item_size (wc_sizeofRequest cfg) (st r) + b, st', s))"

definition mark_persisted :: "'m F14 \<Rightarrow> hashfn \<Rightarrow> u16 \<Rightarrow> store \<Rightarrow> Status \<Rightarrow> rid list \<Rightarrow> 'm Cache \<Rightarrow> 'm Cache" where
  "mark_persisted F hf v st status batch c =
     foldl (\<lambda>c r. MarkPersisted F hf c v (rq_key (st r)) (if IsOK status then rq_seqno (st r) else 0)) c batch"

subsection \<open>Completing the batch\<close>

text \<open>Grouping by answering loop. The sort there orders by loop only; requests of one loop may come in
  any order, the model keeps them in batch order.\<close>

fun link_run :: "store \<Rightarrow> rid list \<Rightarrow> store" where
  "link_run st (a # b # cs) = link_run (set_next st a (Some b)) (b # cs)"
| "link_run st _ = st"

definition owner_less :: "store \<Rightarrow> rid \<Rightarrow> rid \<Rightarrow> bool" where
  "owner_less st a b =
     (case (rq_ioOwner (st a), rq_ioOwner (st b)) of
        (None, Some _) \<Rightarrow> True | (Some x, Some y) \<Rightarrow> x < y | _ \<Rightarrow> False)"

function park_runs :: "store \<Rightarrow> Notifier \<Rightarrow> rid list \<Rightarrow> rid list \<Rightarrow> store \<times> Notifier \<times> rid list" where
  "park_runs st N orphans [] = (st, N, orphans)"
| "park_runs st N orphans (r # rs) =
     (let t = rq_ioOwner (st r);
          run = r # takeWhile (\<lambda>x. rq_ioOwner (st x) = t) rs;
          rest = dropWhile (\<lambda>x. rq_ioOwner (st x) = t) rs;
          st = link_run st run
      in case t of
           Some u \<Rightarrow> let (st, N) = Park st N u r (last run) (length run) in park_runs st N orphans rest
         | None \<Rightarrow> park_runs st N (orphans @ run) rest)"
  by pat_completeness auto
termination
  by (relation "measure (\<lambda>(st, N, orphans, rs). length rs)") (auto simp: length_dropWhile_le le_imp_less_Suc)

definition complete_durable :: "u64 \<Rightarrow> Status \<Rightarrow> nat \<Rightarrow> rid list \<Rightarrow> ('m, 'mg) Writer \<Rightarrow> ('m, 'mg) Writer" where
  "complete_durable lsn status batchBytes batch w =
     (case wr_notifier w of
        Some N \<Rightarrow>
          let st = foldl (\<lambda>st r. set_req st r (\<lambda>q. q\<lparr>rq_durableLsn := lsn\<rparr>)) (wr_store w) batch;
              (st, N, orphans) = park_runs st N [] (sort_by (owner_less st) batch);
              w = w\<lparr>wr_store := st\<rparr>;
              w = (if orphans \<noteq> []
                   then w\<lparr>wr_durableQueue := AwaitDurable (wr_durableQueue w)
                            \<lparr>pd_lsn = lsn, pd_status = status, pd_reqs = orphans, pd_bytes = 0\<rparr>\<rparr>
                   else w)
          in w\<lparr>wr_notifier := Some (AddBytes N lsn batchBytes)\<rparr>
      | None \<Rightarrow>
          w\<lparr>wr_durableQueue := AwaitDurable (wr_durableQueue w)
              \<lparr>pd_lsn = lsn, pd_status = status, pd_reqs = batch, pd_bytes = batchBytes\<rparr>\<rparr>)"

text \<open>Recycling: every request reset, the chain linked, its length on the first.\<close>

fun recycle_chain :: "store \<Rightarrow> rid list \<Rightarrow> store" where
  "recycle_chain st [] = st"
| "recycle_chain st [r] = set_next (set_req st r req_reset) r None"
| "recycle_chain st (a # b # cs) = recycle_chain (set_next (set_req st a req_reset) a (Some b)) (b # cs)"

definition recycle_batch :: "bool \<Rightarrow> rid list \<Rightarrow> ('m, 'mg) Writer \<Rightarrow> ('m, 'mg) Writer" where
  "recycle_batch accepts batch w =
     (let st = recycle_chain (wr_store w) batch;
          st = set_req st (hd batch) (\<lambda>q. q\<lparr>rq_chainLen := of_nat (length batch)\<rparr>);
          (ok, p) = RecycleRequests accepts st (wr_free w) (hd batch)
      in w\<lparr>wr_store := st, wr_free := p\<rparr>)"

definition respond_all :: "Status \<Rightarrow> rid list \<Rightarrow> ('m, 'mg) Writer \<Rightarrow> ('m, 'mg) Writer" where
  "respond_all status batch w =
     w\<lparr>wr_store := foldl (\<lambda>st r. set_req st r (\<lambda>q. q\<lparr>rq_status := status\<rparr>)) (wr_store w) batch,
       wr_responses := wr_responses w @ map (\<lambda>r. (rq_evb (wr_store w r), r)) batch\<rparr>"

definition sub_queued :: "nat \<Rightarrow> ('m, 'mg) Writer \<Rightarrow> ('m, 'mg) Writer" where
  "sub_queued b w = w\<lparr>wr_q := (wr_q w)\<lparr>wq_queuedBytes := wq_queuedBytes (wr_q w) - b\<rparr>\<rparr>"

subsection \<open>The writer's step\<close>

definition persist_batch :: "'mg Magma \<Rightarrow> 'm F14 \<Rightarrow> hashfn \<Rightarrow> WriteCfg \<Rightarrow> WriteEnv \<Rightarrow> u16 \<Rightarrow> rid list \<Rightarrow>
    ('m, 'mg) Writer \<Rightarrow> nat \<times> ('m, 'mg) Writer" where
  "persist_batch M F hf cfg env v batch0 w =
     (let (batch, dropped) = order_batch cfg (wr_store w) batch0;
          (ops, batchBytes, st, s) = build_ops cfg (we_cas env) v (wr_store w) (wr_seqnos w) batch;
          (status, mg) = WriteDocs M (wr_magma w) v ops;
          w = w\<lparr>wr_store := st, wr_seqnos := s, wr_magma := mg,
                wr_lastWriteNs := (wr_lastWriteNs w)(v := we_writtenNs env),
                wr_cache := map_option (mark_persisted F hf v st status batch) (wr_cache w)\<rparr>;
          batchBytes = batchBytes + sum_list (map (\<lambda>r. item_size (wc_sizeofRequest cfg) (st r)) dropped);
          batch = batch @ dropped
      in (length batch,
          if wc_durable cfg \<and> wc_asyncDurable cfg \<and> IsOK status
          then complete_durable (GetWALTailLSN M mg) status batchBytes batch w
          else let w = sub_queued batchBytes w
               in if wc_durable cfg then respond_all status batch w
                  else recycle_batch (we_accepts env) batch w))"

definition executePersist :: "nat \<Rightarrow> 'mg Magma \<Rightarrow> 'm F14 \<Rightarrow> hashfn \<Rightarrow> WriteCfg \<Rightarrow> WriteEnv \<Rightarrow> u16 \<Rightarrow>
    ('m, 'mg) Writer \<Rightarrow> (nat \<times> ('m, 'mg) Writer) option" where
  "executePersist fuel M F hf cfg env v w =
     (case take_batch fuel (wr_store w) (wr_q w) v of
        None \<Rightarrow> None
      | Some (batch, st, q) \<Rightarrow>
          let w = w\<lparr>wr_store := st, wr_q := q\<rparr>
          in if batch = [] then Some (0, w\<lparr>wr_q := releaseVBQueue (wr_q w) v\<rparr>)
             else let (written, w) = persist_batch M F hf cfg env v batch w
                  in Some (written, w\<lparr>wr_q := releaseVBQueue (wr_q w) v\<rparr>))"

subsection \<open>What a batch writes\<close>

fun op_key :: "WriteOp \<Rightarrow> bytes" where
  "op_key (NewDocDelete k m) = k" | "op_key (NewDocUpsert k m x) = k"

fun op_meta :: "WriteOp \<Rightarrow> bytes" where
  "op_meta (NewDocDelete k m) = m" | "op_meta (NewDocUpsert k m x) = m"

lemma set_req_apply [simp]: "set_req st r f x = (if x = r then f (st r) else st x)"
  by (simp add: set_req_def)

lemma item_size_seqno [simp]: "item_size n (q\<lparr>rq_seqno := x\<rparr>) = item_size n q"
  by (simp add: item_size_def)

lemma build_ops_ok:
  assumes "build_ops cfg casNow v st s rs = (ops, b, st', s')" and "distinct rs"
  shows "length ops = length rs \<and> b = (\<Sum>r\<leftarrow>rs. item_size (wc_sizeofRequest cfg) (st r)) \<and>
    s' = s(v := s v + of_nat (length rs)) \<and>
    (\<forall>r. r \<notin> set rs \<longrightarrow> st' r = st r) \<and>
    (\<forall>i<length rs. st' (rs ! i) = (st (rs ! i))\<lparr>rq_seqno := s v + of_nat (i + 1)\<rparr> \<and>
       ops ! i = write_op cfg (st' (rs ! i)) (doc_meta (st' (rs ! i)) (s v + of_nat (i + 1)) casNow))"
  using assms
proof (induction rs arbitrary: st s ops b)
  case Nil
  then have "ops = []" "b = 0" "st' = st" "s' = s" by simp_all
  then show ?case by simp
next
  case (Cons r rs)
  let ?st = "set_req st r (\<lambda>q. q\<lparr>rq_seqno := s v + 1\<rparr>)" and ?s = "s(v := s v + 1)"
  obtain ops1 b1 st1 s1 where b0: "build_ops cfg casNow v ?st ?s rs = (ops1, b1, st1, s1)" by (rule prod_cases4)
  have eq: "ops = write_op cfg (?st r) (doc_meta (?st r) (s v + 1) casNow) # ops1"
      "b = item_size (wc_sizeofRequest cfg) (?st r) + b1" and e1: "st1 = st'" "s1 = s'"
    using Cons.prems(1) b0 by (simp_all add: NextSeqno_def)
  note b1 = b0 [unfolded e1]
  have d: "distinct rs" "r \<notin> set rs" using Cons.prems(2) by simp_all
  note I = Cons.IH [OF b1 d(1)]
  have I1: "length ops1 = length rs" and I2: "b1 = (\<Sum>x\<leftarrow>rs. item_size (wc_sizeofRequest cfg) (?st x))"
    and I3: "s' = ?s(v := ?s v + of_nat (length rs))" and I4: "x \<notin> set rs \<Longrightarrow> st' x = ?st x"
    and I5: "i < length rs \<Longrightarrow> st' (rs ! i) = (?st (rs ! i))\<lparr>rq_seqno := ?s v + of_nat (i + 1)\<rparr> \<and>
       ops1 ! i = write_op cfg (st' (rs ! i)) (doc_meta (st' (rs ! i)) (?s v + of_nat (i + 1)) casNow)" for x i
    using I by blast+
  have str: "st' r = (st r)\<lparr>rq_seqno := s v + 1\<rparr>" using I4 [OF d(2)] by simp
  have sum: "(\<Sum>x\<leftarrow>rs. item_size (wc_sizeofRequest cfg) (?st x)) = (\<Sum>x\<leftarrow>rs. item_size (wc_sizeofRequest cfg) (st x))"
    using d(2) by (intro arg_cong [of _ _ sum_list] map_cong) auto
  have each: "st' ((r # rs) ! i) = (st ((r # rs) ! i))\<lparr>rq_seqno := s v + of_nat (i + 1)\<rparr> \<and>
      ops ! i = write_op cfg (st' ((r # rs) ! i)) (doc_meta (st' ((r # rs) ! i)) (s v + of_nat (i + 1)) casNow)"
    if "i < length (r # rs)" for i
  proof (cases i)
    case 0
    then show ?thesis using str eq(1) by simp
  next
    case (Suc j)
    then have j: "j < length rs" using that by simp
    then have ne: "rs ! j \<noteq> r" using d(2) by auto
    have n: "?s v + of_nat (j + 1) = s v + of_nat (i + 1)" using Suc by (simp add: add.assoc)
    show ?thesis using I5 [OF j, unfolded n] ne unfolding Suc eq(1) by simp
  qed
  have "s' = s(v := s v + of_nat (length (r # rs)))" unfolding I3 by (simp add: fun_eq_iff add.assoc)
  moreover have "b = (\<Sum>x\<leftarrow>r # rs. item_size (wc_sizeofRequest cfg) (st x))" unfolding eq(2) I2 sum by simp
  moreover have "\<forall>x. x \<notin> set (r # rs) \<longrightarrow> st' x = st x" using I4 by simp
  moreover have "length ops = length (r # rs)" using eq(1) I1 by simp
  ultimately show ?case using each by blast
qed

lemma order_batch_ok:
  assumes "order_batch cfg st batch0 = (batch, dropped)" and "distinct batch0"
  shows "mset batch + mset dropped = mset batch0" and "distinct batch"
    and "r \<in> set dropped \<Longrightarrow> \<exists>i j. j < length batch0 \<and> i < j \<and> r = batch0 ! i \<and> batch0 ! j \<in> set batch \<and>
           rq_key (st (batch0 ! j)) = rq_key (st r)"
    and "doSort cfg (map (\<lambda>r. rq_key (st r)) batch0) \<Longrightarrow> distinct (map (\<lambda>r. rq_key (st r)) batch)"
proof -
  let ?ks = "map (\<lambda>r. rq_key (st r)) batch0"
  have "mset batch + mset dropped = mset batch0 \<and>
    (r \<in> set dropped \<longrightarrow> (\<exists>i j. j < length batch0 \<and> i < j \<and> r = batch0 ! i \<and> batch0 ! j \<in> set batch \<and>
           rq_key (st (batch0 ! j)) = rq_key (st r))) \<and>
    (doSort cfg ?ks \<longrightarrow> distinct (map (\<lambda>r. rq_key (st r)) batch))"
  proof (cases "doSort cfg ?ks")
    case False
    then show ?thesis using assms(1) by (simp add: order_batch_def Let_def)
  next
    case True
    obtain keep drp where sb: "sort_batch ?ks = (keep, drp)" by force
    note S = sort_batch_correct [OF sb]
    have bd: "batch = map (\<lambda>i. batch0 ! i) keep" "dropped = map (\<lambda>i. batch0 ! i) drp"
      using assms(1) True sb by (auto simp: order_batch_def Let_def)
    have m: "mset (keep @ drp) = mset [0..<length batch0]" using S(1) by simp
    have "mset batch + mset dropped = image_mset (\<lambda>i. batch0 ! i) (mset (keep @ drp))" by (simp add: bd)
    also have "\<dots> = mset (map (\<lambda>i. batch0 ! i) [0..<length batch0])" unfolding m by (rule mset_map [symmetric])
    also have "map (\<lambda>i. batch0 ! i) [0..<length batch0] = batch0" by (rule map_nth)
    finally have ms: "mset batch + mset dropped = mset batch0" .
    have dist: "distinct (keep @ drp)" using m by (metis distinct_upt mset_eq_imp_distinct_iff)
    have "\<exists>i j. j < length batch0 \<and> i < j \<and> r = batch0 ! i \<and> batch0 ! j \<in> set batch \<and>
           rq_key (st (batch0 ! j)) = rq_key (st r)" if dr: "r \<in> set dropped"
    proof -
      obtain i where i: "i \<in> set drp" "r = batch0 ! i" using dr bd(2) by auto
      have "set (keep @ drp) = {..<length batch0}" using m by (metis atLeast0LessThan mset_eq_setD set_upt)
      then have il: "i < length batch0" using i(1) by auto
      let ?J = "{j. j < length batch0 \<and> ?ks ! j = ?ks ! i}"
      define j where "j = Max ?J"
      have J: "finite ?J" "i \<in> ?J" using il by auto
      then have jJ: "j \<in> ?J" unfolding j_def by (intro Max_in) blast+
      have jm: "x \<le> j" if "x \<in> ?J" for x unfolding j_def by (rule Max_ge [OF J(1) that])
      have "j \<in> set keep" unfolding S(2) using jJ jm by auto
      moreover have "i \<notin> set keep" using dist i(1) by auto
      ultimately have "i \<noteq> j" by auto
      then have "i < j" using jm [of i] J(2) by auto
      then show ?thesis using jJ i(2) \<open>j \<in> set keep\<close> bd(1) il by (intro exI [of _ i] exI [of _ j]) auto
    qed
    moreover have "distinct (map (\<lambda>r. rq_key (st r)) batch)"
    proof -
      have "sorted_wrt (\<lambda>x y. sv_less x y) (map (\<lambda>i. ?ks ! i) keep)" using S(3) by (simp add: sorted_wrt_map)
      then have "distinct (map (\<lambda>i. ?ks ! i) keep)"
        by (induction keep) auto
      moreover have "map (\<lambda>i. ?ks ! i) keep = map (\<lambda>r. rq_key (st r)) batch"
      proof -
        have "i < length batch0" if "i \<in> set keep" for i using that S(2) [of i] by simp
        then show ?thesis by (simp add: bd(1))
      qed
      ultimately show ?thesis by simp
    qed
    ultimately show ?thesis using ms by blast
  qed
  then show "mset batch + mset dropped = mset batch0"
    "r \<in> set dropped \<Longrightarrow> \<exists>i j. j < length batch0 \<and> i < j \<and> r = batch0 ! i \<and> batch0 ! j \<in> set batch \<and>
           rq_key (st (batch0 ! j)) = rq_key (st r)"
    "doSort cfg ?ks \<Longrightarrow> distinct (map (\<lambda>r. rq_key (st r)) batch)" by blast+
  then have "mset (batch @ dropped) = mset batch0" by simp
  then have "distinct (batch @ dropped)" using assms(2) by (metis mset_eq_imp_distinct_iff)
  then show "distinct batch" by simp
qed


definition sample_writes :: store where
  "sample_writes = (\<lambda>r. new_request\<lparr>rq_key := [9], rq_value := [of_nat r], rq_opcode := 1\<rparr>)"

definition sample_cfg :: WriteCfg where
  "sample_cfg = \<lparr>wc_durable = False, wc_asyncDurable = False, wc_compactMeta = False, wc_batchSort = Always,
     wc_sortDupThreshold = 0, wc_sizeofRequest = 8\<rparr>"

lemma sample_order: "order_batch sample_cfg sample_writes [1, 2] = ([2], [1])"
  by (simp add: order_batch_def doSort_def sample_cfg_def sample_writes_def sort_batch_def sort_keys_def
      sort_by_def key_less_def sameKey_def upt_rec numeral_2_eq_2)


subsection \<open>The write queue's budget\<close>

text \<open>Bytes of writes already applied whose budget is given back once the log covers them.\<close>

definition owed :: "('m, 'mg) Writer \<Rightarrow> nat" where
  "owed w = (case wr_notifier w of None \<Rightarrow> 0 | Some N \<Rightarrow> \<Sum>e\<leftarrow>nt_ledger N. snd e) +
     (\<Sum>p\<leftarrow>wr_durableQueue w. pd_bytes p)"

lemma Park_ledger: "Park st N t f l n = (st', N') \<Longrightarrow> nt_ledger N' = nt_ledger N"
  by (auto simp: Park_def Let_def split: if_splits)

lemma park_runs_ledger: "park_runs st N os rs = (st', N', os') \<Longrightarrow> nt_ledger N' = nt_ledger N"
proof (induction "length rs" arbitrary: st N os rs rule: less_induct)
  case less
  show ?case
  proof (cases rs)
    case Nil
    then show ?thesis using less.prems by simp
  next
    case (Cons r zs)
    define run where "run = r # takeWhile (\<lambda>x. rq_ioOwner (st x) = rq_ioOwner (st r)) zs"
    define rest where "rest = dropWhile (\<lambda>x. rq_ioOwner (st x) = rq_ioOwner (st r)) zs"
    have l: "length rest < length rs" using Cons length_dropWhile_le [of _ zs] by (simp add: rest_def le_imp_less_Suc)
    show ?thesis
    proof (cases "rq_ioOwner (st r)")
      case None
      then have "park_runs (link_run st run) N (os @ run) rest = (st', N', os')"
        using less.prems by (simp add: Cons run_def rest_def Let_def)
      then show ?thesis by (rule less.hyps [OF l])
    next
      case (Some u)
      obtain st1 N1 where p: "Park (link_run st run) N u r (last run) (length run) = (st1, N1)" by force
      then have "park_runs st1 N1 os rest = (st', N', os')"
        using less.prems Some by (simp add: Cons run_def rest_def Let_def)
      then have "nt_ledger N' = nt_ledger N1" by (rule less.hyps [OF l])
      then show ?thesis using Park_ledger [OF p] by simp
    qed
  qed
qed

lemma complete_durable_owed:
  "owed (complete_durable lsn status b batch w) = owed w + b"
  "wr_q (complete_durable lsn status b batch w) = wr_q w"
proof -
  have "owed (complete_durable lsn status b batch w) = owed w + b \<and> wr_q (complete_durable lsn status b batch w) = wr_q w"
  proof (cases "wr_notifier w")
    case None
    then show ?thesis by (simp add: complete_durable_def owed_def AwaitDurable_def)
  next
    case (Some N)
    let ?st = "foldl (\<lambda>st r. set_req st r (\<lambda>q. q\<lparr>rq_durableLsn := lsn\<rparr>)) (wr_store w) batch"
    obtain st' N' os where p: "park_runs ?st N [] (sort_by (owner_less ?st) batch) = (st', N', os)" by (rule prod_cases3)
    show ?thesis using Some p park_runs_ledger [OF p]
      by (simp add: complete_durable_def owed_def AddBytes_def AwaitDurable_def Let_def)
  qed
  then show "owed (complete_durable lsn status b batch w) = owed w + b"
    "wr_q (complete_durable lsn status b batch w) = wr_q w" by simp_all
qed

lemma recycle_batch_frame [simp]:
  "owed (recycle_batch a batch w) = owed w" "wr_q (recycle_batch a batch w) = wr_q w"
  "wr_cache (recycle_batch a batch w) = wr_cache w"
  by (simp_all add: recycle_batch_def owed_def Let_def split: prod.split)

lemma respond_all_frame [simp]:
  "owed (respond_all s batch w) = owed w" "wr_q (respond_all s batch w) = wr_q w"
  "wr_cache (respond_all s batch w) = wr_cache w"
  by (simp_all add: respond_all_def owed_def)

text \<open>The sizes a batch is charged and credited for.\<close>

definition batch_size :: "WriteCfg \<Rightarrow> store \<Rightarrow> rid list \<Rightarrow> nat" where
  "batch_size cfg st rs = (\<Sum>r\<leftarrow>rs. item_size (wc_sizeofRequest cfg) (st r))"

lemma batch_size_mset: "mset xs = mset ys \<Longrightarrow> batch_size cfg st xs = batch_size cfg st ys"
  unfolding batch_size_def by (metis mset_map sum_mset_sum_list)


definition sample_writer :: "(u64, SeqEntry) alist Cache option \<Rightarrow> ((u64, SeqEntry) alist, unit) Writer" where
  "sample_writer c = \<lparr>wr_store = sample_writes, wr_q = idle_queues\<lparr>wq_queuedBytes := 50\<rparr>,
     wr_lastWriteNs = (\<lambda>_. 0), wr_seqnos = (\<lambda>_. 5), wr_cache = c, wr_magma = (),
     wr_free = \<lparr>fp_queue = [], fp_count = 0\<rparr>, wr_durableQueue = [], wr_notifier = None, wr_responses = []\<rparr>"

definition sample_magma :: "unit Magma" where
  "sample_magma = \<lparr>WriteDocs = (\<lambda>_ _ _. (status_ok, ())), GetWALTailLSN = (\<lambda>_. 0)\<rparr>"

definition sample_env :: WriteEnv where
  "sample_env = \<lparr>we_cas = 0, we_writtenNs = 0, we_accepts = True\<rparr>"


lemma persist_cache:
  assumes "wr_cache w = Some c" and "order_batch cfg (wr_store w) batch = (b1, d1)"
  shows "\<exists>st status. wr_cache (snd (persist_batch M F hf cfg env v batch w)) = Some (mark_persisted F hf v st status b1 c) \<and>
    (\<forall>r. rq_key (st r) = rq_key (wr_store w r)) \<or> \<not> distinct b1"
proof (cases "distinct b1")
  case True
  obtain ops bb st s where bo: "build_ops cfg (we_cas env) v (wr_store w) (wr_seqnos w) b1 = (ops, bb, st, s)"
    by (rule prod_cases4)
  obtain status mg where wd: "WriteDocs M (wr_magma w) v ops = (status, mg)" by force
  have cd: "wr_cache (complete_durable lsn status b batch x) = wr_cache x" for lsn status b batch and x :: "('a, 'b) Writer"
    by (simp add: complete_durable_def Let_def split: option.split prod.split)
  have "rq_key (st r) = rq_key (wr_store w r)" for r
  proof (cases "r \<in> set b1")
    case True
    then obtain i where "i < length b1" "r = b1 ! i" by (metis in_set_conv_nth)
    then show ?thesis using build_ops_ok [OF bo \<open>distinct b1\<close>] by simp
  next
    case False
    then have "st r = wr_store w r" using build_ops_ok [OF bo \<open>distinct b1\<close>] by blast
    then show ?thesis by simp
  qed
  moreover have "wr_cache (snd (persist_batch M F hf cfg env v batch w)) = Some (mark_persisted F hf v st status b1 c)"
    unfolding persist_batch_def using assms(1)
    by (simp add: assms(2) bo wd Let_def cd sub_queued_def)
  ultimately show ?thesis by blast
qed blast

text \<open>C31. What the writer's deduplication does to cache pins: every request of the batch pinned its
  key when it was accepted, but only survivors are acknowledged to the cache. A batch of several
  writes of one key therefore ends with all but one of their pins still held, although no write of
  the key is left anywhere; the entry can never be evicted.\<close>

theorem deduplicated_writes_stay_pinned:
  assumes "cache_wf hf c" and "wr_cache w = Some c" and "distinct batch" and "wc_batchSort cfg = Always"
    and "\<And>r. r \<in> set batch \<Longrightarrow> rq_key (wr_store w r) = k" and "1 < length batch"
    and "pins hf c (v, k) = length batch"
  shows "\<exists>c'. wr_cache (snd (persist_batch M F hf cfg env v batch w)) = Some c' \<and>
    pins hf c' (v, k) = length batch - 1"
proof -
  obtain b1 d1 where ob: "order_batch cfg (wr_store w) batch = (b1, d1)" by force
  note O = order_batch_ok [OF ob assms(3)]
  have "doSort cfg (map (\<lambda>r. rq_key (wr_store w r)) batch)" using assms(4,6) by (simp add: doSort_def)
  then have dk: "distinct (map (\<lambda>r. rq_key (wr_store w r)) b1)" by (rule O(4))
  have sub: "set b1 \<subseteq> set batch" using O(1) by (metis mset_subset_eq_add_left set_mset_mono set_mset_mset)
  have "map (\<lambda>r. rq_key (wr_store w r)) b1 = replicate (length b1) k"
    using sub assms(5) by (induction b1) auto
  then have "length b1 \<le> 1" using dk by (cases b1; cases "tl b1") auto
  moreover have "b1 \<noteq> []"
  proof
    assume "b1 = []"
    then have "mset d1 = mset batch" using O(1) by simp
    then have "d1 \<noteq> []" using assms(6) by auto
    then obtain r where "r \<in> set d1" by (cases d1) auto
    then show False using O(3) [of r] \<open>b1 = []\<close> by auto
  qed
  ultimately obtain r where b1: "b1 = [r]" by (cases b1; cases "tl b1") auto
  obtain st status where st: "wr_cache (snd (persist_batch M F hf cfg env v batch w)) = Some (mark_persisted F hf v st status b1 c)"
    "\<forall>r. rq_key (st r) = rq_key (wr_store w r)"
    using persist_cache [OF assms(2) ob] O(2) by blast
  have k: "rq_key (st r) = k" using st(2) sub b1 assms(5) by simp
  have "call_ok hf c (Ack (v, k) n)" for n using assms(6,7) by auto
  then have "pins hf (MarkPersisted F hf c v k n) (v, k) = length batch - 1" for n
    using Ack_step [OF assms(1), of v k n "MarkPersisted F hf c v k n" F] assms(7) by simp
  then show ?thesis using st(1) b1 k by (simp add: mark_persisted_def)
qed

theorem deduplicated_writes_stay_pinned_witness:
  "\<exists>c c'. pins (\<lambda>_ _. 0) c (3, [9]) = 2 \<and>
     wr_cache (snd (persist_batch sample_magma alist_f14 (\<lambda>_ _. 0) sample_cfg sample_env 3 [1, 2] (sample_writer (Some c)))) = Some c' \<and>
     pins (\<lambda>_ _. 0) c' (3, [9]) = 1"
proof -
  let ?c0 = "S3FifoCache (empty_seq_index (DAList.empty :: (u64, SeqEntry) alist)) 1000 1"
  let ?d = "\<lparr>cd_seqno = 0, cd_flags = 0, cd_expiry = 0, cd_datatype = 0, cd_deleted = False, cd_value = [4 :: u8]\<rparr>"
  define c1 where "c1 = cache_step alist_f14 (\<lambda>_ _. 0) ?c0 (Write 1 (3, [9]) ?d)"
  have "call_ok (\<lambda>_ _. 0) ?c0 (Write 1 (3, [9]) ?d)" by (simp add: new_cache_fresh new_cache_ok(2))
  from Put_step [OF new_cache_ok(1) this c1_def] have c1: "cache_wf (\<lambda>_ _. 0) c1" "pins (\<lambda>_ _. 0) c1 (3, [9]) = 1"
    by (simp_all add: new_cache_ok(2))
  obtain a where a: "fresh_for (\<lambda>_ _. 0) c1 (3, [9]) a" using fresh_exists [OF c1(1)] by blast
  define c2 where "c2 = cache_step alist_f14 (\<lambda>_ _. 0) c1 (Write a (3, [9]) ?d)"
  have "call_ok (\<lambda>_ _. 0) c1 (Write a (3, [9]) ?d)" using a c1(2) by simp
  from Put_step [OF c1(1) this c2_def] have c2: "cache_wf (\<lambda>_ _. 0) c2" "pins (\<lambda>_ _. 0) c2 (3, [9]) = 2"
    by (simp_all add: c1(2))
  have "\<exists>c'. wr_cache (snd (persist_batch sample_magma alist_f14 (\<lambda>_ _. 0) sample_cfg sample_env 3 [1, 2] (sample_writer (Some c2)))) = Some c' \<and>
     pins (\<lambda>_ _. 0) c' (3, [9]) = length [1 :: nat, 2] - 1"
    by (rule deduplicated_writes_stay_pinned [OF c2(1)])
      (auto simp: sample_writer_def sample_cfg_def sample_writes_def c2(2))
  then show ?thesis using c2(2) by auto
qed

end
