(* ===== verification/Vb_Schedule.thy ===== *)
theory Vb_Schedule
  imports Main
begin

text \<open>
  The hand-over protocol of a vbucket's write queue between IO threads and writers
  (\<^verbatim>\<open>server/engine.cc\<close>: the scheduling in \<open>FlushStaged\<close>, \<open>SubmitOrDefer\<close>, \<open>deferLoop\<close>, the sweep in
  \<open>executePersist\<close>, \<open>releaseVBQueue\<close> and \<open>releaseVBQueueAfterWrite\<close>), as interleaved atomic steps. The
  model is sequentially consistent, which is what the comment on \<open>releaseVBQueue\<close> relies on for x86; the
  weaker orders some of these accesses are marked with are not told apart. Threads at the same point
  of the code are interchangeable, so a state counts them: any number of IO threads and workers is
  covered.
\<close>

record Sched =
  vq_list :: "nat list"      \<comment> \<open>requests in the queue, newest first\<close>
  vq_scheduled :: bool
  vq_tasks :: nat            \<comment> \<open>tasks of this vbucket in the writers' queue\<close>
  vq_deferred :: nat         \<comment> \<open>tasks waiting out the coalescing interval\<close>
  io_pushed :: nat           \<comment> \<open>IO threads between the push and the exchange of \<open>scheduled\<close>\<close>
  io_won :: nat              \<comment> \<open>IO threads that won the exchange and have not submitted yet\<close>
  wk_took :: nat             \<comment> \<open>workers that took a task and have not swept yet\<close>
  wk_writing :: nat          \<comment> \<open>workers that swept and are writing\<close>
  wk_cleared :: nat          \<comment> \<open>workers that cleared \<open>scheduled\<close> and have not looked at the list yet\<close>
  wk_saw :: nat              \<comment> \<open>workers that found the list non-empty\<close>
  wk_won :: nat              \<comment> \<open>workers that won the exchange and have not submitted yet\<close>
  vq_served :: "nat list"    \<comment> \<open>requests handed to a writer, in order\<close>

definition idle :: Sched where
  "idle = \<lparr>vq_list = [], vq_scheduled = False, vq_tasks = 0, vq_deferred = 0, io_pushed = 0, io_won = 0,
     wk_took = 0, wk_writing = 0, wk_cleared = 0, wk_saw = 0, wk_won = 0, vq_served = []\<rparr>"

text \<open>An IO thread links a chain of requests into the list.\<close>

definition push_chain :: "nat list \<Rightarrow> Sched \<Rightarrow> Sched" where
  "push_chain rs s = s\<lparr>vq_list := rs @ vq_list s, io_pushed := io_pushed s + 1\<rparr>"

text \<open>Every other atomic step, of an IO thread, the coalescing thread or a worker.\<close>

inductive internal :: "Sched \<Rightarrow> Sched \<Rightarrow> bool" where
  io_wins: "0 < io_pushed s \<Longrightarrow> \<not> vq_scheduled s \<Longrightarrow>
    internal s (s\<lparr>io_pushed := io_pushed s - 1, vq_scheduled := True, io_won := io_won s + 1\<rparr>)"
| io_loses: "0 < io_pushed s \<Longrightarrow> vq_scheduled s \<Longrightarrow> internal s (s\<lparr>io_pushed := io_pushed s - 1\<rparr>)"
| io_submits: "0 < io_won s \<Longrightarrow> internal s (s\<lparr>io_won := io_won s - 1, vq_tasks := vq_tasks s + 1\<rparr>)"
| io_defers: "0 < io_won s \<Longrightarrow> internal s (s\<lparr>io_won := io_won s - 1, vq_deferred := vq_deferred s + 1\<rparr>)"
| defer_ends: "0 < vq_deferred s \<Longrightarrow> internal s (s\<lparr>vq_deferred := vq_deferred s - 1, vq_tasks := vq_tasks s + 1\<rparr>)"
| takes: "0 < vq_tasks s \<Longrightarrow> internal s (s\<lparr>vq_tasks := vq_tasks s - 1, wk_took := wk_took s + 1\<rparr>)"
| sweeps: "0 < wk_took s \<Longrightarrow> vq_list s \<noteq> [] \<Longrightarrow>
    internal s (s\<lparr>wk_took := wk_took s - 1, wk_writing := wk_writing s + 1, vq_list := [],
      vq_served := vq_served s @ rev (vq_list s)\<rparr>)"
| sweeps_empty: "0 < wk_took s \<Longrightarrow> vq_list s = [] \<Longrightarrow>
    internal s (s\<lparr>wk_took := wk_took s - 1, vq_scheduled := False, wk_cleared := wk_cleared s + 1\<rparr>)"
| clears: "0 < wk_writing s \<Longrightarrow>
    internal s (s\<lparr>wk_writing := wk_writing s - 1, vq_scheduled := False, wk_cleared := wk_cleared s + 1\<rparr>)"
| finds_empty: "0 < wk_cleared s \<Longrightarrow> vq_list s = [] \<Longrightarrow> internal s (s\<lparr>wk_cleared := wk_cleared s - 1\<rparr>)"
| finds_work: "0 < wk_cleared s \<Longrightarrow> vq_list s \<noteq> [] \<Longrightarrow>
    internal s (s\<lparr>wk_cleared := wk_cleared s - 1, wk_saw := wk_saw s + 1\<rparr>)"
| wk_wins: "0 < wk_saw s \<Longrightarrow> \<not> vq_scheduled s \<Longrightarrow>
    internal s (s\<lparr>wk_saw := wk_saw s - 1, vq_scheduled := True, wk_won := wk_won s + 1\<rparr>)"
| wk_loses: "0 < wk_saw s \<Longrightarrow> vq_scheduled s \<Longrightarrow> internal s (s\<lparr>wk_saw := wk_saw s - 1\<rparr>)"
| wk_submits: "0 < wk_won s \<Longrightarrow> internal s (s\<lparr>wk_won := wk_won s - 1, vq_tasks := vq_tasks s + 1\<rparr>)"
| wk_defers: "0 < wk_won s \<Longrightarrow> internal s (s\<lparr>wk_won := wk_won s - 1, vq_deferred := vq_deferred s + 1\<rparr>)"

text \<open>Runs from the idle queue; the list is what was pushed, oldest first.\<close>

inductive run :: "nat list \<Rightarrow> Sched \<Rightarrow> bool" where
  start: "run [] idle"
| push: "run ps s \<Longrightarrow> rs \<noteq> [] \<Longrightarrow> run (ps @ rev rs) (push_chain rs s)"
| step: "run ps s \<Longrightarrow> internal s s' \<Longrightarrow> run ps s'"

inductive_cases internal_elim: "internal s s'"

subsection \<open>Invariant\<close>

text \<open>The holders of the scheduling flag: a task queued or deferred, a thread about to submit one, a
  worker that has one.\<close>

definition holders :: "Sched \<Rightarrow> nat" where
  "holders s = vq_tasks s + vq_deferred s + io_won s + wk_took s + wk_writing s + wk_won s"

definition sched_inv :: "nat list \<Rightarrow> Sched \<Rightarrow> bool" where
  "sched_inv ps s \<longleftrightarrow> holders s = (if vq_scheduled s then 1 else 0) \<and>
     (vq_list s \<noteq> [] \<longrightarrow> vq_scheduled s \<or> 0 < io_pushed s + wk_cleared s + wk_saw s) \<and>
     vq_served s @ rev (vq_list s) = ps"

lemma sched_inv_push: "sched_inv ps s \<Longrightarrow> rs \<noteq> [] \<Longrightarrow> sched_inv (ps @ rev rs) (push_chain rs s)"
  by (auto simp: sched_inv_def holders_def push_chain_def)

lemma sched_inv_internal: "internal s s' \<Longrightarrow> sched_inv ps s \<Longrightarrow> sched_inv ps s'"
  by (induction rule: internal.induct) (auto simp: sched_inv_def holders_def split: if_splits)

lemma sched_run_inv: "run ps s \<Longrightarrow> sched_inv ps s"
proof (induction rule: run.induct)
  case start
  show ?case by (simp add: sched_inv_def holders_def idle_def)
qed (auto intro: sched_inv_push sched_inv_internal)

subsection \<open>Termination of the internal steps\<close>

definition pressure :: "Sched \<Rightarrow> nat" where
  "pressure s = (let e = vq_list s = [] in
     (if e then 2 * wk_cleared s + 3 * wk_writing s else 10 * wk_cleared s + 11 * wk_writing s + 1) +
     3 * wk_took s + 4 * vq_tasks s + 5 * vq_deferred s + 6 * wk_won s + 6 * io_won s + 8 * wk_saw s + 8 * io_pushed s)"

lemma internal_pressure: "internal s s' \<Longrightarrow> pressure s' < pressure s"
  by (induction rule: internal.induct) (auto simp: pressure_def Let_def)

definition quiet_now :: "Sched \<Rightarrow> bool" where
  "quiet_now s \<longleftrightarrow> holders s = 0 \<and> io_pushed s = 0 \<and> wk_cleared s = 0 \<and> wk_saw s = 0"

lemma internal_progress: "\<not> quiet_now s \<Longrightarrow> \<exists>s'. internal s s'"
proof -
  assume "\<not> quiet_now s"
  then consider "0 < vq_tasks s" | "0 < vq_deferred s" | "0 < io_won s" | "0 < wk_took s" | "0 < wk_writing s"
    | "0 < wk_won s" | "0 < io_pushed s" | "0 < wk_cleared s" | "0 < wk_saw s"
    by (auto simp: quiet_now_def holders_def)
  then show ?thesis by cases (blast intro: internal.intros)+
qed

inductive settles :: "Sched \<Rightarrow> Sched \<Rightarrow> bool" where
  rest: "settles s s"
| onward: "internal s s' \<Longrightarrow> settles s' t \<Longrightarrow> settles s t"

lemma settles_run: "settles s t \<Longrightarrow> run ps s \<Longrightarrow> run ps t"
  by (induction rule: settles.induct) (auto intro: run.step)

text \<open>C29. A vbucket has one owner: in every reachable interleaving at most one task, deferred task,
  submitting thread or worker holds it, so at most one worker writes a vbucket's batch at a time,
  and the requests are handed to writers in the order they were pushed, none lost or repeated.\<close>

theorem one_owner_in_order:
  assumes "run ps s"
  shows "wk_took s + wk_writing s \<le> 1 \<and> vq_tasks s + vq_deferred s \<le> 1 \<and>
    vq_served s @ rev (vq_list s) = ps"
  using sched_run_inv [OF assms] by (auto simp: sched_inv_def holders_def split: if_splits)


lemma sample_run: "run [1, 2] (push_chain [2, 1] idle)"
  using run.push [OF run.start, of "[2, 1]"] by simp

theorem one_owner_in_order_witness:
  "run [1, 2] (push_chain [2, 1] idle) \<and> wk_took (push_chain [2, 1] idle) + wk_writing (push_chain [2, 1] idle) \<le> 1"
  using sample_run one_owner_in_order [OF sample_run] by simp


end
