(* ===== verification/Worker_Pools.thy ===== *)
theory Worker_Pools
  imports Flux_Prelude
begin

text \<open>
  The writer and reader thread pools of a shard (\<^verbatim>\<open>server/engine.h\<close>, \<^verbatim>\<open>server/engine.cc\<close>: \<open>WriterPool\<close> and
  \<open>ReaderPool\<close>) and the slots of the sharded counters (\<^verbatim>\<open>server/statslot.cc\<close>). A pool holds one flag per
  worker thread, set when the thread has left its loop; a turn of a worker takes one task from the
  FIFO queue. What a task does is a parameter that gives the number of requests handled and the
  tasks it submits in its turn. Clock readings are inputs.
\<close>

subsection \<open>Counter slots\<close>

definition kStatSlots :: nat where "kStatSlots = 128"

definition least_used :: "nat list \<Rightarrow> nat" where
  "least_used users = foldl (\<lambda>slot i. if users ! i < users ! slot then i else slot) 0 [1..<length users]"

definition SlotLease :: "nat list \<Rightarrow> nat \<times> nat list" where
  "SlotLease users = (let slot = least_used users in (slot, users[slot := users ! slot + 1]))"

definition SlotRelease :: "nat list \<Rightarrow> nat \<Rightarrow> nat list" where
  "SlotRelease users slot = users[slot := users ! slot - 1]"

subsection \<open>Tasks and accounts\<close>

record Task =
  tk_shard :: "nat option"
  tk_vbid :: u16
  tk_enqueuedNs :: u64

definition kStopWorker :: u16 where "kStopWorker = 0"
definition kRetireWriter :: u16 where "kRetireWriter = 1"

definition sentinel :: "u16 \<Rightarrow> Task" where
  "sentinel v = \<lparr>tk_shard = None, tk_vbid = v, tk_enqueuedNs = 0\<rparr>"

record Sample =
  sm_busyNs :: u64
  sm_waitNs :: u64
  sm_tasks :: u64
  sm_items :: u64

definition zero_sample :: Sample where
  "zero_sample = \<lparr>sm_busyNs = 0, sm_waitNs = 0, sm_tasks = 0, sm_items = 0\<rparr>"

definition sample_add :: "Sample \<Rightarrow> Sample \<Rightarrow> Sample" where
  "sample_add a b = \<lparr>sm_busyNs = sm_busyNs a + sm_busyNs b, sm_waitNs = sm_waitNs a + sm_waitNs b,
     sm_tasks = sm_tasks a + sm_tasks b, sm_items = sm_items a + sm_items b\<rparr>"

definition sample_sub :: "Sample \<Rightarrow> Sample \<Rightarrow> Sample" where
  "sample_sub a b = \<lparr>sm_busyNs = sm_busyNs a - sm_busyNs b, sm_waitNs = sm_waitNs a - sm_waitNs b,
     sm_tasks = sm_tasks a - sm_tasks b, sm_items = sm_items a - sm_items b\<rparr>"

definition acct_total :: "Sample list \<Rightarrow> Sample" where
  "acct_total as = foldl sample_add zero_sample as"

text \<open>The account of one task: busy and waiting time, one task, its requests.\<close>

definition charge_task :: "Sample list \<Rightarrow> nat \<Rightarrow> u64 \<Rightarrow> u64 \<Rightarrow> Task \<Rightarrow> nat \<Rightarrow> Sample list" where
  "charge_task as slot t0 t1 t n = as[slot := sample_add (as ! slot)
     \<lparr>sm_busyNs = t1 - t0, sm_waitNs = t0 - tk_enqueuedNs t, sm_tasks = 1, sm_items = of_nat n\<rparr>]"

subsection \<open>Writer pool\<close>

record WriterPool =
  wp_workers :: "bool list"   \<comment> \<open>per thread not yet joined: has it left its loop\<close>
  wp_live :: nat
  wp_acct :: "Sample list"
  wp_last :: Sample
  wp_queue :: "Task list"
  wp_defer :: "(u64 \<times> Task) list"
  wp_deferThread :: bool
  wp_shutdown :: bool

definition spawn :: "WriterPool \<Rightarrow> WriterPool" where
  "spawn p = p\<lparr>wp_workers := wp_workers p @ [False], wp_live := wp_live p + 1\<rparr>"

definition Grow :: "nat \<Rightarrow> WriterPool \<Rightarrow> WriterPool" where
  "Grow n p = (spawn ^^ n) p"

definition new_WriterPool :: "u64 \<Rightarrow> nat \<Rightarrow> WriterPool" where
  "new_WriterPool coalesceNs numThreads = (spawn ^^ numThreads)
     \<lparr>wp_workers = [], wp_live = 0, wp_acct = replicate kStatSlots zero_sample, wp_last = zero_sample,
      wp_queue = [], wp_defer = [], wp_deferThread = (coalesceNs \<noteq> 0), wp_shutdown = False\<rparr>"

definition Shrink :: "nat \<Rightarrow> WriterPool \<Rightarrow> WriterPool" where
  "Shrink n0 p = (let live = wp_live p; n = min n0 (if live > 1 then live - 1 else 0) in
     p\<lparr>wp_live := live - n, wp_queue := wp_queue p @ replicate n (sentinel kRetireWriter)\<rparr>)"

definition Reap :: "WriterPool \<Rightarrow> WriterPool" where
  "Reap p = p\<lparr>wp_workers := filter Not (wp_workers p)\<rparr>"

definition TakeSample :: "WriterPool \<Rightarrow> Sample \<times> WriterPool" where
  "TakeSample p = (let total = acct_total (wp_acct p) in (sample_sub total (wp_last p), p\<lparr>wp_last := total\<rparr>))"

definition Submit :: "u64 \<Rightarrow> Task \<Rightarrow> WriterPool \<Rightarrow> WriterPool" where
  "Submit now t p = p\<lparr>wp_queue := wp_queue p @ [t\<lparr>tk_enqueuedNs := now\<rparr>]\<rparr>"

definition shouldDeferWrite :: "u64 \<Rightarrow> u32 \<Rightarrow> u32 \<Rightarrow> u64 \<Rightarrow> u64 \<Rightarrow> bool" where
  "shouldDeferWrite coalesceNs minBatch pending lastWriteNs now =
     (if coalesceNs = 0 \<or> pending \<ge> minBatch then False else now - lastWriteNs < coalesceNs)"

definition SubmitOrDefer :: "u64 \<Rightarrow> u32 \<Rightarrow> u32 \<Rightarrow> u64 \<Rightarrow> u64 \<Rightarrow> Task \<Rightarrow> WriterPool \<Rightarrow> WriterPool" where
  "SubmitOrDefer coalesceNs minBatch pending lastWriteNs now t0 p =
    (let t = t0\<lparr>tk_enqueuedNs := now\<rparr> in
     if shouldDeferWrite coalesceNs minBatch pending lastWriteNs now
     then p\<lparr>wp_defer := wp_defer p @ [(lastWriteNs + coalesceNs, t)]\<rparr>
     else p\<lparr>wp_queue := wp_queue p @ [t]\<rparr>)"

text \<open>The coalescing thread on a given content of its queue: the tasks it hands on, in order, what
  is left, and whether it has ended. Sleeping until a task is due delays the hand-over only.\<close>

fun deferLoop :: "(u64 \<times> Task) list \<Rightarrow> Task list \<Rightarrow> Task list \<times> (u64 \<times> Task) list \<times> bool" where
  "deferLoop [] out = (out, [], False)"
| "deferLoop ((nb, d) # ds) out = (if tk_shard d = None
     then (out @ filter (\<lambda>t. tk_shard t \<noteq> None) (map snd ds), [], True)
     else deferLoop ds (out @ [d]))"

definition defer_turn :: "WriterPool \<Rightarrow> WriterPool" where
  "defer_turn p = (case deferLoop (wp_defer p) [] of (out, rest, ended) \<Rightarrow>
     p\<lparr>wp_queue := wp_queue p @ out, wp_defer := rest, wp_deferThread := (wp_deferThread p \<and> \<not> ended)\<rparr>)"

text \<open>Shutdown up to the joins, and what follows them.\<close>

definition Shutdown_stop :: "WriterPool \<Rightarrow> WriterPool" where
  "Shutdown_stop p = (if wp_shutdown p then p else
     let p1 = p\<lparr>wp_shutdown := True\<rparr>;
         p2 = if wp_deferThread p1 then defer_turn (p1\<lparr>wp_defer := wp_defer p1 @ [(0, sentinel 0)]\<rparr>) else p1
     in p2\<lparr>wp_queue := wp_queue p2 @ replicate (length (wp_workers p2)) (sentinel kStopWorker)\<rparr>)"

definition Shutdown_joined :: "WriterPool \<Rightarrow> WriterPool" where
  "Shutdown_joined p = p\<lparr>wp_workers := [], wp_live := 0\<rparr>"

text \<open>One turn of worker \<open>i\<close>. The result records the task it executed, if any. A worker that has left
  its loop and one that finds the queue empty do nothing.\<close>

definition worker_turn :: "(Task \<Rightarrow> nat \<times> Task list) \<Rightarrow> nat \<Rightarrow> nat \<Rightarrow> u64 \<Rightarrow> u64 \<Rightarrow> WriterPool \<Rightarrow> Task list \<times> WriterPool" where
  "worker_turn exec i slot t0 t1 p =
    (if i < length (wp_workers p) \<and> \<not> wp_workers p ! i then
       case wp_queue p of
         [] \<Rightarrow> ([], p)
       | t # q \<Rightarrow> (if tk_shard t = None then ([], p\<lparr>wp_queue := q, wp_workers := (wp_workers p)[i := True]\<rparr>)
           else case exec t of (written, again) \<Rightarrow>
             ([t], p\<lparr>wp_queue := q @ again, wp_acct := charge_task (wp_acct p) slot t0 t1 t written\<rparr>))
     else ([], p))"

subsection \<open>Reader pool\<close>

record ReaderPool =
  rp_workers :: "bool list"
  rp_live :: nat
  rp_queue :: "Task list"
  rp_shutdown :: bool
  rp_acct :: "Sample list"
  rp_last :: Sample

definition r_spawn :: "ReaderPool \<Rightarrow> ReaderPool" where
  "r_spawn p = p\<lparr>rp_workers := rp_workers p @ [False], rp_live := rp_live p + 1\<rparr>"

definition r_Grow :: "nat \<Rightarrow> ReaderPool \<Rightarrow> ReaderPool" where
  "r_Grow n p = (r_spawn ^^ n) p"

definition new_ReaderPool :: "nat \<Rightarrow> ReaderPool" where
  "new_ReaderPool numThreads = (r_spawn ^^ numThreads) \<lparr>rp_workers = [], rp_live = 0, rp_queue = [],
     rp_shutdown = False, rp_acct = replicate kStatSlots zero_sample, rp_last = zero_sample\<rparr>"

definition r_Submit :: "u64 \<Rightarrow> Task \<Rightarrow> ReaderPool \<Rightarrow> ReaderPool" where
  "r_Submit now t p = p\<lparr>rp_queue := rp_queue p @ [t\<lparr>tk_enqueuedNs := now\<rparr>]\<rparr>"

definition kRetireSentinel :: u16 where "kRetireSentinel = 1"
definition kStopSentinel :: u16 where "kStopSentinel = 0"

definition r_Shrink :: "nat \<Rightarrow> ReaderPool \<Rightarrow> ReaderPool" where
  "r_Shrink n0 p = (let n = min n0 (rp_live p) in
     p\<lparr>rp_live := rp_live p - n, rp_queue := rp_queue p @ replicate n (sentinel kRetireSentinel)\<rparr>)"

definition r_Reap :: "ReaderPool \<Rightarrow> ReaderPool" where
  "r_Reap p = p\<lparr>rp_workers := filter Not (rp_workers p)\<rparr>"

definition r_TakeSample :: "ReaderPool \<Rightarrow> Sample \<times> ReaderPool" where
  "r_TakeSample p = (let total = acct_total (rp_acct p) in (sample_sub total (rp_last p), p\<lparr>rp_last := total\<rparr>))"

definition r_Shutdown_stop :: "ReaderPool \<Rightarrow> ReaderPool" where
  "r_Shutdown_stop p = (if rp_shutdown p then p else
     p\<lparr>rp_shutdown := True, rp_queue := rp_queue p @ replicate (length (rp_workers p)) (sentinel kStopSentinel)\<rparr>)"

definition r_Shutdown_joined :: "ReaderPool \<Rightarrow> ReaderPool" where
  "r_Shutdown_joined p = p\<lparr>rp_workers := [], rp_live := 0\<rparr>"

text \<open>The extra tasks a reader takes when it serves several at once: up to \<open>room\<close> more, stopping at a
  sentinel, which is consumed and ends the worker after this turn.\<close>

fun take_extra :: "nat \<Rightarrow> Task list \<Rightarrow> Task list \<times> bool \<times> Task list" where
  "take_extra 0 q = ([], False, q)"
| "take_extra (Suc r) [] = ([], False, [])"
| "take_extra (Suc r) (t # q) = (if tk_shard t = None then ([], True, q)
     else case take_extra r q of (ts, stop, q') \<Rightarrow> (t # ts, stop, q'))"

definition reader_turn :: "(Task list \<Rightarrow> nat \<times> Task list) \<Rightarrow> nat \<Rightarrow> nat \<Rightarrow> nat \<Rightarrow> u64 \<Rightarrow> u64 \<Rightarrow> ReaderPool \<Rightarrow>
    Task list \<times> ReaderPool" where
  "reader_turn exec kMulti i slot t0 t1 p =
    (if i < length (rp_workers p) \<and> \<not> rp_workers p ! i then
       if rp_shutdown p then ([], p\<lparr>rp_workers := (rp_workers p)[i := True]\<rparr>) else
       case rp_queue p of
         [] \<Rightarrow> ([], p)
       | t # q \<Rightarrow> (if tk_shard t = None then ([], p\<lparr>rp_queue := q, rp_workers := (rp_workers p)[i := True]\<rparr>)
           else case take_extra (if kMulti > 1 then kMulti - 1 else 0) q of (extra, stopAfter, q') \<Rightarrow>
             case exec (t # extra) of (served, again) \<Rightarrow>
             (t # extra, p\<lparr>rp_queue := q' @ again, rp_acct := charge_task (rp_acct p) slot t0 t1 t served,
                rp_workers := (if stopAfter then (rp_workers p)[i := True] else rp_workers p)\<rparr>))
     else ([], p))"

subsection \<open>Counter slots: the least occupied is leased\<close>

lemma least_used_fold:
  fixes u :: "nat list"
  assumes "s < length u" "\<forall>j<i. u ! s \<le> u ! j" "0 < i" "i \<le> n" "n \<le> length u"
  shows "foldl (\<lambda>slot i. if u ! i < u ! slot then i else slot) s [i..<n] < length u \<and>
    (\<forall>j<n. u ! foldl (\<lambda>slot i. if u ! i < u ! slot then i else slot) s [i..<n] \<le> u ! j)"
  using assms
proof (induction "n - i" arbitrary: s i)
  case 0
  then show ?case by auto
next
  case (Suc k)
  then have "[i..<n] = i # [Suc i..<n]" by (simp add: upt_conv_Cons)
  moreover have "\<forall>j<Suc i. u ! (if u ! i < u ! s then i else s) \<le> u ! j"
    using Suc.prems(2) by (force simp: less_Suc_eq)
  ultimately show ?case using Suc.hyps(1) [of "Suc i" "if u ! i < u ! s then i else s"] Suc.hyps(2) Suc.prems by auto
qed

lemma least_used_least:
  "u \<noteq> [] \<Longrightarrow> least_used u < length u \<and> (\<forall>j<length u. u ! least_used u \<le> u ! j)"
  unfolding least_used_def by (rule least_used_fold) (auto simp: Suc_le_eq)

subsection \<open>Turns of any of the running workers\<close>

definition running :: "bool list \<Rightarrow> nat list" where
  "running ws = filter (\<lambda>i. \<not> ws ! i) [0..<length ws]"

abbreviation nrun :: "WriterPool \<Rightarrow> nat" where "nrun p \<equiv> length (running (wp_workers p))"

abbreviation is_work :: "Task \<Rightarrow> bool" where "is_work t \<equiv> tk_shard t \<noteq> None"

definition nsent :: "Task list \<Rightarrow> nat" where "nsent q = length (filter (\<lambda>t. \<not> is_work t) q)"

text \<open>Each entry of a schedule gives a turn to one of the workers still running.\<close>

fun run_turns :: "(Task \<Rightarrow> nat \<times> Task list) \<Rightarrow> (nat \<times> nat \<times> u64 \<times> u64) list \<Rightarrow> WriterPool \<Rightarrow> Task list \<times> WriterPool" where
  "run_turns exec [] p = ([], p)"
| "run_turns exec ((k, slot, t0, t1) # sc) p = (if nrun p = 0 then ([], p) else
     case worker_turn exec (running (wp_workers p) ! (k mod nrun p)) slot t0 t1 p of (l, p1) \<Rightarrow>
     case run_turns exec sc p1 of (l', p2) \<Rightarrow> (l @ l', p2))"

lemma nrun_card: "length (running ws) = card {i. i < length ws \<and> \<not> ws ! i}"
proof -
  have "length (running ws) = card (set (running ws))"
    by (rule distinct_card [symmetric]) (simp add: running_def)
  then show ?thesis by (simp add: running_def conj_commute)
qed

lemma running_alt: "length (running ws) = length (filter Not ws)"
  by (simp only: nrun_card length_filter_conv_card)

lemma running_nth: "k < length (running ws) \<Longrightarrow> running ws ! k < length ws \<and> \<not> ws ! (running ws ! k)"
  using nth_mem [of k "running ws"] by (auto simp: running_def)

lemma running_stop:
  assumes "i < length ws" "\<not> ws ! i"
  shows "length (running ws) = Suc (length (running (ws[i := True])))"
proof -
  have "{j. j < length ws \<and> \<not> ws ! j} = insert i {j. j < length (ws[i := True]) \<and> \<not> ws[i := True] ! j}"
    using assms by (auto simp: nth_list_update)
  then show ?thesis using assms by (simp add: nrun_card)
qed

text \<open>What \<open>r\<close> workers execute of a queue: the tasks before its \<open>r\<close>-th sentinel.\<close>

fun served :: "nat \<Rightarrow> Task list \<Rightarrow> Task list" where
  "served 0 q = []"
| "served (Suc r) [] = []"
| "served (Suc r) (t # q) = (if is_work t then t # served (Suc r) q else served r q)"

lemma nsent_simps [simp]:
  "nsent [] = 0" "nsent (t # q) = (if is_work t then nsent q else Suc (nsent q))"
  "nsent (q @ q') = nsent q + nsent q'" "nsent (replicate n (sentinel v)) = n"
  by (auto simp: nsent_def sentinel_def)

lemma served_sentinels: "served r (replicate m (sentinel v)) = []"
proof (induction m arbitrary: r)
  case 0
  show ?case by (cases r) auto
next
  case (Suc m)
  then show ?case by (cases r) (auto simp: sentinel_def)
qed

lemma served_all: "nsent q < r \<Longrightarrow> served r (q @ replicate m (sentinel v)) = filter is_work q"
  by (induction r q rule: served.induct) (auto simp: served_sentinels)

lemma run_turns_served:
  assumes "wp_queue p = q @ rest" "nrun p \<le> nsent q" "length q \<le> length sc"
  shows "fst (run_turns exec sc p) = served (nrun p) q \<and> nrun (snd (run_turns exec sc p)) = 0"
  using assms
proof (induction sc arbitrary: p q rest)
  case Nil
  then show ?case by simp
next
  case (Cons x sc)
  obtain k slot t0 t1 where x: "x = (k, slot, t0, t1)" by (metis prod_cases4)
  show ?case
  proof (cases "nrun p")
    case 0
    then show ?thesis by (simp add: x)
  next
    case (Suc r)
    define i where "i = running (wp_workers p) ! (k mod nrun p)"
    have i: "i < length (wp_workers p)" "\<not> wp_workers p ! i"
      using running_nth [of "k mod nrun p" "wp_workers p"] Suc by (auto simp: i_def)
    from Cons.prems Suc obtain t q' where q: "q = t # q'" by (cases q) auto
    obtain l p1 where t: "worker_turn exec i slot t0 t1 p = (l, p1)" by fastforce
    obtain l' p2 where r: "run_turns exec sc p1 = (l', p2)" by fastforce
    have R: "run_turns exec (x # sc) p = (l @ l', p2)"
      using Suc t r by (simp add: x i_def)
    show ?thesis
    proof (cases "is_work t")
      case True
      obtain n again where e: "exec t = (n, again)" by fastforce
      have p1: "wp_queue p1 = q' @ (rest @ again)" "wp_workers p1 = wp_workers p" "l = [t]"
        using t i Cons.prems(1) True e by (auto simp: worker_turn_def q)
      show ?thesis using Cons.IH [OF p1(1)] Cons.prems(2,3) True R r p1(2,3) Suc by (simp add: q)
    next
      case False
      have p1: "wp_queue p1 = q' @ rest" "wp_workers p1 = (wp_workers p)[i := True]" "l = []"
        using t i Cons.prems(1) False by (auto simp: worker_turn_def q)
      then have "nrun p1 = r" using running_stop [OF i] Suc by simp
      then show ?thesis using Cons.IH [OF p1(1)] Cons.prems(2,3) False R r p1(3) Suc by (simp add: q)
    qed
  qed
qed

subsection \<open>Any sequence of operations\<close>

datatype pool_op = OGrow nat | OShrink nat | OReap | OSample | OSubmit u64 Task
  | OSubmitOrDefer u32 u64 u64 Task | ODeferTurn | OTurn nat nat u64 u64

fun pool_step :: "(Task \<Rightarrow> nat \<times> Task list) \<Rightarrow> u64 \<Rightarrow> u32 \<Rightarrow> WriterPool \<Rightarrow> pool_op \<Rightarrow> WriterPool" where
  "pool_step exec c mb p (OGrow n) = Grow n p"
| "pool_step exec c mb p (OShrink n) = Shrink n p"
| "pool_step exec c mb p OReap = Reap p"
| "pool_step exec c mb p OSample = snd (TakeSample p)"
| "pool_step exec c mb p (OSubmit now t) = Submit now t p"
| "pool_step exec c mb p (OSubmitOrDefer pending lastWrite now t) = SubmitOrDefer c mb pending lastWrite now t p"
| "pool_step exec c mb p ODeferTurn = (if wp_deferThread p then defer_turn p else p)"
| "pool_step exec c mb p (OTurn k slot t0 t1) = snd (run_turns exec [(k, slot, t0, t1)] p)"

fun op_ok :: "pool_op \<Rightarrow> bool" where
  "op_ok (OSubmit now t) = is_work t"
| "op_ok (OSubmitOrDefer pending lastWrite now t) = is_work t"
| "op_ok op = True"

definition exec_ok :: "(Task \<Rightarrow> nat \<times> Task list) \<Rightarrow> bool" where
  "exec_ok exec \<longleftrightarrow> (\<forall>t. nsent (snd (exec t)) = 0)"

definition pool_inv :: "u64 \<Rightarrow> WriterPool \<Rightarrow> bool" where
  "pool_inv c p \<longleftrightarrow> \<not> wp_shutdown p \<and> nrun p = wp_live p + nsent (wp_queue p) \<and> 1 \<le> wp_live p \<and>
     nsent (map snd (wp_defer p)) = 0 \<and> wp_deferThread p = (c \<noteq> 0) \<and> (c = 0 \<longrightarrow> wp_defer p = [])"

lemma running_Nil [simp]: "running [] = []"
  by (simp add: running_def)

lemma running_reaped: "length (running (filter Not ws)) = length (running ws)"
  by (simp add: running_alt)

lemma running_snoc: "length (running (ws @ [False])) = Suc (length (running ws))"
  by (simp add: running_alt)

lemma spawn_n:
  "nrun ((spawn ^^ n) p) = nrun p + n \<and> wp_live ((spawn ^^ n) p) = wp_live p + n \<and>
   wp_queue ((spawn ^^ n) p) = wp_queue p \<and> wp_defer ((spawn ^^ n) p) = wp_defer p \<and>
   wp_deferThread ((spawn ^^ n) p) = wp_deferThread p \<and> wp_shutdown ((spawn ^^ n) p) = wp_shutdown p"
  by (induction n) (auto simp: spawn_def running_snoc)

lemma deferLoop_work: "nsent (map snd ds) = 0 \<Longrightarrow> deferLoop ds out = (out @ map snd ds, [], False)"
  by (induction ds out rule: deferLoop.induct) (auto split: if_splits)

lemma deferLoop_stop:
  "nsent (map snd ds) = 0 \<Longrightarrow> deferLoop (ds @ [(0, sentinel 0)]) out = (out @ map snd ds, [], True)"
  by (induction ds out rule: deferLoop.induct) (auto simp: sentinel_def split: if_splits)

lemma turn_inv:
  assumes "pool_inv c p" "exec_ok exec"
  shows "pool_inv c (snd (run_turns exec [(k, slot, t0, t1)] p))"
proof (cases "wp_queue p")
  case Nil
  then show ?thesis using assms by (simp add: worker_turn_def split: prod.splits)
next
  case (Cons t q)
  define i where "i = running (wp_workers p) ! (k mod nrun p)"
  have "0 < nrun p" using assms by (simp add: pool_inv_def)
  then have i: "i < length (wp_workers p)" "\<not> wp_workers p ! i"
    using running_nth [of "k mod nrun p" "wp_workers p"] by (auto simp: i_def)
  have "snd (run_turns exec [(k, slot, t0, t1)] p) = snd (worker_turn exec i slot t0 t1 p)"
    using \<open>0 < nrun p\<close> by (simp add: i_def split: prod.splits)
  moreover have "pool_inv c (snd (worker_turn exec i slot t0 t1 p))"
  proof (cases "is_work t")
    case True
    have "nsent (snd (exec t)) = 0" using assms(2) by (simp add: exec_ok_def)
    then show ?thesis using assms(1) i Cons True
      by (auto simp: worker_turn_def pool_inv_def split: prod.splits)
  next
    case False
    then show ?thesis using assms(1) i Cons running_stop [OF i]
      by (auto simp: worker_turn_def pool_inv_def)
  qed
  ultimately show ?thesis by simp
qed

lemma pool_step_inv: "pool_inv c p \<Longrightarrow> exec_ok exec \<Longrightarrow> op_ok op \<Longrightarrow> pool_inv c (pool_step exec c mb p op)"
proof (cases op)
  case (OTurn k slot t0 t1)
  then show "pool_inv c p \<Longrightarrow> exec_ok exec \<Longrightarrow> op_ok op \<Longrightarrow> ?thesis" using turn_inv by simp
qed (auto simp: pool_inv_def Grow_def spawn_n Shrink_def Let_def Reap_def running_reaped TakeSample_def Submit_def
    SubmitOrDefer_def shouldDeferWrite_def defer_turn_def deferLoop_work split: if_splits)

lemma new_pool_inv: "0 < n \<Longrightarrow> pool_inv c (new_WriterPool c n)"
  by (simp add: pool_inv_def new_WriterPool_def spawn_n)

lemma pool_ops_inv:
  "pool_inv c p \<Longrightarrow> exec_ok exec \<Longrightarrow> list_all op_ok ops \<Longrightarrow> pool_inv c (foldl (pool_step exec c mb) p ops)"
  by (induction ops arbitrary: p) (auto intro: pool_step_inv)

text \<open>C35. A writer pool never runs out of writers: after any sequence of growing, shrinking by any
  amount, reaping, sampling, submitting, deferring and workers' turns, the threads still in their loop
  are the counted ones and one per retire sentinel still queued, and at least one is counted.\<close>

theorem writers_never_run_out:
  assumes "0 < n" "exec_ok exec" "list_all op_ok ops"
  shows "let p = foldl (pool_step exec c mb) (new_WriterPool c n) ops in
    nrun p = wp_live p + nsent (wp_queue p) \<and> 1 \<le> wp_live p"
  using pool_ops_inv [OF new_pool_inv [OF assms(1)] assms(2,3)] by (simp add: pool_inv_def Let_def)

theorem writers_never_run_out_witness:
  "1 \<le> wp_live (foldl (pool_step (\<lambda>t. (0, [])) 0 0) (new_WriterPool 0 3) [OShrink 5, OReap])"
  using writers_never_run_out [of 3 "\<lambda>t. (0, [])" "[OShrink 5, OReap]" 0 0] by (simp add: exec_ok_def Let_def)

text \<open>C34. Shutdown executes what was queued: whatever happened to the pool before, once the stop
  sentinels are queued, any schedule of turns as long as the queue ends with every worker out of
  its loop, and the tasks executed by then are exactly those that were queued, in order, followed
  by those that were waiting out the coalescing interval.\<close>

theorem shutdown_executes_queue:
  assumes "0 < n" "exec_ok exec" "list_all op_ok ops"
    and "p = foldl (pool_step exec c mb) (new_WriterPool c n) ops"
    and "length (wp_queue (Shutdown_stop p)) \<le> length sc"
    and "run_turns exec sc (Shutdown_stop p) = (executed, p')"
  shows "executed = filter is_work (wp_queue p) @ map snd (wp_defer p) \<and> nrun p' = 0"
proof -
  have I: "pool_inv c p" unfolding assms(4) using pool_ops_inv [OF new_pool_inv [OF assms(1)] assms(2,3)] .
  let ?q = "wp_queue p @ map snd (wp_defer p)"
  have S: "wp_queue (Shutdown_stop p) = ?q @ replicate (length (wp_workers p)) (sentinel kStopWorker)"
    "wp_workers (Shutdown_stop p) = wp_workers p"
    using I by (auto simp: Shutdown_stop_def pool_inv_def Let_def defer_turn_def deferLoop_stop)
  have r: "nrun p \<le> length (wp_workers p)" by (simp add: running_alt)
  have "nsent ?q < nrun p" using I by (simp add: pool_inv_def)
  moreover have "filter is_work (map snd (wp_defer p)) = map snd (wp_defer p)"
    using I by (auto simp: pool_inv_def nsent_def filter_empty_conv filter_id_conv)
  ultimately have "served (nrun p) (wp_queue (Shutdown_stop p)) = filter is_work (wp_queue p) @ map snd (wp_defer p)"
    unfolding S(1) using served_all [of ?q "nrun p"] by simp
  then show ?thesis
    using run_turns_served [of "Shutdown_stop p" "wp_queue (Shutdown_stop p)" "[]" sc exec] assms(5,6) S r by simp
qed

definition one_task :: Task where "one_task = \<lparr>tk_shard = Some 0, tk_vbid = 7, tk_enqueuedNs = 0\<rparr>"

theorem shutdown_executes_queue_witness:
  "fst (run_turns (\<lambda>t. (1, [])) (replicate 9 (0, 0, 0, 0))
    (Shutdown_stop (foldl (pool_step (\<lambda>t. (1, [])) 0 0) (new_WriterPool 0 2) [OShrink 1, OSubmit 0 one_task]))) = [one_task]"
proof -
  let ?p = "foldl (pool_step (\<lambda>t. (1, [])) 0 0) (new_WriterPool 0 2) [OShrink 1, OSubmit 0 one_task]"
  let ?r = "run_turns (\<lambda>t. (1, [])) (replicate 9 (0, 0, 0, 0)) (Shutdown_stop ?p)"
  have q: "wp_queue ?p = [sentinel kRetireWriter, one_task]" "wp_defer ?p = []"
    "length (wp_queue (Shutdown_stop ?p)) \<le> 9"
    by (simp_all add: Shrink_def Submit_def new_WriterPool_def spawn_def numeral_2_eq_2 one_task_def Shutdown_stop_def Let_def)
  then show ?thesis
    using shutdown_executes_queue [of 2 "\<lambda>t. (1, [])" "[OShrink 1, OSubmit 0 one_task]" ?p 0 0 "replicate 9 (0, 0, 0, 0)" "fst ?r" "snd ?r"]
    by (simp add: exec_ok_def one_task_def sentinel_def del: foldl_Cons)
qed

end
