(* ===== verification/Thread_Tuner.thy ===== *)
theory Thread_Tuner
  imports Flux_Prelude Complex_Main
begin

text \<open>
  The thread tuner (\<^verbatim>\<open>server/tuner.h\<close>, \<^verbatim>\<open>server/tuner.cc\<close>): sizing pools by trial. The pools are used
  through a table of their operations, as the sources use the virtual class \<open>ElasticPool\<close>; the
  contract the tuner relies on is the locale \<open>elastic_pool\<close>. Fractions and rates are reals, sizes and
  window counts naturals; the texts kept for the statistics endpoint and the log are left out.
\<close>

subsection \<open>Pools\<close>

record PoolSample =
  sp_size :: nat
  sp_busyMean :: real
  sp_busyMax :: real
  sp_avgBatch :: real
  sp_waitUs :: real
  sp_threadBusy :: "real list"
  sp_threadLoad :: "int list"

definition no_sample :: PoolSample where
  "no_sample = \<lparr>sp_size = 0, sp_busyMean = 0, sp_busyMax = 0, sp_avgBatch = 0, sp_waitUs = 0,
     sp_threadBusy = [], sp_threadLoad = []\<rparr>"

record 'p ElasticPool =
  ep_Size :: "'p \<Rightarrow> nat"
  ep_Step :: "'p \<Rightarrow> nat"
  ep_Grow :: "nat \<Rightarrow> 'p \<Rightarrow> 'p"
  ep_Shrink :: "nat \<Rightarrow> 'p \<Rightarrow> 'p"
  ep_Sample :: "real \<Rightarrow> 'p \<Rightarrow> PoolSample \<times> 'p"
  ep_Reap :: "'p \<Rightarrow> 'p"
  ep_Settled :: "'p \<Rightarrow> bool"

record TunerConfig =
  tc_samplesPerDecision :: nat
  tc_highBusy :: real
  tc_minGain :: real
  tc_maxLoss :: real
  tc_growFloor :: real
  tc_shrinkFloor :: real
  tc_peggedBusy :: real
  tc_idleBusy :: real
  tc_rampBusy :: real
  tc_rampAfterKept :: nat
  tc_settleWindows :: nat
  tc_measureWindows :: nat
  tc_smallStepMeasureWindows :: nat
  tc_maxSettleWindows :: nat
  tc_firstBackoffWindows :: nat
  tc_maxBackoffWindows :: nat
  tc_loadChangeTput :: real
  tc_loadChangeBusy :: real

definition default_tuner :: TunerConfig where
  "default_tuner = \<lparr>tc_samplesPerDecision = 8, tc_highBusy = 0.80, tc_minGain = 0.01, tc_maxLoss = 0.005,
     tc_growFloor = 0.006, tc_shrinkFloor = 0.003, tc_peggedBusy = 0.95, tc_idleBusy = 0.02,
     tc_rampBusy = 0.90, tc_rampAfterKept = 2, tc_settleWindows = 1, tc_measureWindows = 2,
     tc_smallStepMeasureWindows = 4, tc_maxSettleWindows = 15, tc_firstBackoffWindows = 8,
     tc_maxBackoffWindows = 256, tc_loadChangeTput = 0.10, tc_loadChangeBusy = 0.15\<rparr>"

datatype Trial = NoTrial | GrowTrial | ShrinkTrial

record Direction =
  dr_cap :: nat
  dr_backoff :: nat
  dr_nextBackoff :: nat
  dr_tputAtFail :: real
  dr_busyAtFail :: real
  dr_keptStreak :: nat
  dr_lastGained :: bool
  dr_streakRef :: real

definition no_direction :: Direction where
  "no_direction = \<lparr>dr_cap = 0, dr_backoff = 0, dr_nextBackoff = 0, dr_tputAtFail = 0, dr_busyAtFail = 0,
     dr_keptStreak = 0, dr_lastGained = False, dr_streakRef = 0\<rparr>"

record 'p PoolState =
  pl_pool :: 'p
  pl_min :: nat
  pl_max :: nat
  pl_busySum :: real
  pl_busyMaxSeen :: real
  pl_batchSum :: real
  pl_waitSum :: real
  pl_samples :: nat
  pl_last :: PoolSample
  pl_trial :: Trial
  pl_sizeBefore :: nat
  pl_refTput :: real
  pl_refSlope :: real
  pl_refSpan :: nat
  pl_busyBefore :: real
  pl_shrinkScale :: real
  pl_lastTrialGrew :: bool
  pl_measure :: nat
  pl_noise :: real
  pl_tputWindows :: "real list"
  pl_windowsSinceChange :: nat
  pl_settledWindows :: nat
  pl_grow :: Direction
  pl_shrink :: Direction
  pl_changes :: nat
  pl_reverts :: nat

record 'p Tuner =
  tn_pools :: "'p PoolState list"
  tn_nextPool :: nat
  tn_lastTput :: real
  tn_steadyRecent :: "real list"
  tn_steadyBest :: real
  tn_steadyLowDecisions :: nat
  tn_stepLow :: nat
  tn_measuredNoise :: real
  tn_steadySinceChange :: nat

definition new_tuner :: "'p Tuner" where
  "new_tuner = \<lparr>tn_pools = [], tn_nextPool = 0, tn_lastTput = 0, tn_steadyRecent = [], tn_steadyBest = 0,
     tn_steadyLowDecisions = 0, tn_stepLow = 0, tn_measuredNoise = -1, tn_steadySinceChange = 0\<rparr>"

definition new_pool_state :: "'p \<Rightarrow> nat \<Rightarrow> nat \<Rightarrow> 'p PoolState" where
  "new_pool_state p lo hi = \<lparr>pl_pool = p, pl_min = lo, pl_max = hi, pl_busySum = 0, pl_busyMaxSeen = 0,
     pl_batchSum = 0, pl_waitSum = 0, pl_samples = 0, pl_last = no_sample, pl_trial = NoTrial,
     pl_sizeBefore = 0, pl_refTput = 0, pl_refSlope = 0, pl_refSpan = 0, pl_busyBefore = 0,
     pl_shrinkScale = 1, pl_lastTrialGrew = False, pl_measure = 0, pl_noise = 0, pl_tputWindows = [],
     pl_windowsSinceChange = 0, pl_settledWindows = 0, pl_grow = no_direction, pl_shrink = no_direction,
     pl_changes = 0, pl_reverts = 0\<rparr>"

definition AddPool :: "'p \<Rightarrow> nat \<Rightarrow> nat \<Rightarrow> 'p Tuner \<Rightarrow> 'p Tuner" where
  "AddPool p lo hi t = t\<lparr>tn_pools := tn_pools t @ [new_pool_state p lo hi]\<rparr>"

definition kSteadyHistory :: nat where "kSteadyHistory = 16"
definition kLevelWindows :: nat where "kLevelWindows = 4"

subsection \<open>Estimators\<close>

definition roundToStep :: "nat \<Rightarrow> nat \<Rightarrow> nat" where
  "roundToStep n step = (if step > 0 then n div step * step else n)"

definition median :: "real list \<Rightarrow> real" where
  "median w = sort w ! (length w div 2)"

definition steadyLevel :: "'p Tuner \<Rightarrow> nat \<Rightarrow> real" where
  "steadyLevel t n0 = (let r = tn_steadyRecent t in
     if r = [] then tn_lastTput t
     else let n = min (max n0 1) (length r) in median (drop (length r - n) r))"

definition steadySlope :: "'p Tuner \<Rightarrow> nat \<Rightarrow> real" where
  "steadySlope t n0 = (let r = tn_steadyRecent t; n = min n0 (min (length r) (tn_steadySinceChange t)) in
     if n < 4 then 0
     else let off = length r - n; is = [0..<n];
              sx = (\<Sum>i\<leftarrow>is. real i); sy = (\<Sum>i\<leftarrow>is. r ! (off + i));
              sxx = (\<Sum>i\<leftarrow>is. real i * real i); sxy = (\<Sum>i\<leftarrow>is. real i * r ! (off + i));
              den = real n * sxx - sx * sx; mean = sy / real n
          in if den \<le> 0 \<or> mean \<le> 0 then 0 else (real n * sxy - sx * sy) / den / mean)"

definition cv :: "real list \<Rightarrow> real" where
  "cv w = (if length w < 3 then 0 else let mean = sum_list w / real (length w) in
     if mean \<le> 0 then 0
     else sqrt ((\<Sum>t\<leftarrow>w. (t - mean) * (t - mean)) / real (length w)) / mean)"

definition steadyNoise :: "'p Tuner \<Rightarrow> real" where
  "steadyNoise t = (if tn_measuredNoise t \<ge> 0 then tn_measuredNoise t else cv (tn_steadyRecent t))"

definition tolerance :: "'p PoolState \<Rightarrow> real" where
  "tolerance ps = pl_noise ps / sqrt (if pl_measure ps > 0 then real (pl_measure ps) else 1)"

definition hasMomentum :: "'p ElasticPool \<Rightarrow> 'p PoolState \<Rightarrow> bool" where
  "hasMomentum P ps \<longleftrightarrow> (if pl_trial ps \<noteq> NoTrial then False
     else let sz = ep_Size P (pl_pool ps) in
       if pl_lastTrialGrew ps
       then dr_lastGained (pl_grow ps) \<and> dr_backoff (pl_grow ps) = 0 \<and> sz < pl_max ps
       else dr_lastGained (pl_shrink ps) \<and> dr_backoff (pl_shrink ps) = 0 \<and> sz > pl_min ps)"

definition rampingUp :: "TunerConfig \<Rightarrow> 'p ElasticPool \<Rightarrow> 'p Tuner \<Rightarrow> bool" where
  "rampingUp cfg P t \<longleftrightarrow> list_ex (\<lambda>ps.
     (pl_trial ps = NoTrial \<and> dr_backoff (pl_grow ps) = 0 \<and> dr_keptStreak (pl_grow ps) \<ge> tc_rampAfterKept cfg \<and>
      sp_busyMean (pl_last ps) \<ge> tc_rampBusy cfg \<and> ep_Size P (pl_pool ps) < pl_max ps) \<or>
     hasMomentum P ps) (tn_pools t)"

subsection \<open>Starting a trial\<close>

function guard_steps :: "real \<Rightarrow> nat \<Rightarrow> nat \<Rightarrow> real \<Rightarrow> nat \<Rightarrow> nat" where
  "guard_steps b sz step hb n = (if 0 < step \<and> n > step \<and> b * real sz / real (sz - n) \<ge> hb
     then guard_steps b sz step hb (n - step) else n)"
  by pat_completeness auto
termination by (relation "measure (\<lambda>(b, sz, step, hb, n). n)") auto

declare guard_steps.simps [simp del]

text \<open>The direction to try: grow, shrink, or neither, and whether the shrink probes a pegged pool.\<close>

definition want :: "TunerConfig \<Rightarrow> nat \<Rightarrow> 'p PoolState \<Rightarrow> bool \<times> bool \<times> bool" where
  "want cfg sz ps = (let busy = sp_busyMean (pl_last ps);
     probeShrink = busy > tc_highBusy cfg \<and> pl_lastTrialGrew ps \<and> \<not> dr_lastGained (pl_grow ps) \<and>
        dr_backoff (pl_shrink ps) = 0 \<and> sz > pl_min ps;
     wantGrow = \<not> probeShrink \<and> busy > tc_highBusy cfg \<and> dr_backoff (pl_grow ps) = 0 \<and> sz < pl_max ps;
     wantShrink = \<not> wantGrow \<and> dr_backoff (pl_shrink ps) = 0 \<and> sz > pl_min ps \<and>
        (busy \<le> tc_highBusy cfg \<or> dr_backoff (pl_grow ps) > 0 \<or> probeShrink)
     in (probeShrink, wantGrow, wantShrink))"

text \<open>A quarter of the pool, more while it keeps every step it is given, at most the cap a failure left.\<close>

definition base_step :: "TunerConfig \<Rightarrow> nat \<Rightarrow> nat \<Rightarrow> bool \<Rightarrow> 'p PoolState \<Rightarrow> nat" where
  "base_step cfg sz step wantGrow ps =
    (let dir = (if wantGrow then pl_grow ps else pl_shrink ps);
         n = max step (roundToStep (sz div 4) step);
         mult = (if wantGrow \<and> dr_keptStreak dir \<ge> tc_rampAfterKept cfg + 1 then 4 else 2);
         m = (if dr_keptStreak dir \<ge> tc_rampAfterKept cfg \<and>
                 (if wantGrow then sp_busyMean (pl_last ps) \<ge> tc_rampBusy cfg else dr_lastGained dir)
              then max n (roundToStep (sz div 4 * mult) step) else n)
     in if dr_cap dir > 0 then min m (dr_cap dir) else m)"

text \<open>A shrink is bounded further; None when even the smallest step would only ask to grow again.\<close>

definition shrink_step :: "TunerConfig \<Rightarrow> nat \<Rightarrow> nat \<Rightarrow> bool \<Rightarrow> 'p PoolState \<Rightarrow> nat \<Rightarrow> nat option" where
  "shrink_step cfg sz step probeShrink ps n0 =
    (let busy = sp_busyMean (pl_last ps); dir = pl_shrink ps;
         n1 = min n0 (sz - pl_min ps);
         n2 = (if busy \<ge> tc_peggedBusy cfg \<and> \<not> dr_lastGained dir
               then min n1 (roundToStep (sz div 4) step) else n1)
     in if dr_backoff (pl_grow ps) = 0 \<and> \<not> dr_lastGained dir \<and> \<not> probeShrink
        then let b = busy * pl_shrinkScale ps; n3 = guard_steps b sz step (tc_highBusy cfg) n2
             in if b * real sz / real (sz - n3) \<ge> tc_highBusy cfg then None else Some n3
        else Some n2)"

definition step_size :: "TunerConfig \<Rightarrow> nat \<Rightarrow> nat \<Rightarrow> bool \<Rightarrow> bool \<Rightarrow> 'p PoolState \<Rightarrow> nat option" where
  "step_size cfg sz step probeShrink wantGrow ps = (let n = base_step cfg sz step wantGrow ps in
     if wantGrow then Some (min n (pl_max ps - sz)) else shrink_step cfg sz step probeShrink ps n)"

definition measure_windows :: "TunerConfig \<Rightarrow> nat \<Rightarrow> nat \<Rightarrow> real \<Rightarrow> nat" where
  "measure_windows cfg n sz noise =
    (let m = (if real n / real sz < 2 * tc_minGain cfg then tc_smallStepMeasureWindows cfg else tc_measureWindows cfg)
     in if noise > tc_minGain cfg then min 8 (max m (nat \<lceil>noise / tc_minGain cfg\<rceil>)) else m)"

definition startTrial :: "TunerConfig \<Rightarrow> 'p ElasticPool \<Rightarrow> 'p Tuner \<Rightarrow> 'p PoolState \<Rightarrow> 'p PoolState option" where
  "startTrial cfg P t ps =
    (let pool = pl_pool ps; sz = ep_Size P pool; step = max 1 (ep_Step P pool)
     in case want cfg sz ps of (probeShrink, wantGrow, wantShrink) \<Rightarrow>
       if \<not> wantGrow \<and> \<not> wantShrink then None
       else case step_size cfg sz step probeShrink wantGrow ps of
         None \<Rightarrow> None
       | Some n \<Rightarrow> if n = 0 then None else
           let noise = steadyNoise t; m = measure_windows cfg n sz noise; span = max m kLevelWindows
           in Some (ps\<lparr>pl_trial := (if wantGrow then GrowTrial else ShrinkTrial), pl_sizeBefore := sz,
                pl_noise := noise, pl_measure := m, pl_refSlope := steadySlope t (max span (2 * kLevelWindows)),
                pl_refSpan := span, pl_refTput := steadyLevel t span, pl_busyBefore := sp_busyMean (pl_last ps),
                pl_tputWindows := [], pl_windowsSinceChange := 0, pl_settledWindows := 0,
                pl_changes := pl_changes ps + 1,
                pl_pool := (if wantGrow then ep_Grow P n pool else ep_Shrink P n pool)\<rparr>))"

subsection \<open>Judging a trial\<close>

definition grow_margin :: "TunerConfig \<Rightarrow> real \<Rightarrow> real" where
  "grow_margin cfg tol = max (tc_growFloor cfg) (2 * sqrt 2 * tol)"

definition shrink_allow :: "TunerConfig \<Rightarrow> real \<Rightarrow> real" where
  "shrink_allow cfg tol = max (tc_shrinkFloor cfg) (min (sqrt 2 * tol) 0.02)"

definition verdict :: "TunerConfig \<Rightarrow> bool \<Rightarrow> real \<Rightarrow> real \<Rightarrow> real \<Rightarrow> real \<Rightarrow> real \<Rightarrow> bool" where
  "verdict cfg grew refTput busyBefore ratio streakRatio tol =
    (if refTput = 0 then \<not> grew
     else if \<not> grew \<and> busyBefore < tc_idleBusy cfg then True
     else if grew then ratio \<ge> 1 + grow_margin cfg tol
     else ratio \<ge> 1 - shrink_allow cfg tol \<and> streakRatio \<ge> 1 - shrink_allow cfg tol)"

definition clamp :: "real \<Rightarrow> real \<Rightarrow> real \<Rightarrow> real" where
  "clamp x lo hi = (if x < lo then lo else if hi < x then hi else x)"

definition expected_tput :: "'p PoolState \<Rightarrow> real" where
  "expected_tput ps = (let offset = real (pl_refSpan ps) / 2 + real (pl_windowsSinceChange ps) -
       real (length (pl_tputWindows ps)) / 2
     in pl_refTput ps * clamp (1 + pl_refSlope ps * offset) 0.8 1.2)"

definition dirRef :: "'p PoolState \<Rightarrow> bool \<Rightarrow> Direction" where
  "dirRef ps grew = (if grew then pl_grow ps else pl_shrink ps)"

definition set_dir :: "bool \<Rightarrow> Direction \<Rightarrow> 'p PoolState \<Rightarrow> 'p PoolState" where
  "set_dir grew d ps = (if grew then ps\<lparr>pl_grow := d\<rparr> else ps\<lparr>pl_shrink := d\<rparr>)"

text \<open>A direction after a kept and after a reverted move.\<close>

definition keep_dir :: "bool \<Rightarrow> real \<Rightarrow> Direction \<Rightarrow> Direction" where
  "keep_dir gained refTput d = d\<lparr>dr_lastGained := gained, dr_cap := 0, dr_nextBackoff := 0,
     dr_streakRef := (if dr_keptStreak d = 0 then refTput else dr_streakRef d),
     dr_keptStreak := dr_keptStreak d + 1\<rparr>"

definition revert_dir :: "TunerConfig \<Rightarrow> nat \<Rightarrow> nat \<Rightarrow> real \<Rightarrow> real \<Rightarrow> Direction \<Rightarrow> Direction" where
  "revert_dir cfg delta step refTput busyBefore d =
    (let d1 = d\<lparr>dr_lastGained := False, dr_keptStreak := 0, dr_streakRef := 0\<rparr> in
     if delta > step then d1\<lparr>dr_cap := max step (roundToStep (delta div 2) step)\<rparr>
     else let nb = (if dr_nextBackoff d1 = 0 then tc_firstBackoffWindows cfg else dr_nextBackoff d1)
          in d1\<lparr>dr_cap := step, dr_backoff := nb, dr_nextBackoff := min (nb * 2) (tc_maxBackoffWindows cfg),
               dr_tputAtFail := refTput, dr_busyAtFail := busyBefore\<rparr>)"

definition learn_scale :: "TunerConfig \<Rightarrow> bool \<Rightarrow> nat \<Rightarrow> 'p PoolState \<Rightarrow> real" where
  "learn_scale cfg learn sz ps =
    (if learn \<and> pl_busyBefore ps \<ge> tc_idleBusy cfg \<and> sz > 0 then
       let projected = pl_busyBefore ps * real (pl_sizeBefore ps) / real sz in
       if projected > 0
       then 0.5 * pl_shrinkScale ps + 0.5 * clamp (sp_busyMean (pl_last ps) / projected) 0.1 1
       else pl_shrinkScale ps
     else pl_shrinkScale ps)"

definition judge :: "TunerConfig \<Rightarrow> 'p ElasticPool \<Rightarrow> real \<Rightarrow> 'p PoolState \<Rightarrow> 'p PoolState" where
  "judge cfg P tput ps =
    (let pool = pl_pool ps; sz = ep_Size P pool; step = max 1 (ep_Step P pool);
         grew = (pl_trial ps = GrowTrial);
         delta = (if grew then sz - pl_sizeBefore ps else pl_sizeBefore ps - sz);
         expected = expected_tput ps;
         ratio = (if expected > 0 then tput / expected else 1);
         tol = tolerance ps; d = dirRef ps grew;
         streakRatio = (if dr_streakRef d > 0 then tput / dr_streakRef d else 1);
         keep = verdict cfg grew (pl_refTput ps) (pl_busyBefore ps) ratio streakRatio tol;
         gained = (keep \<and> ratio \<ge> 1 + grow_margin cfg tol);
         ps1 = ps\<lparr>pl_shrinkScale := learn_scale cfg (keep \<and> \<not> grew) sz ps, pl_lastTrialGrew := grew,
                  pl_trial := NoTrial, pl_windowsSinceChange := 0\<rparr>
     in if keep then set_dir grew (keep_dir gained (pl_refTput ps) d) ps1
        else set_dir grew (revert_dir cfg delta step (pl_refTput ps) (pl_busyBefore ps) d)
          (ps1\<lparr>pl_reverts := pl_reverts ps + 1,
               pl_pool := (if grew then ep_Shrink P delta pool else ep_Grow P delta pool)\<rparr>))"

subsection \<open>Decisions\<close>

definition close_dir :: "TunerConfig \<Rightarrow> real \<Rightarrow> bool \<Rightarrow> real \<Rightarrow> Direction \<Rightarrow> Direction" where
  "close_dir cfg tput mayEnd busy d = (if dr_backoff d = 0 then d else
     let moved = ((dr_tputAtFail d > 0 \<and> \<bar>tput - dr_tputAtFail d\<bar> / dr_tputAtFail d > tc_loadChangeTput cfg) \<or>
                  \<bar>busy - dr_busyAtFail d\<bar> > tc_loadChangeBusy cfg)
     in if mayEnd \<and> moved then d\<lparr>dr_backoff := 0, dr_nextBackoff := 0\<rparr>
        else d\<lparr>dr_backoff := dr_backoff d - 1\<rparr>)"

definition closeWindow :: "TunerConfig \<Rightarrow> real \<Rightarrow> bool \<Rightarrow> 'p PoolState \<Rightarrow> 'p PoolState" where
  "closeWindow cfg tput steady ps =
    (let k = real (pl_samples ps);
         last = (if pl_samples ps > 0
           then (pl_last ps)\<lparr>sp_busyMean := pl_busySum ps / k, sp_busyMax := pl_busyMaxSeen ps,
                  sp_avgBatch := pl_batchSum ps / k, sp_waitUs := pl_waitSum ps / k\<rparr>
           else pl_last ps);
         w = pl_windowsSinceChange ps + 1;
         mayEnd = (steady \<and> w \<ge> 2)
     in ps\<lparr>pl_last := last, pl_busySum := 0, pl_busyMaxSeen := 0, pl_batchSum := 0, pl_waitSum := 0,
          pl_samples := 0, pl_windowsSinceChange := w,
          pl_grow := close_dir cfg tput mayEnd (sp_busyMean last) (pl_grow ps),
          pl_shrink := close_dir cfg tput mayEnd (sp_busyMean last) (pl_shrink ps)\<rparr>)"

definition track_best :: "TunerConfig \<Rightarrow> 'p Tuner \<Rightarrow> 'p Tuner" where
  "track_best cfg t = (if length (tn_steadyRecent t) < kLevelWindows then t else
     let level = steadyLevel t kLevelWindows in
     if level > tn_steadyBest t then t\<lparr>tn_steadyBest := level, tn_steadyLowDecisions := 0\<rparr>
     else if level < tn_steadyBest t * (1 - 2 * tc_minGain cfg) then
       (if tn_steadyLowDecisions t + 1 \<ge> 3 then t\<lparr>tn_steadyBest := level, tn_steadyLowDecisions := 0\<rparr>
        else t\<lparr>tn_steadyLowDecisions := tn_steadyLowDecisions t + 1\<rparr>)
     else t)"

definition note_steady :: "TunerConfig \<Rightarrow> real \<Rightarrow> 'p Tuner \<Rightarrow> 'p Tuner" where
  "note_steady cfg tput t =
    (let deep = (tn_steadyRecent t \<noteq> [] \<and> tput < 0.5 * steadyLevel t kLevelWindows);
         low = (if deep then tn_stepLow t + 1 else 0);
         wipe = (tput \<le> 0 \<or> low \<ge> 2);
         r1 = (if wipe then [] else tn_steadyRecent t);
         r2 = (if tput > 0 then r1 @ [tput] else r1);
         r3 = (if length r2 > kSteadyHistory then tl r2 else r2)
     in track_best cfg (t\<lparr>tn_stepLow := (if wipe then 0 else low), tn_steadyRecent := r3,
          tn_steadySinceChange := (if tput > 0 then tn_steadySinceChange t + 1 else tn_steadySinceChange t)\<rparr>))"

definition set_pool :: "nat \<Rightarrow> 'p PoolState \<Rightarrow> 'p Tuner \<Rightarrow> 'p Tuner" where
  "set_pool i ps t = t\<lparr>tn_pools := (tn_pools t)[i := ps]\<rparr>"

definition abandon :: "'p ElasticPool \<Rightarrow> 'p PoolState \<Rightarrow> 'p PoolState" where
  "abandon P ps = (let sz = ep_Size P (pl_pool ps) in
     ps\<lparr>pl_pool := (if pl_trial ps = GrowTrial then ep_Shrink P (sz - pl_sizeBefore ps) (pl_pool ps)
                     else ep_Grow P (pl_sizeBefore ps - sz) (pl_pool ps)),
        pl_trial := NoTrial, pl_windowsSinceChange := 0\<rparr>)"

text \<open>A window of the trial in flight in pool \<open>i\<close>.\<close>

definition trial_window :: "TunerConfig \<Rightarrow> 'p ElasticPool \<Rightarrow> real \<Rightarrow> nat \<Rightarrow> 'p Tuner \<Rightarrow> 'p Tuner" where
  "trial_window cfg P tput i t =
    (let ps = tn_pools t ! i in
     if pl_settledWindows ps = 0 \<and> \<not> ep_Settled P (pl_pool ps) \<and> pl_windowsSinceChange ps < tc_maxSettleWindows cfg
     then t
     else if tput \<le> 0 then
       let ps1 = ps\<lparr>pl_tputWindows := [], pl_settledWindows := 0\<rparr>
       in set_pool i (if pl_windowsSinceChange ps1 > tc_maxSettleWindows cfg then abandon P ps1 else ps1) t
     else let ps1 = ps\<lparr>pl_settledWindows := pl_settledWindows ps + 1\<rparr> in
       if pl_settledWindows ps1 > tc_settleWindows cfg then
         let ps2 = ps1\<lparr>pl_tputWindows := pl_tputWindows ps1 @ [tput]\<rparr> in
         if length (pl_tputWindows ps2) \<ge> pl_measure ps2
         then (set_pool i (judge cfg P (median (pl_tputWindows ps2)) ps2) t)\<lparr>tn_steadySinceChange := 0,
                tn_measuredNoise := (if length (pl_tputWindows ps2) \<ge> 3 then cv (pl_tputWindows ps2) else tn_measuredNoise t)\<rparr>
         else set_pool i ps2 t
       else set_pool i ps1 t)"

fun first_trial :: "'p PoolState list \<Rightarrow> nat \<Rightarrow> nat option" where
  "first_trial [] i = None"
| "first_trial (ps # pss) i = (if pl_trial ps \<noteq> NoTrial then Some i else first_trial pss (i + 1))"

fun first_start :: "TunerConfig \<Rightarrow> 'p ElasticPool \<Rightarrow> 'p Tuner \<Rightarrow> ('p PoolState \<Rightarrow> bool) \<Rightarrow> nat list \<Rightarrow>
    (nat \<times> 'p PoolState) option" where
  "first_start cfg P t may [] = None"
| "first_start cfg P t may (i # is) = (let ps = tn_pools t ! i in
     case (if may ps then startTrial cfg P t ps else None) of
       Some ps' \<Rightarrow> Some (i, ps')
     | None \<Rightarrow> first_start cfg P t may is)"

definition still_moving :: "TunerConfig \<Rightarrow> 'p ElasticPool \<Rightarrow> 'p Tuner \<Rightarrow> bool" where
  "still_moving cfg P t = (let r = tn_steadyRecent t; a = r ! (length r - 1); b = r ! (length r - 2) in
     a > 0 \<and> \<bar>a - b\<bar> / a > max (tc_minGain cfg) (steadyNoise t) \<and> \<not> (a > b \<and> rampingUp cfg P t))"

definition start_next :: "TunerConfig \<Rightarrow> 'p ElasticPool \<Rightarrow> 'p Tuner \<Rightarrow> 'p Tuner" where
  "start_next cfg P t = (let n = length (tn_pools t) in
     if length (tn_steadyRecent t) < kLevelWindows \<or> still_moving cfg P t then t
     else case first_start cfg P t (\<lambda>ps. hasMomentum P ps \<and> pl_windowsSinceChange ps \<ge> 1) [0..<n] of
       Some (i, ps) \<Rightarrow> set_pool i ps t
     | None \<Rightarrow> (case first_start cfg P t (\<lambda>ps. pl_windowsSinceChange ps \<ge> 2)
                  (map (\<lambda>i. (tn_nextPool t + i) mod n) [0..<n]) of
           Some (i, ps) \<Rightarrow> (set_pool i ps t)\<lparr>tn_nextPool := (i + 1) mod n\<rparr>
         | None \<Rightarrow> t))"

definition decide :: "TunerConfig \<Rightarrow> 'p ElasticPool \<Rightarrow> real \<Rightarrow> 'p Tuner \<Rightarrow> 'p Tuner" where
  "decide cfg P tput t =
    (let steady = list_all (\<lambda>ps. pl_trial ps = NoTrial) (tn_pools t);
         t1 = (if steady then note_steady cfg tput t else t);
         t2 = t1\<lparr>tn_pools := map (closeWindow cfg tput steady) (tn_pools t1)\<rparr>
     in case first_trial (tn_pools t2) 0 of
          Some i \<Rightarrow> trial_window cfg P tput i t2
        | None \<Rightarrow> start_next cfg P t2)"

subsection \<open>The sampling loop\<close>

definition sample_pool :: "'p ElasticPool \<Rightarrow> real \<Rightarrow> 'p PoolState \<Rightarrow> 'p PoolState" where
  "sample_pool P wallSec ps = (case ep_Sample P wallSec (ep_Reap P (pl_pool ps)) of (s, pool) \<Rightarrow>
     ps\<lparr>pl_pool := pool, pl_busySum := pl_busySum ps + sp_busyMean s,
        pl_busyMaxSeen := max (pl_busyMaxSeen ps) (sp_busyMax s),
        pl_batchSum := pl_batchSum ps + sp_avgBatch s, pl_waitSum := pl_waitSum ps + sp_waitUs s,
        pl_samples := pl_samples ps + 1,
        pl_last := (pl_last ps)\<lparr>sp_size := sp_size s, sp_threadBusy := sp_threadBusy s,
          sp_threadLoad := sp_threadLoad s\<rparr>\<rparr>)"

definition tuner_sample :: "'p ElasticPool \<Rightarrow> real \<Rightarrow> 'p Tuner \<Rightarrow> 'p Tuner" where
  "tuner_sample P wallSec t = t\<lparr>tn_pools := map (sample_pool P wallSec) (tn_pools t)\<rparr>"

record TunerLoop =
  tl_lastSample :: real
  tl_windowStart :: real
  tl_windowOps :: u64
  tl_samples :: nat

definition tuner_turn :: "TunerConfig \<Rightarrow> 'p ElasticPool \<Rightarrow> real \<Rightarrow> u64 \<Rightarrow> TunerLoop \<times> 'p Tuner \<Rightarrow> TunerLoop \<times> 'p Tuner" where
  "tuner_turn cfg P now ops lt = (case lt of (l, t) \<Rightarrow>
     let t1 = tuner_sample P (now - tl_lastSample l) t; l1 = l\<lparr>tl_lastSample := now, tl_samples := tl_samples l + 1\<rparr>
     in if tl_samples l1 < tc_samplesPerDecision cfg then (l1, t1)
        else let sec = now - tl_windowStart l1;
                 tput = (if sec > 0 then real (unat (ops - tl_windowOps l1)) / sec else 0)
             in (l1\<lparr>tl_samples := 0, tl_windowStart := now, tl_windowOps := ops\<rparr>,
                 decide cfg P tput (t1\<lparr>tn_lastTput := tput\<rparr>)))"

subsection \<open>Facts about the step and the verdict\<close>

lemma dvd_min: "(k::nat) dvd a \<Longrightarrow> k dvd b \<Longrightarrow> k dvd min a b"
  by (simp add: min_def)

lemma dvd_max: "(k::nat) dvd a \<Longrightarrow> k dvd b \<Longrightarrow> k dvd max a b"
  by (simp add: max_def)

lemma dvd_roundToStep: "0 < k \<Longrightarrow> k dvd roundToStep n k"
  by (simp add: roundToStep_def)

lemma guard_steps_ok: "step dvd n \<Longrightarrow> step dvd guard_steps b sz step hb n \<and> guard_steps b sz step hb n \<le> n"
proof (induction b sz step hb n rule: guard_steps.induct)
  case (1 b sz step hb n)
  show ?case
  proof (cases "0 < step \<and> n > step \<and> b * real sz / real (sz - n) \<ge> hb")
    case True
    then have "step dvd n - step" using "1.prems" by (simp add: dvd_diff_nat)
    from "1.IH" [OF True this] show ?thesis using True by (auto simp: guard_steps.simps [of b sz step hb n])
  next
    case False
    have "guard_steps b sz step hb n = n" by (subst guard_steps.simps) (simp only: False if_False)
    then show ?thesis using "1.prems" by simp
  qed
qed

lemma base_step_dvd:
  assumes "0 < step" "step dvd dr_cap (pl_grow ps)" "step dvd dr_cap (pl_shrink ps)"
  shows "step dvd base_step cfg sz step wg ps"
proof -
  let ?d = "if wg then pl_grow ps else pl_shrink ps"
  have "step dvd dr_cap ?d" using assms by simp
  moreover have "step dvd max step (roundToStep k step)" for k using assms(1) by (simp add: dvd_max dvd_roundToStep)
  moreover have "step dvd max (max step (roundToStep k step)) (roundToStep l step)" for k l
    using assms(1) by (simp add: dvd_max dvd_roundToStep)
  ultimately have "step dvd (if c then min (if c' then max (max step (roundToStep k step)) (roundToStep l step)
      else max step (roundToStep k step)) (dr_cap ?d)
    else if c' then max (max step (roundToStep k step)) (roundToStep l step) else max step (roundToStep k step))" for c c' k l
    by (cases c; cases c') (simp_all add: dvd_min)
  then show ?thesis unfolding base_step_def Let_def .
qed

lemma shrink_step_ok:
  assumes "0 < step" "step dvd n0" "step dvd sz - pl_min ps" "shrink_step cfg sz step pr ps n0 = Some n"
  shows "step dvd n \<and> n \<le> sz - pl_min ps"
proof -
  define n1 where "n1 = min n0 (sz - pl_min ps)"
  define n2 where "n2 = (if sp_busyMean (pl_last ps) \<ge> tc_peggedBusy cfg \<and> \<not> dr_lastGained (pl_shrink ps)
    then min n1 (roundToStep (sz div 4) step) else n1)"
  have n2: "step dvd n2" "n2 \<le> sz - pl_min ps"
    using assms by (auto simp: n2_def n1_def dvd_min dvd_roundToStep)
  have "n = n2 \<or> n = guard_steps (sp_busyMean (pl_last ps) * pl_shrinkScale ps) sz step (tc_highBusy cfg) n2"
    using assms(4) unfolding shrink_step_def Let_def n1_def [symmetric] n2_def [symmetric]
    by (metis option.discI option.inject)
  then show ?thesis using n2 guard_steps_ok [OF n2(1)] by (metis order.trans)
qed

lemma step_size_ok:
  assumes "0 < step" "step dvd sz" "step dvd pl_min ps" "step dvd pl_max ps"
    and "step dvd dr_cap (pl_grow ps)" "step dvd dr_cap (pl_shrink ps)"
    and "step_size cfg sz step pr wg ps = Some n"
  shows "step dvd n \<and> (if wg then n \<le> pl_max ps - sz else n \<le> sz - pl_min ps)"
proof -
  have d: "step dvd pl_max ps - sz" "step dvd sz - pl_min ps" using assms by (auto intro: dvd_diff_nat)
  note b = base_step_dvd [OF assms(1,5,6), of cfg sz]
  show ?thesis
  proof (cases wg)
    case True
    then show ?thesis using assms(7) d b [of True] by (auto simp: step_size_def dvd_min)
  next
    case False
    then show ?thesis using assms(7) shrink_step_ok [OF assms(1) b d(2)] by (auto simp: step_size_def)
  qed
qed

text \<open>The margins leave a gap, whatever the noise: no change passes both as a grow and, undone, as a shrink.\<close>

lemma margins_apart:
  assumes "0 \<le> tol" "tc_growFloor cfg \<ge> 2 * tc_shrinkFloor cfg" "0 < tc_shrinkFloor cfg" "tc_shrinkFloor cfg \<le> 0.02"
  shows "1 < (1 + grow_margin cfg tol) * (1 - shrink_allow cfg tol)"
proof -
  define a where "a = shrink_allow cfg tol"
  have "a \<le> 0.02" "0 < a" using assms by (auto simp: a_def shrink_allow_def)
  moreover have "2 * a \<le> grow_margin cfg tol"
    using assms by (auto simp: a_def grow_margin_def shrink_allow_def max_def min_def)
  ultimately have "(1 + 2 * a) * (1 - a) \<le> (1 + grow_margin cfg tol) * (1 - a)"
    by (intro mult_right_mono) auto
  moreover have "1 < (1 + 2 * a) * (1 - a)"
  proof -
    have "(1 + 2 * a) * (1 - a) = 1 + a * (1 - 2 * a)" by (simp add: algebra_simps)
    moreover have "0 < a * (1 - 2 * a)" using \<open>0 < a\<close> \<open>a \<le> 0.02\<close> by (intro mult_pos_pos) auto
    ultimately show ?thesis by linarith
  qed
  ultimately show ?thesis unfolding a_def by linarith
qed

text \<open>C33. No change can be kept in both directions: if throughput \<open>hi\<close> with more threads makes a grow from
  \<open>lo\<close> kept, then going back from \<open>hi\<close> to \<open>lo\<close> is a shrink that is reverted, at any noise level and
  with the shipped settings, unless the pool was idle.\<close>

theorem verdicts_do_not_cycle:
  assumes "0 \<le> tol" "0 < lo" "0 < hi" "tc_idleBusy default_tuner \<le> busy"
    and "verdict default_tuner True lo busyG (hi / lo) streakG tol"
  shows "\<not> verdict default_tuner False hi busy (lo / hi) streakS tol"
proof
  assume "verdict default_tuner False hi busy (lo / hi) streakS tol"
  then have "1 - shrink_allow default_tuner tol \<le> lo / hi" using assms by (simp add: verdict_def)
  moreover have "1 + grow_margin default_tuner tol \<le> hi / lo" using assms by (simp add: verdict_def)
  moreover have "shrink_allow default_tuner tol \<le> 0.02" by (simp add: shrink_allow_def default_tuner_def)
  ultimately have "(1 + grow_margin default_tuner tol) * (1 - shrink_allow default_tuner tol) \<le> hi / lo * (lo / hi)"
    using assms by (intro mult_mono) auto
  moreover have "hi / lo * (lo / hi) = 1" using assms by simp
  moreover have "1 < (1 + grow_margin default_tuner tol) * (1 - shrink_allow default_tuner tol)"
    using assms(1) by (intro margins_apart) (auto simp: default_tuner_def)
  ultimately show False by linarith
qed

theorem verdicts_do_not_cycle_witness:
  "verdict default_tuner True 100 1 (110 / 100) 1 0 \<and> \<not> verdict default_tuner False 110 1 (100 / 110) 1 0"
proof -
  have v: "verdict default_tuner True 100 1 (110 / 100) 1 0"
    by (simp add: verdict_def grow_margin_def default_tuner_def)
  moreover have "\<not> verdict default_tuner False 110 1 (100 / 110) 1 0"
    by (rule verdicts_do_not_cycle [OF _ _ _ _ v]) (auto simp: default_tuner_def)
  ultimately show ?thesis ..
qed

subsection \<open>What the tuner keeps of its pools\<close>

definition pool_sized :: "'p ElasticPool \<Rightarrow> ('p \<Rightarrow> bool) \<Rightarrow> 'p PoolState \<Rightarrow> bool" where
  "pool_sized P ok ps \<longleftrightarrow> (let p = pl_pool ps; st = ep_Step P p; sz = ep_Size P p in
     ok p \<and> st dvd pl_min ps \<and> st dvd pl_max ps \<and> 0 < pl_min ps \<and> pl_min ps \<le> sz \<and> sz \<le> pl_max ps \<and>
     st dvd dr_cap (pl_grow ps) \<and> st dvd dr_cap (pl_shrink ps) \<and>
     (pl_trial ps = GrowTrial \<longrightarrow> st dvd pl_sizeBefore ps \<and> pl_min ps \<le> pl_sizeBefore ps \<and> pl_sizeBefore ps < sz) \<and>
     (pl_trial ps = ShrinkTrial \<longrightarrow> st dvd pl_sizeBefore ps \<and> sz < pl_sizeBefore ps \<and> pl_sizeBefore ps \<le> pl_max ps))"

definition max_measure :: "TunerConfig \<Rightarrow> nat" where
  "max_measure cfg = max 8 (max (tc_smallStepMeasureWindows cfg) (tc_measureWindows cfg))"

definition trial_age :: "TunerConfig \<Rightarrow> nat \<Rightarrow> 'p PoolState \<Rightarrow> bool" where
  "trial_age cfg k ps \<longleftrightarrow> (pl_trial ps \<noteq> NoTrial \<longrightarrow>
     pl_windowsSinceChange ps \<le> tc_maxSettleWindows cfg + pl_settledWindows ps + k \<and>
     length (pl_tputWindows ps) = pl_settledWindows ps - tc_settleWindows cfg \<and>
     pl_settledWindows ps \<le> tc_settleWindows cfg + pl_measure ps \<and> pl_measure ps \<le> max_measure cfg)"

definition one_trial :: "'p PoolState list \<Rightarrow> bool" where
  "one_trial pss \<longleftrightarrow> (\<forall>i<length pss. \<forall>j<length pss.
     pl_trial (pss ! i) \<noteq> NoTrial \<and> pl_trial (pss ! j) \<noteq> NoTrial \<longrightarrow> i = j)"

definition tuner_inv :: "TunerConfig \<Rightarrow> 'p ElasticPool \<Rightarrow> ('p \<Rightarrow> bool) \<Rightarrow> 'p Tuner \<Rightarrow> bool" where
  "tuner_inv cfg P ok t \<longleftrightarrow> (\<forall>ps\<in>set (tn_pools t). pool_sized P ok ps \<and> trial_age cfg 0 ps) \<and> one_trial (tn_pools t)"

lemma measure_windows_le: "measure_windows cfg n sz noise \<le> max_measure cfg"
  by (auto simp: measure_windows_def max_measure_def Let_def)

lemma first_trial_Some:
  "first_trial pss k = Some i \<Longrightarrow> k \<le> i \<and> i - k < length pss \<and> pl_trial (pss ! (i - k)) \<noteq> NoTrial"
  by (induction pss k arbitrary: i rule: first_trial.induct) (fastforce simp: nth_Cons' split: if_splits)+

lemma first_trial_None: "first_trial pss k = None \<Longrightarrow> ps \<in> set pss \<Longrightarrow> pl_trial ps = NoTrial"
  by (induction pss k rule: first_trial.induct) (auto split: if_splits)

lemma first_start_Some:
  "first_start cfg P t may is = Some (i, ps) \<Longrightarrow> i \<in> set is \<and> startTrial cfg P t (tn_pools t ! i) = Some ps"
  by (induction cfg P t may "is" rule: first_start.induct) (auto simp: Let_def split: option.splits if_splits)

lemma one_trial_update:
  "one_trial pss \<Longrightarrow> i < length pss \<Longrightarrow> pl_trial (pss ! i) \<noteq> NoTrial \<Longrightarrow> one_trial (pss[i := ps])"
  by (auto simp: one_trial_def nth_list_update split: if_splits)

lemma one_trial_start: "\<forall>ps\<in>set pss. pl_trial ps = NoTrial \<Longrightarrow> i < length pss \<Longrightarrow> one_trial (pss[i := ps])"
  by (auto simp: one_trial_def nth_list_update split: if_splits)

lemma pools_fields [simp]:
  "tn_pools (track_best cfg t) = tn_pools t" "tn_pools (note_steady cfg tput t) = tn_pools t"
  "tn_pools (set_pool i ps t) = (tn_pools t)[i := ps]"
  by (auto simp: track_best_def note_steady_def set_pool_def Let_def)

lemma set_dir_fields [simp]:
  "pl_pool (set_dir g d ps) = pl_pool ps" "pl_min (set_dir g d ps) = pl_min ps" "pl_max (set_dir g d ps) = pl_max ps"
  "pl_trial (set_dir g d ps) = pl_trial ps" "pl_sizeBefore (set_dir g d ps) = pl_sizeBefore ps"
  "pl_windowsSinceChange (set_dir g d ps) = pl_windowsSinceChange ps"
  "pl_grow (set_dir g d ps) = (if g then d else pl_grow ps)" "pl_shrink (set_dir g d ps) = (if g then pl_shrink ps else d)"
  by (auto simp: set_dir_def)

lemma close_dir_cap [simp]: "dr_cap (close_dir cfg tput m busy d) = dr_cap d"
  by (auto simp: close_dir_def Let_def)

lemma closeWindow_ok:
  "pool_sized P ok ps \<Longrightarrow> pool_sized P ok (closeWindow cfg tput steady ps)"
  "trial_age cfg 0 ps \<Longrightarrow> trial_age cfg 1 (closeWindow cfg tput steady ps)"
  "pl_trial (closeWindow cfg tput steady ps) = pl_trial ps"
  by (auto simp: closeWindow_def pool_sized_def trial_age_def Let_def)

lemma judge_ends: "pl_trial (judge cfg P tput ps) = NoTrial"
  by (simp add: judge_def Let_def)

lemma abandon_ends: "pl_trial (abandon P ps) = NoTrial"
  by (simp add: abandon_def Let_def)

lemma trial_window_pools:
  assumes "first_trial (tn_pools t) 0 = Some i"
  shows "\<exists>ps. tn_pools (trial_window cfg P tput i t) = (tn_pools t)[i := ps]"
  by (auto simp: trial_window_def Let_def intro: exI [of _ "tn_pools t ! i"])

lemma startTrial_Some:
  assumes "startTrial cfg P t ps = Some ps'"
  obtains pr wg n where "step_size cfg (ep_Size P (pl_pool ps)) (max 1 (ep_Step P (pl_pool ps))) pr wg ps = Some n"
    and "0 < n" "pl_trial ps' = (if wg then GrowTrial else ShrinkTrial)" "pl_sizeBefore ps' = ep_Size P (pl_pool ps)"
    and "pl_pool ps' = (if wg then ep_Grow P n (pl_pool ps) else ep_Shrink P n (pl_pool ps))"
    and "pl_min ps' = pl_min ps" "pl_max ps' = pl_max ps" "pl_grow ps' = pl_grow ps" "pl_shrink ps' = pl_shrink ps"
    and "pl_windowsSinceChange ps' = 0" "pl_settledWindows ps' = 0" "pl_tputWindows ps' = []"
    and "pl_measure ps' \<le> max_measure cfg"
proof -
  let ?sz = "ep_Size P (pl_pool ps)" let ?st = "max 1 (ep_Step P (pl_pool ps))"
  obtain pr wg ws where w: "want cfg ?sz ps = (pr, wg, ws)" by (metis prod_cases3)
  have g: "wg \<or> ws" using assms w by (simp add: startTrial_def Let_def split: if_splits)
  obtain n where n: "step_size cfg ?sz ?st pr wg ps = Some n" "n \<noteq> 0"
    using assms w g by (cases "step_size cfg ?sz ?st pr wg ps") (auto simp: startTrial_def Let_def split: if_splits)
  have e: "ps' = ps\<lparr>pl_trial := (if wg then GrowTrial else ShrinkTrial), pl_sizeBefore := ?sz,
      pl_noise := steadyNoise t, pl_measure := measure_windows cfg n ?sz (steadyNoise t),
      pl_refSlope := steadySlope t (max (max (measure_windows cfg n ?sz (steadyNoise t)) kLevelWindows) (2 * kLevelWindows)),
      pl_refSpan := max (measure_windows cfg n ?sz (steadyNoise t)) kLevelWindows,
      pl_refTput := steadyLevel t (max (measure_windows cfg n ?sz (steadyNoise t)) kLevelWindows),
      pl_busyBefore := sp_busyMean (pl_last ps), pl_tputWindows := [], pl_windowsSinceChange := 0, pl_settledWindows := 0,
      pl_changes := pl_changes ps + 1, pl_pool := (if wg then ep_Grow P n (pl_pool ps) else ep_Shrink P n (pl_pool ps))\<rparr>"
    using assms n(2) g unfolding startTrial_def Let_def w n(1) prod.case option.case by (simp split: if_splits)
  show thesis by (rule that [OF n(1)]) (use n(2) in \<open>simp_all add: e measure_windows_le\<close>)
qed

definition trial_at :: "nat \<Rightarrow> 'p Tuner \<Rightarrow> bool" where
  "trial_at w t \<longleftrightarrow> (\<exists>ps\<in>set (tn_pools t). pl_trial ps \<noteq> NoTrial \<and> pl_windowsSinceChange ps = w)"

definition no_trial :: "'p Tuner \<Rightarrow> bool" where
  "no_trial t \<longleftrightarrow> (\<forall>ps\<in>set (tn_pools t). pl_trial ps = NoTrial)"

definition trial_bound :: "TunerConfig \<Rightarrow> nat" where
  "trial_bound cfg = tc_maxSettleWindows cfg + tc_settleWindows cfg + max_measure cfg"

text \<open>What happens to a tuner: samples and decisions, each with its measurement.\<close>

datatype tuner_event = Sampled real | Decided real

fun tuner_react :: "TunerConfig \<Rightarrow> 'p ElasticPool \<Rightarrow> 'p Tuner \<Rightarrow> tuner_event \<Rightarrow> 'p Tuner" where
  "tuner_react cfg P t (Sampled w) = tuner_sample P w t"
| "tuner_react cfg P t (Decided x) = decide cfg P x (t\<lparr>tn_lastTput := x\<rparr>)"

text \<open>The contract of a pool: sizes move by whole steps, exactly as asked, as long as a step is left.\<close>

locale elastic_pool =
  fixes P :: "'p ElasticPool" and ok :: "'p \<Rightarrow> bool"
  assumes size_step: "ok p \<Longrightarrow> 0 < ep_Step P p \<and> ep_Step P p dvd ep_Size P p"
    and grow: "ok p \<Longrightarrow> 0 < n \<Longrightarrow> ep_Step P p dvd n \<Longrightarrow>
      ok (ep_Grow P n p) \<and> ep_Size P (ep_Grow P n p) = ep_Size P p + n \<and> ep_Step P (ep_Grow P n p) = ep_Step P p"
    and shrink: "ok p \<Longrightarrow> 0 < n \<Longrightarrow> ep_Step P p dvd n \<Longrightarrow> n < ep_Size P p \<Longrightarrow>
      ok (ep_Shrink P n p) \<and> ep_Size P (ep_Shrink P n p) = ep_Size P p - n \<and> ep_Step P (ep_Shrink P n p) = ep_Step P p"
    and sample: "ok p \<Longrightarrow> ok (snd (ep_Sample P w p)) \<and> ep_Size P (snd (ep_Sample P w p)) = ep_Size P p \<and>
      ep_Step P (snd (ep_Sample P w p)) = ep_Step P p"
    and reap: "ok p \<Longrightarrow> ok (ep_Reap P p) \<and> ep_Size P (ep_Reap P p) = ep_Size P p \<and> ep_Step P (ep_Reap P p) = ep_Step P p"
begin

lemma pool_sizedD:
  assumes "pool_sized P ok ps"
  shows "ok (pl_pool ps)" "0 < ep_Step P (pl_pool ps)" "ep_Step P (pl_pool ps) dvd ep_Size P (pl_pool ps)"
    "max 1 (ep_Step P (pl_pool ps)) = ep_Step P (pl_pool ps)"
proof -
  show ok: "ok (pl_pool ps)" using assms by (simp add: pool_sized_def Let_def)
  show "0 < ep_Step P (pl_pool ps)" "ep_Step P (pl_pool ps) dvd ep_Size P (pl_pool ps)" using size_step [OF ok] by auto
  then show "max 1 (ep_Step P (pl_pool ps)) = ep_Step P (pl_pool ps)" by linarith
qed

lemma startTrial_ok:
  assumes "startTrial cfg P t ps = Some ps'" "pool_sized P ok ps"
  shows "pool_sized P ok ps' \<and> trial_age cfg 0 ps'"
  using assms(1)
proof (rule startTrial_Some)
  fix pr wg n
  let ?p = "pl_pool ps"
  assume n: "step_size cfg (ep_Size P ?p) (max 1 (ep_Step P ?p)) pr wg ps = Some n" "0 < n"
    and trial: "pl_trial ps' = (if wg then GrowTrial else ShrinkTrial)" "pl_sizeBefore ps' = ep_Size P ?p"
    and pool: "pl_pool ps' = (if wg then ep_Grow P n ?p else ep_Shrink P n ?p)"
    and same: "pl_min ps' = pl_min ps" "pl_max ps' = pl_max ps" "pl_grow ps' = pl_grow ps" "pl_shrink ps' = pl_shrink ps"
    and fresh: "pl_windowsSinceChange ps' = 0" "pl_settledWindows ps' = 0" "pl_tputWindows ps' = []"
      "pl_measure ps' \<le> max_measure cfg"
  note st = pool_sizedD [OF assms(2)]
  have bounds: "0 < pl_min ps" "pl_min ps \<le> ep_Size P ?p" "ep_Size P ?p \<le> pl_max ps"
    and dvds: "ep_Step P ?p dvd pl_min ps" "ep_Step P ?p dvd pl_max ps" "ep_Step P ?p dvd dr_cap (pl_grow ps)"
      "ep_Step P ?p dvd dr_cap (pl_shrink ps)"
    using assms(2) by (simp_all add: pool_sized_def Let_def)
  have N: "ep_Step P ?p dvd n" "if wg then n \<le> pl_max ps - ep_Size P ?p else n \<le> ep_Size P ?p - pl_min ps"
    using step_size_ok [OF st(2,3) dvds n(1) [unfolded st(4)]] by auto
  have p': "ok (pl_pool ps') \<and> ep_Step P (pl_pool ps') = ep_Step P ?p \<and>
    ep_Size P (pl_pool ps') = (if wg then ep_Size P ?p + n else ep_Size P ?p - n)"
  proof (cases wg)
    case True
    then show ?thesis using grow [OF st(1) n(2) N(1)] by (simp add: pool)
  next
    case False
    then have "n < ep_Size P ?p" using N(2) bounds by simp
    then show ?thesis using shrink [OF st(1) n(2) N(1)] False by (simp add: pool)
  qed
  have "pool_sized P ok ps'"
    using p' bounds dvds N(2) n(2) st(3) by (cases wg) (auto simp: pool_sized_def Let_def trial same)
  then show ?thesis by (simp add: trial_age_def fresh)
qed

text \<open>Undoing a trial restores the size it started from.\<close>

lemma undo_grow:
  assumes "pool_sized P ok ps" "pl_trial ps = GrowTrial"
  defines "p' \<equiv> ep_Shrink P (ep_Size P (pl_pool ps) - pl_sizeBefore ps) (pl_pool ps)"
  shows "ok p' \<and> ep_Size P p' = pl_sizeBefore ps \<and> ep_Step P p' = ep_Step P (pl_pool ps)"
proof -
  let ?n = "ep_Size P (pl_pool ps) - pl_sizeBefore ps"
  have "0 < ?n" "ep_Step P (pl_pool ps) dvd ?n" "?n < ep_Size P (pl_pool ps)" "pl_sizeBefore ps < ep_Size P (pl_pool ps)"
    using assms(1,2) pool_sizedD(3) [OF assms(1)] by (auto simp: pool_sized_def Let_def intro: dvd_diff_nat)
  then show ?thesis using shrink [OF pool_sizedD(1) [OF assms(1)], of ?n] by (simp add: p'_def)
qed

lemma undo_shrink:
  assumes "pool_sized P ok ps" "pl_trial ps = ShrinkTrial"
  defines "p' \<equiv> ep_Grow P (pl_sizeBefore ps - ep_Size P (pl_pool ps)) (pl_pool ps)"
  shows "ok p' \<and> ep_Size P p' = pl_sizeBefore ps \<and> ep_Step P p' = ep_Step P (pl_pool ps)"
proof -
  let ?n = "pl_sizeBefore ps - ep_Size P (pl_pool ps)"
  have "0 < ?n" "ep_Step P (pl_pool ps) dvd ?n" "ep_Size P (pl_pool ps) < pl_sizeBefore ps"
    using assms(1,2) pool_sizedD(3) [OF assms(1)] by (auto simp: pool_sized_def Let_def intro: dvd_diff_nat)
  then show ?thesis using grow [OF pool_sizedD(1) [OF assms(1)], of ?n] by (simp add: p'_def)
qed

lemma resized_ok:
  assumes "pool_sized P ok ps" "ok p'" "ep_Step P p' = ep_Step P (pl_pool ps)"
    and "pl_min ps \<le> ep_Size P p'" "ep_Size P p' \<le> pl_max ps"
    and "pl_pool ps' = p'" "pl_trial ps' = NoTrial" "pl_min ps' = pl_min ps" "pl_max ps' = pl_max ps"
    and "ep_Step P p' dvd dr_cap (pl_grow ps')" "ep_Step P p' dvd dr_cap (pl_shrink ps')"
  shows "pool_sized P ok ps'"
  using assms by (simp add: pool_sized_def Let_def)

lemma abandon_ok:
  assumes "pool_sized P ok ps" "pl_trial ps \<noteq> NoTrial"
  shows "pool_sized P ok (abandon P ps) \<and> ep_Size P (pl_pool (abandon P ps)) = pl_sizeBefore ps"
proof (cases "pl_trial ps")
  case NoTrial
  then show ?thesis using assms(2) by simp
next
  case GrowTrial
  then show ?thesis using undo_grow [OF assms(1) GrowTrial] assms(1)
    by (auto simp: abandon_def Let_def pool_sized_def)
next
  case ShrinkTrial
  then show ?thesis using undo_shrink [OF assms(1) ShrinkTrial] assms(1)
    by (auto simp: abandon_def Let_def pool_sized_def)
qed

lemma revert_cap: "0 < st \<Longrightarrow> st dvd dr_cap (revert_dir cfg delta st ref busy d)"
  by (simp add: revert_dir_def Let_def dvd_max dvd_roundToStep)

lemma keep_cap: "st dvd dr_cap (keep_dir g ref d)"
  by (simp add: keep_dir_def)

lemma judge_ok:
  assumes "pool_sized P ok ps" "pl_trial ps \<noteq> NoTrial"
  shows "pool_sized P ok (judge cfg P tput ps) \<and>
    ep_Size P (pl_pool (judge cfg P tput ps)) \<in> {ep_Size P (pl_pool ps), pl_sizeBefore ps}"
proof -
  define k where "k = verdict cfg (pl_trial ps = GrowTrial) (pl_refTput ps) (pl_busyBefore ps)
    (if expected_tput ps > 0 then tput / expected_tput ps else 1)
    (if dr_streakRef (dirRef ps (pl_trial ps = GrowTrial)) > 0 then tput / dr_streakRef (dirRef ps (pl_trial ps = GrowTrial)) else 1)
    (tolerance ps)"
  note st = pool_sizedD [OF assms(1)]
  have caps: "ep_Step P (pl_pool ps) dvd dr_cap (pl_grow ps)" "ep_Step P (pl_pool ps) dvd dr_cap (pl_shrink ps)"
    "pl_min ps \<le> ep_Size P (pl_pool ps)" "ep_Size P (pl_pool ps) \<le> pl_max ps"
    using assms(1) by (auto simp: pool_sized_def Let_def)
  show ?thesis
  proof (cases k)
    case True
    have pool: "pl_pool (judge cfg P tput ps) = pl_pool ps"
      using True unfolding judge_def Let_def k_def [symmetric] by simp
    have "pool_sized P ok (judge cfg P tput ps)"
      by (rule resized_ok [OF assms(1) st(1) refl caps(3,4) pool judge_ends])
        (use True in \<open>auto simp: judge_def Let_def k_def [symmetric] caps keep_cap\<close>)
    then show ?thesis using pool by simp
  next
    case False
    let ?p' = "if pl_trial ps = GrowTrial then ep_Shrink P (ep_Size P (pl_pool ps) - pl_sizeBefore ps) (pl_pool ps)
      else ep_Grow P (pl_sizeBefore ps - ep_Size P (pl_pool ps)) (pl_pool ps)"
    have pool: "pl_pool (judge cfg P tput ps) = ?p'"
      using False unfolding judge_def Let_def k_def [symmetric] by simp
    have p': "ok ?p'" "ep_Size P ?p' = pl_sizeBefore ps" "ep_Step P ?p' = ep_Step P (pl_pool ps)"
      using undo_grow [OF assms(1)] undo_shrink [OF assms(1)] assms(2) by (cases "pl_trial ps"; auto)+
    have b: "pl_min ps \<le> pl_sizeBefore ps" "pl_sizeBefore ps \<le> pl_max ps"
      using assms by (cases "pl_trial ps"; auto simp: pool_sized_def Let_def)+
    have "pool_sized P ok (judge cfg P tput ps)"
    proof (rule resized_ok [OF assms(1) p'(1,3) _ _ pool judge_ends])
      show "ep_Step P ?p' dvd dr_cap (pl_grow (judge cfg P tput ps))" "ep_Step P ?p' dvd dr_cap (pl_shrink (judge cfg P tput ps))"
        unfolding p'(3) using False st caps
        by (auto simp: judge_def Let_def k_def [symmetric] revert_cap)
    qed (use False b p' in \<open>auto simp: judge_def Let_def k_def [symmetric]\<close>)
    then show ?thesis using pool p'(2) by simp
  qed
qed

lemma sized_fields:
  "pool_sized P ok ps \<Longrightarrow> pool_sized P ok (ps\<lparr>pl_tputWindows := ws, pl_settledWindows := k\<rparr>)"
  "pool_sized P ok ps \<Longrightarrow> pool_sized P ok (ps\<lparr>pl_settledWindows := k\<rparr>)"
  "pool_sized P ok ps \<Longrightarrow> pool_sized P ok (ps\<lparr>pl_settledWindows := k, pl_tputWindows := ws\<rparr>)"
  by (simp_all add: pool_sized_def)

lemma trial_window_ok:
  assumes "i < length (tn_pools t)" "pl_trial (tn_pools t ! i) \<noteq> NoTrial"
    and "pool_sized P ok (tn_pools t ! i)" "trial_age cfg 1 (tn_pools t ! i)"
  shows "\<exists>ps. tn_pools (trial_window cfg P tput i t) = (tn_pools t)[i := ps] \<and> pool_sized P ok ps \<and> trial_age cfg 0 ps \<and>
    (pl_trial ps = NoTrial \<or> pl_windowsSinceChange ps = pl_windowsSinceChange (tn_pools t ! i))"
proof -
  let ?ps = "tn_pools t ! i"
  consider (wait) "pl_settledWindows ?ps = 0" "\<not> ep_Settled P (pl_pool ?ps)" "pl_windowsSinceChange ?ps < tc_maxSettleWindows cfg"
    | (idle) "\<not> (pl_settledWindows ?ps = 0 \<and> \<not> ep_Settled P (pl_pool ?ps) \<and> pl_windowsSinceChange ?ps < tc_maxSettleWindows cfg)" "tput \<le> 0"
    | (load) "\<not> (pl_settledWindows ?ps = 0 \<and> \<not> ep_Settled P (pl_pool ?ps) \<and> pl_windowsSinceChange ?ps < tc_maxSettleWindows cfg)" "\<not> tput \<le> 0"
    by (cases "pl_settledWindows ?ps = 0 \<and> \<not> ep_Settled P (pl_pool ?ps) \<and> pl_windowsSinceChange ?ps < tc_maxSettleWindows cfg";
        cases "tput \<le> 0") auto
  then show ?thesis
  proof cases
    case wait
    then have "trial_window cfg P tput i t = t" by (simp add: trial_window_def Let_def)
    moreover have "trial_age cfg 0 ?ps" using wait assms(4) by (simp add: trial_age_def)
    ultimately show ?thesis using assms(3) by (intro exI [of _ ?ps]) simp
  next
    case idle
    let ?a = "?ps\<lparr>pl_tputWindows := [], pl_settledWindows := 0\<rparr>"
    let ?b = "if pl_windowsSinceChange ?ps > tc_maxSettleWindows cfg then abandon P ?a else ?a"
    have "tn_pools (trial_window cfg P tput i t) = (tn_pools t)[i := ?b]"
      unfolding trial_window_def Let_def if_not_P [OF idle(1)] if_P [OF idle(2)] by simp
    moreover have "pool_sized P ok ?b" using abandon_ok [of ?a] sized_fields(1) [OF assms(3)] assms(2) by simp
    moreover have "trial_age cfg 0 ?b" using assms(4) by (simp add: trial_age_def abandon_ends)
    moreover have "pl_trial ?b = NoTrial \<or> pl_windowsSinceChange ?b = pl_windowsSinceChange ?ps"
      by (simp add: abandon_ends judge_ends)
    ultimately show ?thesis by blast
  next
    case load
    let ?a = "?ps\<lparr>pl_settledWindows := pl_settledWindows ?ps + 1\<rparr>"
    let ?b = "?a\<lparr>pl_tputWindows := pl_tputWindows ?ps @ [tput]\<rparr>"
    let ?c = "if pl_settledWindows ?ps + 1 > tc_settleWindows cfg then
        if length (pl_tputWindows ?ps) + 1 \<ge> pl_measure ?ps then judge cfg P (median (pl_tputWindows ?ps @ [tput])) ?b else ?b
      else ?a"
    have "tn_pools (trial_window cfg P tput i t) = (tn_pools t)[i := ?c]"
      unfolding trial_window_def Let_def if_not_P [OF load(1)] if_not_P [OF load(2)] by simp
    moreover have "pool_sized P ok ?c"
      using judge_ok [of ?b] sized_fields(2,3) [OF assms(3)] assms(2) by simp
    moreover have "trial_age cfg 0 ?c" using assms(2,4) by (auto simp: trial_age_def judge_ends)
    moreover have "pl_trial ?c = NoTrial \<or> pl_windowsSinceChange ?c = pl_windowsSinceChange ?ps"
      by (simp add: abandon_ends judge_ends)
    ultimately show ?thesis by blast
  qed
qed

lemma start_next_ok:
  assumes "\<forall>ps\<in>set (tn_pools t). pool_sized P ok ps \<and> pl_trial ps = NoTrial"
  shows "tuner_inv cfg P ok (start_next cfg P t)"
proof -
  have one: "tuner_inv cfg P ok t'"
    if "i < length (tn_pools t)" "startTrial cfg P t (tn_pools t ! i) = Some ps" "tn_pools t' = (tn_pools t)[i := ps]" for i ps t'
    using assms that startTrial_ok [OF that(2)] one_trial_start [of "tn_pools t" i ps] set_update_subset_insert [of "tn_pools t" i ps]
    by (auto simp: tuner_inv_def trial_age_def)
  have none: "tuner_inv cfg P ok t" using assms by (auto simp: tuner_inv_def trial_age_def one_trial_def)
  let ?n = "length (tn_pools t)"
  let ?a = "first_start cfg P t (\<lambda>ps. hasMomentum P ps \<and> pl_windowsSinceChange ps \<ge> 1) [0..<?n]"
  let ?b = "first_start cfg P t (\<lambda>ps. pl_windowsSinceChange ps \<ge> 2) (map (\<lambda>i. (tn_nextPool t + i) mod ?n) [0..<?n])"
  show ?thesis
  proof (cases "length (tn_steadyRecent t) < kLevelWindows \<or> still_moving cfg P t")
    case True
    then show ?thesis using none unfolding start_next_def Let_def by simp
  next
    case go: False
    show ?thesis
    proof (cases ?a)
      case (Some x)
      obtain i ps where x: "x = (i, ps)" by fastforce
      have "start_next cfg P t = set_pool i ps t" using go Some unfolding start_next_def Let_def by (simp add: x)
      then show ?thesis using first_start_Some [OF Some [unfolded x]] by (auto intro: one)
    next
      case a: None
      show ?thesis
      proof (cases ?b)
        case None
        have "start_next cfg P t = t" using go a None unfolding start_next_def Let_def by simp
        then show ?thesis using none by simp
      next
        case (Some x)
        obtain i ps where x: "x = (i, ps)" by fastforce
        have "start_next cfg P t = (set_pool i ps t)\<lparr>tn_nextPool := (i + 1) mod ?n\<rparr>"
          using go a Some unfolding start_next_def Let_def by (simp add: x)
        moreover have "i < ?n" "startTrial cfg P t (tn_pools t ! i) = Some ps"
          using first_start_Some [OF Some [unfolded x]] by (auto intro!: mod_less_divisor)
        ultimately show ?thesis by (auto intro: one)
      qed
    qed
  qed
qed

lemma decide_ok:
  assumes I: "tuner_inv cfg P ok t"
  shows "tuner_inv cfg P ok (decide cfg P tput t) \<and>
    (trial_at w t \<longrightarrow> no_trial (decide cfg P tput t) \<or> trial_at (w + 1) (decide cfg P tput t))"
proof -
  define steady where "steady = list_all (\<lambda>ps. pl_trial ps = NoTrial) (tn_pools t)"
  define t1 where "t1 = (if steady then note_steady cfg tput t else t)"
  define t2 where "t2 = t1\<lparr>tn_pools := map (closeWindow cfg tput steady) (tn_pools t1)\<rparr>"
  have pools: "tn_pools t2 = map (closeWindow cfg tput steady) (tn_pools t)" by (simp add: t2_def t1_def)
  have each: "pool_sized P ok ps \<and> trial_age cfg 1 ps" if "ps \<in> set (tn_pools t2)" for ps
    using that I unfolding pools tuner_inv_def by (auto intro: closeWindow_ok(1) closeWindow_ok(2) [unfolded One_nat_def])
  have ones: "one_trial (tn_pools t2)" using I by (simp add: pools tuner_inv_def one_trial_def closeWindow_ok(3))
  have D: "decide cfg P tput t = (case first_trial (tn_pools t2) 0 of
      Some i \<Rightarrow> trial_window cfg P tput i t2 | None \<Rightarrow> start_next cfg P t2)"
    by (simp only: decide_def Let_def steady_def t1_def t2_def)
  show ?thesis
  proof (cases "first_trial (tn_pools t2) 0")
    case None
    then have "tuner_inv cfg P ok (start_next cfg P t2)" using each first_trial_None by (intro start_next_ok) blast
    moreover have "\<not> trial_at w t"
    proof
      assume "trial_at w t"
      then obtain ps where "ps \<in> set (tn_pools t)" "pl_trial ps \<noteq> NoTrial" by (auto simp: trial_at_def)
      then show False using first_trial_None [OF None, of "closeWindow cfg tput steady ps"]
        by (simp add: pools closeWindow_ok(3))
    qed
    ultimately show ?thesis by (simp add: D None)
  next
    case (Some i)
    then have i: "i < length (tn_pools t2)" "pl_trial (tn_pools t2 ! i) \<noteq> NoTrial" using first_trial_Some by fastforce+
    from trial_window_ok [OF this] each nth_mem [OF i(1)] obtain ps where
      ps: "tn_pools (trial_window cfg P tput i t2) = (tn_pools t2)[i := ps]" "pool_sized P ok ps" "trial_age cfg 0 ps"
      "pl_trial ps = NoTrial \<or> pl_windowsSinceChange ps = pl_windowsSinceChange (tn_pools t2 ! i)" by blast
    have "trial_age cfg 0 qs" if "qs \<in> set ((tn_pools t2)[i := ps])" for qs
    proof -
      obtain j where j: "j < length (tn_pools t2)" "qs = (tn_pools t2)[i := ps] ! j" using \<open>qs \<in> _\<close> by (auto simp: in_set_conv_nth)
      show ?thesis
      proof (cases "j = i")
        case True
        then show ?thesis using j ps by simp
      next
        case False
        then have "pl_trial (tn_pools t2 ! j) = NoTrial" using ones i j(1) by (auto simp: one_trial_def)
        then show ?thesis using j False by (simp add: trial_age_def)
      qed
    qed
    moreover have "pool_sized P ok qs" if "qs \<in> set ((tn_pools t2)[i := ps])" for qs
      using that each ps(2) set_update_subset_insert [of "tn_pools t2" i ps] by blast
    ultimately have "tuner_inv cfg P ok (decide cfg P tput t)"
      using ps(1) one_trial_update [OF ones i] by (simp add: D Some tuner_inv_def)
    moreover have "no_trial (decide cfg P tput t) \<or> trial_at (w + 1) (decide cfg P tput t)" if "trial_at w t"
    proof -
      have others: "pl_trial (tn_pools t2 ! j) = NoTrial" if "j < length (tn_pools t2)" "j \<noteq> i" for j
        using ones i that by (auto simp: one_trial_def)
      have w: "pl_windowsSinceChange (tn_pools t2 ! i) = w + 1"
      proof -
        obtain j where j: "j < length (tn_pools t)" "pl_trial (tn_pools t ! j) \<noteq> NoTrial" "pl_windowsSinceChange (tn_pools t ! j) = w"
          using \<open>trial_at w t\<close> by (auto simp: trial_at_def in_set_conv_nth)
        then have "j = i" using others [of j] by (auto simp: pools closeWindow_ok(3))
        then show ?thesis using j by (simp add: pools closeWindow_def Let_def)
      qed
      show ?thesis
      proof (cases "pl_trial ps = NoTrial")
        case True
        have "pl_trial qs = NoTrial" if qs: "qs \<in> set ((tn_pools t2)[i := ps])" for qs
        proof -
          obtain j where "j < length (tn_pools t2)" "qs = (tn_pools t2)[i := ps] ! j" using qs by (auto simp: in_set_conv_nth)
          then show ?thesis using others [of j] True by (cases "j = i") simp_all
        qed
        then show ?thesis using ps(1) by (simp add: D Some no_trial_def)
      next
        case False
        then have "ps \<in> set (tn_pools (decide cfg P tput t))" "pl_windowsSinceChange ps = w + 1"
          using ps(1,4) w i(1) by (auto simp: D Some set_update_memI)
        then show ?thesis using False by (auto simp: trial_at_def)
      qed
    qed
    ultimately show ?thesis by blast
  qed
qed

lemma sample_pool_ok:
  assumes "pool_sized P ok ps"
  shows "pool_sized P ok (sample_pool P w ps)"
  using assms reap [of "pl_pool ps"] sample [of "ep_Reap P (pl_pool ps)" w]
  by (auto simp: sample_pool_def pool_sized_def Let_def split: prod.splits)

lemma sample_inv:
  assumes "tuner_inv cfg P ok t"
  shows "tuner_inv cfg P ok (tuner_sample P w t)"
proof -
  have same: "pl_trial (sample_pool P w ps) = pl_trial ps" "trial_age cfg 0 (sample_pool P w ps) = trial_age cfg 0 ps" for ps
    by (auto simp: sample_pool_def trial_age_def split: prod.splits)
  then show ?thesis using assms
    by (auto simp: tuner_inv_def tuner_sample_def one_trial_def intro: sample_pool_ok)
qed

lemma event_ok:
  assumes "tuner_inv cfg P ok t"
  shows "tuner_inv cfg P ok (tuner_react cfg P t e)"
proof (cases e)
  case (Decided x)
  have "tuner_inv cfg P ok (t\<lparr>tn_lastTput := x\<rparr>)" using assms by (simp add: tuner_inv_def)
  then show ?thesis using decide_ok Decided by simp
qed (use assms sample_inv in simp)

lemma events_ok: "tuner_inv cfg P ok t \<Longrightarrow> tuner_inv cfg P ok (foldl (tuner_react cfg P) t es)"
  by (induction es arbitrary: t) (auto intro: event_ok)

lemma trial_at_bound: "tuner_inv cfg P ok t \<Longrightarrow> trial_at w t \<Longrightarrow> w \<le> trial_bound cfg"
  by (fastforce simp: tuner_inv_def trial_at_def trial_age_def trial_bound_def)

lemma trial_over:
  assumes "tuner_inv cfg P ok t" "trial_at w t" "trial_bound cfg < w + length xs"
  shows "\<exists>k\<le>length xs. no_trial (foldl (tuner_react cfg P) t (map Decided (take k xs)))"
  using assms
proof (induction xs arbitrary: t w)
  case Nil
  then show ?case using trial_at_bound by fastforce
next
  case (Cons x xs)
  let ?t = "t\<lparr>tn_lastTput := x\<rparr>"
  have t: "tuner_inv cfg P ok ?t" "trial_at w ?t" using Cons.prems by (auto simp: tuner_inv_def trial_at_def)
  from decide_ok [OF t(1), of x w] t(2) consider "no_trial (decide cfg P x ?t)" | "trial_at (w + 1) (decide cfg P x ?t)" by blast
  then show ?case
  proof cases
    case 1
    then show ?thesis by (intro exI [of _ 1]) simp
  next
    case 2
    have "tuner_inv cfg P ok (decide cfg P x ?t)" using decide_ok [OF t(1)] by blast
    from Cons.IH [OF this 2] Cons.prems(3) obtain k where
      "k \<le> length xs" "no_trial (foldl (tuner_react cfg P) (decide cfg P x ?t) (map Decided (take k xs)))" by auto
    then show ?thesis by (intro exI [of _ "Suc k"]) simp
  qed
qed

lemma trials_end:
  assumes "tuner_inv cfg P ok t" "trial_bound cfg < length xs"
  shows "\<exists>k\<le>length xs. no_trial (foldl (tuner_react cfg P) t (map Decided (take k xs)))"
proof (cases "no_trial t")
  case True
  then show ?thesis by (intro exI [of _ 0]) simp
next
  case False
  then obtain w where "trial_at w t" by (auto simp: no_trial_def trial_at_def)
  then show ?thesis using trial_over [OF assms(1)] assms(2) by simp
qed

end

end
