(* ===== verification/Io_Pool.thy ===== *)
theory Io_Pool
  imports Thread_Tuner "HOL-Library.Multiset"
begin

text \<open>
  The event loops, the connections on them and the pool the tuner sizes (\<^verbatim>\<open>server/iothread.h\<close>,
  \<^verbatim>\<open>server/server.cc\<close>, the migration part of \<^verbatim>\<open>server/connection.cc\<close>). Loops and connections are
  addresses into two heaps; what a loop has been posted and has not run yet is kept in one list for
  all loops, in posting order. The operations of the tuner thread, a posted closure and a
  connection callback are each one step. The counters are integers, as the source's \<open>int\<close>.
\<close>

type_synonym tid = nat
type_synonym cid = nat

subsection \<open>A loop's mailbox\<close>

record 'm Mailbox =
  mb_mail :: "'m list"
  mb_hasMail :: bool
  mb_wakes :: nat        \<comment> \<open>calls of \<open>SchedulePump\<close> posted to the event base\<close>
  mb_pump :: bool        \<comment> \<open>the pump is scheduled as a loop callback\<close>

definition empty_mailbox :: "'m Mailbox" where
  "empty_mailbox = \<lparr>mb_mail = [], mb_hasMail = False, mb_wakes = 0, mb_pump = False\<rparr>"

definition mb_post :: "'m \<Rightarrow> 'm Mailbox \<Rightarrow> 'm Mailbox" where
  "mb_post fn b = (let first = mb_mail b = [] in
     b\<lparr>mb_mail := mb_mail b @ [fn], mb_hasMail := True, mb_wakes := (if first then mb_wakes b + 1 else mb_wakes b)\<rparr>)"

definition SchedulePump :: "'m Mailbox \<Rightarrow> 'm Mailbox" where
  "SchedulePump b = (if mb_pump b then b else b\<lparr>mb_pump := True\<rparr>)"

text \<open>The event base runs one posted call; the pump takes the whole mailbox.\<close>

definition wake_runs :: "'m Mailbox \<Rightarrow> 'm Mailbox" where
  "wake_runs b = (if mb_wakes b > 0 then SchedulePump (b\<lparr>mb_wakes := mb_wakes b - 1\<rparr>) else b)"

definition pump_runs :: "'m Mailbox \<Rightarrow> 'm list \<times> 'm Mailbox" where
  "pump_runs b = (if mb_pump b then (mb_mail b, b\<lparr>mb_mail := [], mb_hasMail := False, mb_pump := False\<rparr>) else ([], b))"

text \<open>A read event looks at the flag and schedules the pump itself.\<close>

definition read_event :: "'m Mailbox \<Rightarrow> 'm Mailbox" where
  "read_event b = (if mb_hasMail b then SchedulePump b else b)"

subsection \<open>Loops and connections\<close>

record IOThread =
  io_retiring :: bool
  io_connCount :: int
  io_pending :: int
  io_emptyTicks :: nat
  io_holds :: int
  io_conns :: "cid list"
  io_lastCpuNs :: u64

definition new_io :: "u64 \<Rightarrow> IOThread" where
  "new_io cpu = \<lparr>io_retiring = False, io_connCount = 0, io_pending = 0, io_emptyTicks = 0, io_holds = 0,
     io_conns = [], io_lastCpuNs = cpu\<rparr>"

definition io_load :: "IOThread \<Rightarrow> int" where
  "io_load t = io_connCount t + io_pending t"

definition io_reserve :: "IOThread \<Rightarrow> IOThread" where
  "io_reserve t = t\<lparr>io_pending := io_pending t + 1\<rparr>"

definition io_unreserve :: "IOThread \<Rightarrow> IOThread" where
  "io_unreserve t = t\<lparr>io_pending := io_pending t - 1\<rparr>"

definition io_hold :: "IOThread \<Rightarrow> IOThread" where
  "io_hold t = t\<lparr>io_holds := io_holds t + 1\<rparr>"

definition io_release :: "IOThread \<Rightarrow> IOThread" where
  "io_release t = t\<lparr>io_holds := io_holds t - 1\<rparr>"

definition io_add :: "cid \<Rightarrow> IOThread \<Rightarrow> IOThread" where
  "io_add c t = t\<lparr>io_conns := io_conns t @ [c], io_connCount := io_connCount t + 1, io_pending := io_pending t - 1\<rparr>"

text \<open>Removing swaps the last connection into the place of the removed one.\<close>

fun swap_remove :: "cid \<Rightarrow> cid list \<Rightarrow> cid list" where
  "swap_remove c [] = []"
| "swap_remove c (x # xs) = (if x = c then (if xs = [] then [] else last xs # butlast xs) else x # swap_remove c xs)"

definition io_remove :: "cid \<Rightarrow> IOThread \<Rightarrow> IOThread" where
  "io_remove c t = (if c \<in> set (io_conns t)
     then t\<lparr>io_conns := swap_remove c (io_conns t), io_connCount := io_connCount t - 1\<rparr> else t)"

record Conn =
  cn_owner :: "tid option"
  cn_target :: "tid option"
  cn_migrating :: bool
  cn_closing :: bool

definition new_conn :: Conn where
  "new_conn = \<lparr>cn_owner = None, cn_target = None, cn_migrating = False, cn_closing = False\<rparr>"

datatype mail = Accept cid | Attach cid | Migrate "tid list"

record Server =
  sv_ids :: "tid list"               \<comment> \<open>\<open>ioThreads_\<close>, in order\<close>
  sv_io :: "tid \<Rightarrow> IOThread"
  sv_conns :: "cid list"             \<comment> \<open>connections that exist\<close>
  sv_conn :: "cid \<Rightarrow> Conn"
  sv_mail :: "(tid \<times> mail) list"     \<comment> \<open>posted and not yet run, oldest first\<close>
  sv_cpu :: "tid \<Rightarrow> u64"             \<comment> \<open>what the loops' CPU clocks read\<close>
  sv_avgLoop :: "tid \<Rightarrow> real"

definition set_thread :: "tid \<Rightarrow> (IOThread \<Rightarrow> IOThread) \<Rightarrow> Server \<Rightarrow> Server" where
  "set_thread t f s = s\<lparr>sv_io := (sv_io s)(t := f (sv_io s t))\<rparr>"

definition set_conn :: "cid \<Rightarrow> (Conn \<Rightarrow> Conn) \<Rightarrow> Server \<Rightarrow> Server" where
  "set_conn c f s = s\<lparr>sv_conn := (sv_conn s)(c := f (sv_conn s c))\<rparr>"

definition post_mail :: "tid \<Rightarrow> mail \<Rightarrow> Server \<Rightarrow> Server" where
  "post_mail t m s = s\<lparr>sv_mail := sv_mail s @ [(t, m)]\<rparr>"

abbreviation load_of :: "Server \<Rightarrow> tid \<Rightarrow> int" where "load_of s t \<equiv> io_load (sv_io s t)"

definition live_ids :: "Server \<Rightarrow> tid list" where
  "live_ids s = filter (\<lambda>t. \<not> io_retiring (sv_io s t)) (sv_ids s)"

definition fresh_id :: "Server \<Rightarrow> tid" where
  "fresh_id s = Suc (Max (insert 0 (set (sv_ids s))))"

definition addIOThread :: "Server \<Rightarrow> Server" where
  "addIOThread s = (let t = fresh_id s in
     s\<lparr>sv_ids := sv_ids s @ [t], sv_io := (sv_io s)(t := new_io (sv_cpu s t))\<rparr>)"

text \<open>The first of the loops with the smallest load, as \<open>std::min_element\<close> and the scan of \<open>pickIOThread\<close>.\<close>

fun min_load :: "('t \<Rightarrow> int) \<Rightarrow> 't list \<Rightarrow> 't option" where
  "min_load f [] = None"
| "min_load f (t # ts) = (case min_load f ts of None \<Rightarrow> Some t | Some u \<Rightarrow> if f u < f t then Some u else Some t)"

definition pickIOThread :: "Server \<Rightarrow> tid option \<times> Server" where
  "pickIOThread s = (case min_load (load_of s) (live_ids s) of
     None \<Rightarrow> (None, s)
   | Some t \<Rightarrow> (Some t, set_thread t io_reserve s))"

text \<open>The accept loop hands a new connection to a loop, or closes it at once.\<close>

definition accept_conn :: "cid \<Rightarrow> Server \<Rightarrow> Server" where
  "accept_conn c s = (case pickIOThread s of (None, s) \<Rightarrow> s | (Some t, s) \<Rightarrow> post_mail t (Accept c) s)"

subsection \<open>Connections moving between loops\<close>

definition start_conn :: "cid \<Rightarrow> tid \<Rightarrow> Server \<Rightarrow> Server" where
  "start_conn c t s = set_thread t (io_add c)
     (s\<lparr>sv_conns := sv_conns s @ [c], sv_conn := (sv_conn s)(c := new_conn\<lparr>cn_owner := Some t\<rparr>)\<rparr>)"

definition drop_target :: "cid \<Rightarrow> Server \<Rightarrow> Server" where
  "drop_target c s = (case cn_target (sv_conn s c) of
     None \<Rightarrow> s
   | Some t \<Rightarrow> set_conn c (\<lambda>x. x\<lparr>cn_target := None\<rparr>) (set_thread t io_unreserve s))"

definition leave_owner :: "cid \<Rightarrow> Server \<Rightarrow> Server" where
  "leave_owner c s = (case cn_owner (sv_conn s c) of
     None \<Rightarrow> s
   | Some t \<Rightarrow> set_conn c (\<lambda>x. x\<lparr>cn_owner := None\<rparr>) (set_thread t (io_remove c) s))"

definition destroy_conn :: "cid \<Rightarrow> Server \<Rightarrow> Server" where
  "destroy_conn c s = (if cn_closing (sv_conn s c) then s else
     let s1 = set_conn c (\<lambda>x. x\<lparr>cn_closing := True\<rparr>) s;
         s2 = (if cn_migrating (sv_conn s1 c) then drop_target c s1 else s1)
     in leave_owner c (set_conn c (\<lambda>x. x\<lparr>cn_migrating := False\<rparr>) s2))"

definition migrateTo :: "cid \<Rightarrow> tid \<Rightarrow> Server \<Rightarrow> bool \<times> Server" where
  "migrateTo c t s = (let x = sv_conn s c in
     if cn_closing x \<or> cn_migrating x \<or> cn_owner x = Some t then (False, s)
     else (True, set_conn c (\<lambda>x. x\<lparr>cn_migrating := True, cn_target := Some t\<rparr>) s))"

text \<open>The check of a migrating connection; \<open>quiescent\<close> says that no request, no response and no write
  of it is in flight.\<close>

definition tryFinishMigrate :: "bool \<Rightarrow> cid \<Rightarrow> Server \<Rightarrow> Server" where
  "tryFinishMigrate quiescent c s = (let x = sv_conn s c in
     if \<not> cn_migrating x then s
     else if cn_closing x then drop_target c (set_conn c (\<lambda>x. x\<lparr>cn_migrating := False\<rparr>) s)
     else if \<not> quiescent then s
     else case cn_target x of None \<Rightarrow> s | Some t \<Rightarrow>
       post_mail t (Attach c) (set_conn c (\<lambda>x. x\<lparr>cn_target := None\<rparr>) (leave_owner c s)))"

definition finishAttach :: "cid \<Rightarrow> tid \<Rightarrow> Server \<Rightarrow> Server" where
  "finishAttach c t s = set_conn c (\<lambda>x. x\<lparr>cn_owner := Some t, cn_migrating := False\<rparr>) (set_thread t (io_add c) s)"

text \<open>A posted migration plan: one connection per destination, unused reservations given back.\<close>

fun migrate_each :: "cid list \<Rightarrow> tid list \<Rightarrow> Server \<Rightarrow> tid list \<times> Server" where
  "migrate_each [] ds s = (ds, s)"
| "migrate_each (c # cs) [] s = ([], s)"
| "migrate_each (c # cs) (d # ds) s = (case migrateTo c d s of
     (True, s') \<Rightarrow> migrate_each cs ds s' | (False, _) \<Rightarrow> migrate_each cs (d # ds) s)"

definition run_migrations :: "tid \<Rightarrow> tid list \<Rightarrow> Server \<Rightarrow> Server" where
  "run_migrations t ds s = (case migrate_each (io_conns (sv_io s t)) ds s of
     (rest, s') \<Rightarrow> foldl (\<lambda>s d. set_thread d io_unreserve s) s' rest)"

definition run_mail :: "tid \<Rightarrow> mail \<Rightarrow> Server \<Rightarrow> Server" where
  "run_mail t m s = (case m of Accept c \<Rightarrow> start_conn c t s | Attach c \<Rightarrow> finishAttach c t s
     | Migrate ds \<Rightarrow> run_migrations t ds s)"

definition postMigrations :: "tid \<Rightarrow> tid list \<Rightarrow> Server \<Rightarrow> Server" where
  "postMigrations t ds s = (if ds = [] then s else post_mail t (Migrate ds) s)"

subsection \<open>The pool\<close>

fun planMoves :: "nat \<Rightarrow> tid list \<Rightarrow> int option \<Rightarrow> Server \<Rightarrow> tid list \<times> Server" where
  "planMoves 0 to fillTo s = ([], s)"
| "planMoves (Suc k) to fillTo s = (case min_load (load_of s) to of
     None \<Rightarrow> ([], s)
   | Some d \<Rightarrow> if (case fillTo of None \<Rightarrow> False | Some m \<Rightarrow> load_of s d \<ge> m) then ([], s)
       else case planMoves k to fillTo (set_thread d io_reserve s) of (ds, s') \<Rightarrow> (d # ds, s'))"

definition max_index :: "int list \<Rightarrow> nat" where
  "max_index ls = the (min_load (\<lambda>i. - (ls ! i)) [0..<length ls])"

definition min_index :: "int list \<Rightarrow> nat" where
  "min_index ls = the (min_load (\<lambda>i. ls ! i) [0..<length ls])"

lemma min_load_Some:
  "ts \<noteq> [] \<Longrightarrow> \<exists>t. min_load f ts = Some t \<and> t \<in> set ts \<and> (\<forall>u\<in>set ts. f t \<le> f u)"
proof (induction ts)
  case (Cons t ts)
  then show ?case by (cases "ts = []") fastforce+
qed simp

lemma min_loadD: "min_load f ts = Some t \<Longrightarrow> t \<in> set ts \<and> (\<forall>u\<in>set ts. f t \<le> f u)"
  using min_load_Some [of ts f] by (cases ts) auto

lemma max_index_ok: "ls \<noteq> [] \<Longrightarrow> max_index ls < length ls \<and> (\<forall>i<length ls. ls ! i \<le> ls ! max_index ls)"
  using min_load_Some [of "[0..<length ls]" "\<lambda>i. - (ls ! i)"] by (force simp: max_index_def)

lemma min_index_ok: "ls \<noteq> [] \<Longrightarrow> min_index ls < length ls \<and> (\<forall>i<length ls. ls ! min_index ls \<le> ls ! i)"
  using min_load_Some [of "[0..<length ls]" "\<lambda>i. ls ! i"] by (force simp: min_index_def)

definition sum_sq :: "int list \<Rightarrow> int" where "sum_sq ls = (\<Sum>x\<leftarrow>ls. x * x)"

lemma sum_sq_nonneg: "0 \<le> sum_sq ls"
  by (induction ls) (auto simp: sum_sq_def)

lemma sum_list_put: "i < length ls \<Longrightarrow> sum_list (ls[i := x]) = sum_list ls + x - ls ! i"
  for ls :: "int list"
  by (induction ls arbitrary: i) (auto split: nat.splits)

lemma sum_sq_update: "i < length ls \<Longrightarrow> sum_sq (ls[i := x]) = sum_sq ls + x * x - ls ! i * ls ! i"
  by (simp add: sum_sq_def map_update sum_list_put)

lemma level_step:
  assumes "d < length ls" "r < length ls" "1 < ls ! d - ls ! r"
  shows "sum_sq (ls[d := ls ! d - 1, r := ls ! r + 1]) < sum_sq ls"
    and "sum_list (ls[d := ls ! d - 1, r := ls ! r + 1]) = sum_list ls"
proof -
  have "d \<noteq> r" using assms(3) by auto
  then show "sum_sq (ls[d := ls ! d - 1, r := ls ! r + 1]) < sum_sq ls"
    using assms by (simp add: sum_sq_update algebra_simps)
  show "sum_list (ls[d := ls ! d - 1, r := ls ! r + 1]) = sum_list ls"
    using assms \<open>d \<noteq> r\<close> by (simp add: sum_list_put)
qed

text \<open>The moves that level the loads, from the fullest to the emptiest loop, until they are within one.\<close>

function (sequential) level_moves :: "int list \<Rightarrow> (nat \<times> nat) list \<times> int list" where
  "level_moves ls = (let d = max_index ls; r = min_index ls in
     if length ls < 2 \<or> ls ! d - ls ! r \<le> 1 then ([], ls)
     else case level_moves (ls[d := ls ! d - 1, r := ls ! r + 1]) of (ms, fin) \<Rightarrow> ((d, r) # ms, fin))"
  by pat_completeness auto

termination
proof (relation "measure (\<lambda>ls. nat (sum_sq ls))")
  fix ls :: "int list" and d r
  assume d: "d = max_index ls" and r: "r = min_index ls" and c: "\<not> (length ls < 2 \<or> ls ! d - ls ! r \<le> 1)"
  have "ls \<noteq> []" using c by auto
  then have "sum_sq (ls[d := ls ! d - 1, r := ls ! r + 1]) < sum_sq ls"
    using max_index_ok min_index_ok c d r by (intro level_step(1)) auto
  then show "(ls[d := ls ! d - 1, r := ls ! r + 1], ls) \<in> measure (\<lambda>ls. nat (sum_sq ls))"
    using sum_sq_nonneg [of "ls[d := ls ! d - 1, r := ls ! r + 1]"] by simp
qed simp

declare level_moves.simps [simp del]

definition dests_of :: "tid list \<Rightarrow> (nat \<times> nat) list \<Rightarrow> nat \<Rightarrow> tid list" where
  "dests_of live ms i = map (\<lambda>(d, r). live ! r) (filter (\<lambda>(d, r). d = i) ms)"

definition rebalance :: "Server \<Rightarrow> Server" where
  "rebalance s = (let live = live_ids s in
     if length live < 2 then s
     else let ms = fst (level_moves (map (load_of s) live));
              s1 = foldl (\<lambda>s (d, r). set_thread (live ! r) io_reserve s) s ms
          in foldl (\<lambda>s i. postMigrations (live ! i) (dests_of live ms i) s) s1 [0..<length live])"

definition pool_Size :: "Server \<Rightarrow> nat" where
  "pool_Size s = length (live_ids s)"

definition pool_Grow :: "nat \<Rightarrow> Server \<Rightarrow> Server" where
  "pool_Grow n s = rebalance ((addIOThread ^^ n) s)"

definition retire :: "tid \<Rightarrow> Server \<Rightarrow> Server" where
  "retire t s = set_thread t (\<lambda>x. x\<lparr>io_retiring := True, io_emptyTicks := 0\<rparr>) s"

definition drain_to :: "tid list \<Rightarrow> Server \<Rightarrow> tid \<Rightarrow> Server" where
  "drain_to remaining s t = (case planMoves (nat (load_of s t)) remaining None s of (ds, s') \<Rightarrow> postMigrations t ds s')"

definition pool_Shrink :: "nat \<Rightarrow> Server \<Rightarrow> Server" where
  "pool_Shrink n0 s = (let live = live_ids s in
     if length live \<le> 1 then s
     else let n = min n0 (length live - 1);
              order = sort_key (load_of s) live;
              s1 = foldl (\<lambda>s t. retire t s) s (take n order)
          in foldl (drain_to (drop n order)) s1 (take n order))"

text \<open>What a tick of the reaper makes of a loop: keep it as it is, note that it is still in use, count
  an empty tick, or stop it.\<close>

datatype reap = Live | Stuck | Held | Waiting | Done

definition reap_class :: "IOThread \<Rightarrow> reap" where
  "reap_class t = (if \<not> io_retiring t then Live else if io_load t > 0 then Stuck
     else if io_holds t > 0 then Held else if io_emptyTicks t + 1 < 2 then Waiting else Done)"

definition reap_tick :: "IOThread \<Rightarrow> IOThread" where
  "reap_tick t = (case reap_class t of Live \<Rightarrow> t | Stuck \<Rightarrow> t\<lparr>io_emptyTicks := 0\<rparr> | Held \<Rightarrow> t\<lparr>io_emptyTicks := 0\<rparr>
     | Waiting \<Rightarrow> t\<lparr>io_emptyTicks := io_emptyTicks t + 1\<rparr> | Done \<Rightarrow> t)"

definition stop_done :: "Server \<Rightarrow> Server" where
  "stop_done s = (let stopped = filter (\<lambda>t. reap_class (sv_io s t) = Done) (sv_ids s) in
     s\<lparr>sv_ids := filter (\<lambda>t. t \<notin> set stopped) (sv_ids s),
       sv_io := (\<lambda>t. if t \<in> set (sv_ids s) then reap_tick (sv_io s t) else sv_io s t),
       sv_mail := filter (\<lambda>(t, m). t \<notin> set stopped) (sv_mail s)\<rparr>)"

definition pool_Reap :: "Server \<Rightarrow> Server" where
  "pool_Reap s = (let live = filter (\<lambda>t. reap_class (sv_io s t) = Live) (sv_ids s);
         stuck = filter (\<lambda>t. reap_class (sv_io s t) = Stuck) (sv_ids s); s1 = stop_done s in
     if live = [] \<or> (\<Sum>t\<leftarrow>live @ stuck. io_pending (sv_io s1 t)) > 0 then s1
     else let s2 = foldl (\<lambda>s t. case planMoves (nat (io_connCount (sv_io s t))) live None s of
                (ds, s') \<Rightarrow> postMigrations t ds s') s1 stuck
          in if stuck = [] then rebalance s2 else s2)"

definition pool_Settled :: "Server \<Rightarrow> bool" where
  "pool_Settled s = list_all (\<lambda>t. \<not> io_pending (sv_io s t) > 0 \<and>
     \<not> (io_retiring (sv_io s t) \<and> io_connCount (sv_io s t) > 0)) (sv_ids s)"

definition sample_thread :: "real \<Rightarrow> Server \<Rightarrow> PoolSample \<times> real \<Rightarrow> tid \<Rightarrow> PoolSample \<times> real" where
  "sample_thread wallSec s pa t = (case pa of (p, acc) \<Rightarrow>
     let cpu = sv_cpu s t; was = io_lastCpuNs (sv_io s t); d = (if cpu \<ge> was then cpu - was else 0);
         busy = (if wallSec > 0 then real (unat d) / (wallSec * 1000000000) else 0)
     in if io_retiring (sv_io s t) then (p, acc)
        else (p\<lparr>sp_busyMax := max (sp_busyMax p) busy, sp_size := sp_size p + 1,
               sp_threadBusy := sp_threadBusy p @ [busy], sp_threadLoad := sp_threadLoad p @ [load_of s t],
               sp_waitUs := max (sp_waitUs p) (sv_avgLoop s t)\<rparr>, acc + busy))"

definition pool_Sample :: "real \<Rightarrow> Server \<Rightarrow> PoolSample \<times> Server" where
  "pool_Sample wallSec s = (case foldl (sample_thread wallSec s) (no_sample, 0) (sv_ids s) of (p, acc) \<Rightarrow>
     (p\<lparr>sp_busyMean := (if sp_size p > 0 then acc / real (sp_size p) else 0)\<rparr>,
      s\<lparr>sv_io := (\<lambda>t. if t \<in> set (sv_ids s) then (sv_io s t)\<lparr>io_lastCpuNs := sv_cpu s t\<rparr> else sv_io s t)\<rparr>))"

definition IOPool :: "Server ElasticPool" where
  "IOPool = \<lparr>ep_Size = pool_Size, ep_Step = (\<lambda>s. 1), ep_Grow = pool_Grow, ep_Shrink = pool_Shrink,
     ep_Sample = pool_Sample, ep_Reap = pool_Reap, ep_Settled = pool_Settled\<rparr>"

subsection \<open>Levelling\<close>

lemma level_moves_ok:
  assumes "level_moves ls = (ms, fin)"
  shows "sum_list fin = sum_list ls \<and> length fin = length ls \<and>
    (\<forall>i<length ls. \<forall>j<length ls. fin ! i - fin ! j \<le> 1 \<or> length ls < 2) \<and>
    (\<forall>(d, r)\<in>set ms. d < length ls \<and> r < length ls \<and> d \<noteq> r) \<and>
    (\<forall>i<length ls. fin ! i = ls ! i - int (length (filter (\<lambda>(d, r). d = i) ms)) + int (length (filter (\<lambda>(d, r). r = i) ms)))"
  using assms
proof (induction ls arbitrary: ms fin rule: level_moves.induct)
  case (1 ls)
  define d r where "d = max_index ls" and "r = min_index ls"
  show ?case
  proof (cases "length ls < 2 \<or> ls ! d - ls ! r \<le> 1")
    case True
    then have e: "ms = []" "fin = ls" using "1.prems" by (subst (asm) level_moves.simps; simp add: Let_def d_def r_def)+
    have "ls ! i - ls ! j \<le> 1" if "i < length ls" "j < length ls" "\<not> length ls < 2" for i j
    proof -
      have "ls \<noteq> []" using that by auto
      then have "ls ! i \<le> ls ! d" "ls ! r \<le> ls ! j" using max_index_ok min_index_ok that by (auto simp: d_def r_def)
      then show ?thesis using True that by linarith
    qed
    then show ?thesis by (auto simp: e)
  next
    case False
    let ?ls = "ls[d := ls ! d - 1, r := ls ! r + 1]"
    obtain ms' where L: "level_moves ?ls = (ms', fin)" "ms = (d, r) # ms'"
      using "1.prems" False by (subst (asm) level_moves.simps) (auto simp: Let_def d_def [symmetric] r_def [symmetric] split: prod.splits)
    have "ls \<noteq> []" using False by auto
    then have dr: "d < length ls" "r < length ls" "d \<noteq> r" using max_index_ok min_index_ok False by (auto simp: d_def r_def)
    have IH: "sum_list fin = sum_list ?ls \<and> length fin = length ?ls \<and>
      (\<forall>i<length ?ls. \<forall>j<length ?ls. fin ! i - fin ! j \<le> 1 \<or> length ?ls < 2) \<and>
      (\<forall>(d, r)\<in>set ms'. d < length ?ls \<and> r < length ?ls \<and> d \<noteq> r) \<and>
      (\<forall>i<length ?ls. fin ! i = ?ls ! i - int (length (filter (\<lambda>(d, r). d = i) ms')) + int (length (filter (\<lambda>(d, r). r = i) ms')))"
      by (rule "1.IH" [OF d_def r_def False L(1)])
    then have a: "sum_list fin = sum_list ?ls" "length fin = length ls"
      "\<forall>i<length ls. \<forall>j<length ls. fin ! i - fin ! j \<le> 1 \<or> length ls < 2"
      "\<forall>(d, r)\<in>set ms'. d < length ls \<and> r < length ls \<and> d \<noteq> r"
      and net: "\<And>i. i < length ls \<Longrightarrow>
        fin ! i = ?ls ! i - int (length (filter (\<lambda>(d, r). d = i) ms')) + int (length (filter (\<lambda>(d, r). r = i) ms'))"
      by (simp_all only: length_list_update) blast+
    have s: "sum_list ?ls = sum_list ls" using level_step(2) [of d ls r] dr False by simp
    have n: "fin ! i = ls ! i - int (length (filter (\<lambda>(d, r). d = i) ms)) + int (length (filter (\<lambda>(d, r). r = i) ms))"
      if "i < length ls" for i
      using net [OF that] that dr by (cases "i = d"; cases "i = r") (simp_all add: L(2))
    show ?thesis
    proof (intro conjI)
      show "\<forall>(d, r)\<in>set ms. d < length ls \<and> r < length ls \<and> d \<noteq> r" using a(4) dr by (simp add: L(2))
      show "\<forall>i<length ls. fin ! i = ls ! i - int (length (filter (\<lambda>(d, r). d = i) ms)) + int (length (filter (\<lambda>(d, r). r = i) ms))"
        using n by blast
    qed (use a s in simp_all)
  qed
qed

subsection \<open>Reservations and ownership\<close>

text \<open>The reservations a posted closure stands for, and the connection it carries.\<close>

fun tokens :: "tid \<times> mail \<Rightarrow> tid multiset" where
  "tokens (t, Accept c) = {#t#}"
| "tokens (t, Attach c) = {#t#}"
| "tokens (t, Migrate ds) = mset ds"

fun carries :: "tid \<times> mail \<Rightarrow> cid list" where
  "carries (t, Accept c) = [c]"
| "carries (t, Attach c) = [c]"
| "carries (t, Migrate ds) = []"

definition headed :: "Server \<Rightarrow> tid \<Rightarrow> nat" where
  "headed s t = length (filter (\<lambda>c. cn_target (sv_conn s c) = Some t) (sv_conns s))"

definition arriving :: "Server \<Rightarrow> tid \<Rightarrow> nat" where
  "arriving s t = (\<Sum>x\<leftarrow>sv_mail s. count (tokens x) t) + headed s t"

definition moving :: "Server \<Rightarrow> cid list" where
  "moving s = concat (map carries (sv_mail s))"

definition owners_ok :: "Server \<Rightarrow> bool" where
  "owners_ok s \<longleftrightarrow> distinct (sv_ids s) \<and> distinct (sv_conns s) \<and>
     (\<forall>t\<in>set (sv_ids s). io_connCount (sv_io s t) = int (length (io_conns (sv_io s t))) \<and> distinct (io_conns (sv_io s t)) \<and>
        (\<forall>c. c \<in> set (io_conns (sv_io s t)) \<longleftrightarrow> c \<in> set (sv_conns s) \<and> cn_owner (sv_conn s c) = Some t)) \<and>
     (\<forall>c\<in>set (sv_conns s). \<forall>t. cn_owner (sv_conn s c) = Some t \<or> cn_target (sv_conn s c) = Some t \<longrightarrow> t \<in> set (sv_ids s)) \<and>
     (\<forall>c\<in>set (sv_conns s). cn_target (sv_conn s c) \<noteq> None \<longrightarrow> cn_migrating (sv_conn s c))"

definition mail_ok :: "Server \<Rightarrow> bool" where
  "mail_ok s \<longleftrightarrow> (\<forall>(t, m)\<in>set (sv_mail s). t \<in> set (sv_ids s) \<and> set_mset (tokens (t, m)) \<subseteq> set (sv_ids s)) \<and>
     distinct (moving s) \<and>
     (\<forall>t c. (t, Accept c) \<in> set (sv_mail s) \<longrightarrow> c \<notin> set (sv_conns s)) \<and>
     (\<forall>t c. (t, Attach c) \<in> set (sv_mail s) \<longrightarrow>
        c \<in> set (sv_conns s) \<and> cn_owner (sv_conn s c) = None \<and> cn_target (sv_conn s c) = None)"

text \<open>Every connection on its way to a loop, and every reservation \<open>H\<close> held by the operation in progress,
  is counted in the loop's \<open>pending\<close>.\<close>

definition res_ok :: "tid multiset \<Rightarrow> Server \<Rightarrow> bool" where
  "res_ok H s \<longleftrightarrow> set_mset H \<subseteq> set (sv_ids s) \<and>
     (\<forall>t\<in>set (sv_ids s). int (arriving s t + count H t) \<le> io_pending (sv_io s t))"

definition io_inv :: "tid multiset \<Rightarrow> Server \<Rightarrow> bool" where
  "io_inv H s \<longleftrightarrow> owners_ok s \<and> mail_ok s \<and> res_ok H s"

lemmas inv_defs = io_inv_def owners_ok_def mail_ok_def res_ok_def

text \<open>Two states that agree on ownership and connections.\<close>

lemma thread_fields [simp]:
  "sv_ids (set_thread t f s) = sv_ids s" "sv_conns (set_thread t f s) = sv_conns s" "sv_conn (set_thread t f s) = sv_conn s"
  "sv_mail (set_thread t f s) = sv_mail s" "sv_io (set_thread t f s) = (sv_io s)(t := f (sv_io s t))"
  "sv_ids (set_conn c g s) = sv_ids s" "sv_conns (set_conn c g s) = sv_conns s" "sv_io (set_conn c g s) = sv_io s"
  "sv_mail (set_conn c g s) = sv_mail s" "sv_conn (set_conn c g s) = (sv_conn s)(c := g (sv_conn s c))"
  "sv_ids (post_mail t m s) = sv_ids s" "sv_conns (post_mail t m s) = sv_conns s" "sv_io (post_mail t m s) = sv_io s"
  "sv_conn (post_mail t m s) = sv_conn s" "sv_mail (post_mail t m s) = sv_mail s @ [(t, m)]"
  by (simp_all add: set_thread_def set_conn_def post_mail_def)

lemma arriving_thread [simp]: "arriving (set_thread t f s) = arriving s" "moving (set_thread t f s) = moving s"
  by (auto simp: arriving_def moving_def headed_def)

lemma arriving_post [simp]:
  "arriving (post_mail t m s) u = arriving s u + count (tokens (t, m)) u"
  "moving (post_mail t m s) = moving s @ carries (t, m)"
  by (simp_all add: arriving_def moving_def headed_def)

lemma reserve_inv: "io_inv H s \<Longrightarrow> t \<in> set (sv_ids s) \<Longrightarrow> io_inv (add_mset t H) (set_thread t io_reserve s)"
  by (auto simp: inv_defs io_reserve_def)

lemma unreserve_inv: "io_inv (add_mset t H) s \<Longrightarrow> io_inv H (set_thread t io_unreserve s)"
  by (auto simp: inv_defs io_unreserve_def split: if_splits)

lemma quiet_thread_inv:
  assumes "\<And>x. io_connCount (f x) = io_connCount x" "\<And>x. io_pending (f x) = io_pending x" "\<And>x. io_conns (f x) = io_conns x"
  shows "io_inv H s \<Longrightarrow> io_inv H (set_thread t f s)"
  using assms by (auto simp: inv_defs)

lemma post_migrate_inv:
  "io_inv (mset ds + H) s \<Longrightarrow> t \<in> set (sv_ids s) \<Longrightarrow> io_inv H (post_mail t (Migrate ds) s)"
  by (auto simp: inv_defs ac_simps)

lemma take_mail_inv:
  assumes "io_inv H s" "sv_mail s = xs @ (t, m) # ys"
  shows "io_inv (tokens (t, m) + H) (s\<lparr>sv_mail := xs @ ys\<rparr>) \<and> t \<in> set (sv_ids s)"
proof -
  let ?s = "s\<lparr>sv_mail := xs @ ys\<rparr>"
  have "arriving s u = arriving ?s u + count (tokens (t, m)) u" for u
    by (simp add: arriving_def headed_def assms(2))
  moreover have "distinct (moving ?s)" using assms by (auto simp: inv_defs moving_def)
  ultimately show ?thesis using assms by (auto simp: inv_defs ac_simps)
qed

lemma swap_remove_ok:
  "distinct xs \<Longrightarrow> c \<in> set xs \<Longrightarrow>
    set (swap_remove c xs) = set xs - {c} \<and> distinct (swap_remove c xs) \<and> Suc (length (swap_remove c xs)) = length xs"
proof (induction c xs rule: swap_remove.induct)
  case (2 c x xs)
  show ?case
  proof (cases xs rule: rev_cases)
    case Nil
    then show ?thesis using "2.prems" by auto
  next
    case (snoc ys y)
    then show ?thesis using 2 by (cases "x = c") auto
  qed
qed simp

lemma filter_one:
  assumes "distinct xs" "c \<in> set xs" "\<And>x. x \<noteq> c \<Longrightarrow> Q x = P x"
  shows "length (filter Q xs) + (if P c then 1 else 0) = length (filter P xs) + (if Q c then 1 else 0)"
  using assms(1,2)
proof (induction xs)
  case (Cons x xs)
  show ?case
  proof (cases "x = c")
    case True
    then have "filter Q xs = filter P xs" using Cons.prems by (intro filter_cong refl assms(3)) auto
    then show ?thesis using True by simp
  next
    case False
    then show ?thesis using Cons assms(3) by auto
  qed
qed simp

lemma headed_set:
  assumes "distinct (sv_conns s)" "c \<in> set (sv_conns s)"
  shows "headed (set_conn c g s) t + (if cn_target (sv_conn s c) = Some t then 1 else 0) =
    headed s t + (if cn_target (g (sv_conn s c)) = Some t then 1 else 0)"
  using filter_one [OF assms, of "\<lambda>x. cn_target (sv_conn (set_conn c g s) x) = Some t" "\<lambda>x. cn_target (sv_conn s x) = Some t"]
  by (simp add: headed_def)

lemma arriving_conn:
  assumes "distinct (sv_conns s)" "c \<in> set (sv_conns s)"
  shows "arriving (set_conn c g s) t + (if cn_target (sv_conn s c) = Some t then 1 else 0) =
    arriving s t + (if cn_target (g (sv_conn s c)) = Some t then 1 else 0)"
  using headed_set [OF assms, of g t] by (simp add: arriving_def)

lemma arriving_same:
  assumes "cn_target (g (sv_conn s c)) = cn_target (sv_conn s c)"
  shows "arriving (set_conn c g s) = arriving s"
proof -
  have "(\<lambda>x. cn_target (sv_conn (set_conn c g s) x) = Some t) = (\<lambda>x. cn_target (sv_conn s x) = Some t)" for t
    using assms by auto
  then show ?thesis by (intro ext) (simp add: arriving_def headed_def del: fun_upd_apply)
qed

lemma moving_set_conn [simp]: "moving (set_conn c g s) = moving s"
  by (simp add: moving_def)

lemma moving_mail: "c \<in> set (moving s) \<longleftrightarrow> (\<exists>t. (t, Accept c) \<in> set (sv_mail s) \<or> (t, Attach c) \<in> set (sv_mail s))"
proof
  assume "c \<in> set (moving s)"
  then obtain x where "x \<in> set (sv_mail s)" "c \<in> set (carries x)" by (auto simp: moving_def)
  then show "\<exists>t. (t, Accept c) \<in> set (sv_mail s) \<or> (t, Attach c) \<in> set (sv_mail s)"
    by (cases x rule: carries.cases) auto
qed (force simp: moving_def)

lemma not_moving: "mail_ok s \<Longrightarrow> c \<in> set (sv_conns s) \<Longrightarrow> cn_owner (sv_conn s c) \<noteq> None \<or> cn_target (sv_conn s c) \<noteq> None \<Longrightarrow>
  c \<notin> set (moving s)"
  by (auto simp: mail_ok_def moving_mail)

text \<open>Changing what does not concern loops.\<close>

lemma flags_inv:
  assumes "io_inv H s" "\<And>x. cn_owner (g x) = cn_owner x" "\<And>x. cn_target (g x) = cn_target x"
    and "cn_target (sv_conn s c) \<noteq> None \<Longrightarrow> cn_migrating (g (sv_conn s c))"
  shows "io_inv H (set_conn c g s)"
  using assms arriving_same [of g s c] by (auto simp: inv_defs)

lemma start_conn_inv:
  assumes "io_inv (add_mset t H) s" "c \<notin> set (sv_conns s)" "c \<notin> set (moving s)"
  shows "io_inv H (start_conn c t s)"
proof -
  have t: "t \<in> set (sv_ids s)" using assms(1) by (simp add: inv_defs)
  have a: "arriving (start_conn c t s) u = arriving s u" for u
  proof -
    have "filter (\<lambda>x. cn_target (sv_conn (start_conn c t s) x) = Some u) (sv_conns s) =
        filter (\<lambda>x. cn_target (sv_conn s x) = Some u) (sv_conns s)"
      using assms(2) by (intro filter_cong) (auto simp: start_conn_def)
    then show ?thesis by (simp add: arriving_def headed_def start_conn_def new_conn_def)
  qed
  have m: "moving (start_conn c t s) = moving s" by (simp add: moving_def start_conn_def)
  have "owners_ok (start_conn c t s)" using assms(1,2) t
    by (auto simp: inv_defs start_conn_def io_add_def new_conn_def)
  moreover have "mail_ok (start_conn c t s)" using assms m
    by (auto simp: inv_defs moving_mail start_conn_def)
  moreover have "res_ok H (start_conn c t s)" using assms(1)
    by (auto simp: io_inv_def res_ok_def a) (auto simp: start_conn_def io_add_def split: if_splits)
  ultimately show ?thesis by (simp add: io_inv_def)
qed

lemma finishAttach_inv:
  assumes "io_inv (add_mset t H) s" "c \<in> set (sv_conns s)" "c \<notin> set (moving s)"
    and "cn_owner (sv_conn s c) = None" "cn_target (sv_conn s c) = None"
  shows "io_inv H (finishAttach c t s)"
proof -
  have t: "t \<in> set (sv_ids s)" using assms(1) by (simp add: inv_defs)
  have a: "arriving (finishAttach c t s) = arriving s"
    unfolding finishAttach_def by (subst arriving_same) simp_all
  have m: "moving (finishAttach c t s) = moving s" by (simp add: finishAttach_def)
  have "owners_ok (finishAttach c t s)" using assms t
    by (auto simp: inv_defs finishAttach_def io_add_def)
  moreover have "mail_ok (finishAttach c t s)" using assms m
    by (auto simp: inv_defs moving_mail finishAttach_def)
  moreover have "res_ok H (finishAttach c t s)" using assms(1)
    by (auto simp: io_inv_def res_ok_def a) (auto simp: finishAttach_def io_add_def split: if_splits)
  ultimately show ?thesis by (simp add: io_inv_def)
qed

lemma leave_owner_inv:
  assumes "io_inv H s" "c \<in> set (sv_conns s)"
  shows "io_inv H (leave_owner c s)"
proof (cases "cn_owner (sv_conn s c)")
  case None
  then show ?thesis using assms by (simp add: leave_owner_def)
next
  case (Some t)
  let ?x = "sv_io s t"
  have t: "t \<in> set (sv_ids s)" "c \<in> set (io_conns ?x)" "distinct (io_conns ?x)" using assms Some by (auto simp: inv_defs)
  note r = swap_remove_ok [OF t(3,2)]
  have e: "leave_owner c s = set_conn c (\<lambda>x. x\<lparr>cn_owner := None\<rparr>) (set_thread t (io_remove c) s)"
    by (simp add: leave_owner_def Some)
  have a: "arriving (leave_owner c s) = arriving s" unfolding e by (subst arriving_same) simp_all
  have x: "io_conns (io_remove c ?x) = swap_remove c (io_conns ?x)" "io_connCount (io_remove c ?x) = io_connCount ?x - 1"
    "io_pending (io_remove c ?x) = io_pending ?x" using t by (auto simp: io_remove_def)
  have "owners_ok (leave_owner c s)" using assms Some r t x unfolding e
    by (auto simp: inv_defs)
  moreover have "mail_ok (leave_owner c s)" using assms not_moving [of s c] Some unfolding e
    by (auto simp: inv_defs moving_mail)
  moreover have "res_ok H (leave_owner c s)" using assms(1) x by (auto simp: io_inv_def res_ok_def a) (auto simp: e)
  ultimately show ?thesis by (simp add: io_inv_def)
qed

lemma drop_target_inv:
  assumes "io_inv H s" "c \<in> set (sv_conns s)" "cn_target (sv_conn s c) \<noteq> None"
  shows "io_inv H (drop_target c s)"
proof -
  obtain t where t: "cn_target (sv_conn s c) = Some t" using assms(3) by blast
  have d: "distinct (sv_conns s)" and i: "t \<in> set (sv_ids s)" using assms t by (auto simp: inv_defs)
  have e: "drop_target c s = set_conn c (\<lambda>x. x\<lparr>cn_target := None\<rparr>) (set_thread t io_unreserve s)"
    by (simp add: drop_target_def t)
  have a: "arriving (drop_target c s) u + (if t = u then 1 else 0) = arriving s u" for u
    using arriving_conn [of "set_thread t io_unreserve s" c "\<lambda>x. x\<lparr>cn_target := None\<rparr>" u] assms(2) d t by (simp add: e)
  have "int (arriving (drop_target c s) u + count H u) \<le> io_pending (sv_io (drop_target c s) u)" if "u \<in> set (sv_ids s)" for u
  proof -
    have "int (arriving s u + count H u) \<le> io_pending (sv_io s u)" using assms(1) that by (simp add: inv_defs)
    then show ?thesis using a [of u] by (auto simp: e io_unreserve_def split: if_splits)
  qed
  moreover have "owners_ok (drop_target c s)" "mail_ok (drop_target c s)"
    using assms(1) unfolding e by (auto simp: inv_defs io_unreserve_def)
  ultimately show ?thesis using assms(1) by (simp add: io_inv_def res_ok_def) (simp add: e)
qed

lemma migrateTo_inv:
  assumes "migrateTo c t s = (True, s')" "io_inv (add_mset t H) s" "c \<in> set (sv_conns s)" "cn_owner (sv_conn s c) \<noteq> None"
  shows "io_inv H s'"
proof -
  have m: "\<not> cn_migrating (sv_conn s c)" and e: "s' = set_conn c (\<lambda>x. x\<lparr>cn_migrating := True, cn_target := Some t\<rparr>) s"
    using assms(1) by (auto simp: migrateTo_def Let_def split: if_splits)
  have n: "cn_target (sv_conn s c) = None" "distinct (sv_conns s)" "t \<in> set (sv_ids s)" using m assms(2,3) by (auto simp: inv_defs)
  have a: "arriving s' u = arriving s u + (if t = u then 1 else 0)" for u
    using arriving_conn [OF n(2) assms(3), of "\<lambda>x. x\<lparr>cn_migrating := True, cn_target := Some t\<rparr>" u] n(1) by (simp add: e)
  have "int (arriving s' u + count H u) \<le> io_pending (sv_io s' u)" if "u \<in> set (sv_ids s)" for u
  proof -
    have "int (arriving s u + count (add_mset t H) u) \<le> io_pending (sv_io s u)" using assms(2) that by (simp add: inv_defs)
    then show ?thesis using a [of u] by (auto simp: e split: if_splits)
  qed
  moreover have "owners_ok s'" using assms(2) n(3) unfolding e by (auto simp: inv_defs)
  moreover have "mail_ok s'" using assms(2-4) unfolding e by (auto simp: inv_defs)
  ultimately show ?thesis using assms(2) by (simp add: io_inv_def res_ok_def) (simp add: e)
qed

lemma destroy_inv:
  assumes "io_inv H s" "c \<in> set (sv_conns s)"
  shows "io_inv H (destroy_conn c s)"
proof (cases "cn_closing (sv_conn s c)")
  case True
  then show ?thesis using assms by (simp add: destroy_conn_def)
next
  case False
  let ?s1 = "set_conn c (\<lambda>x. x\<lparr>cn_closing := True\<rparr>) s"
  let ?s2 = "if cn_migrating (sv_conn ?s1 c) then drop_target c ?s1 else ?s1"
  have s1: "io_inv H ?s1" using assms by (intro flags_inv) (auto simp: inv_defs)
  have s2: "io_inv H ?s2"
  proof (cases "cn_target (sv_conn s c)")
    case None
    then have "drop_target c ?s1 = ?s1" by (simp add: drop_target_def)
    then show ?thesis using s1 by simp
  next
    case (Some t)
    then show ?thesis using drop_target_inv [OF s1, of c] s1 assms by simp
  qed
  have conns: "sv_conns ?s2 = sv_conns s" by (simp add: drop_target_def split: option.splits)
  have t2: "cn_target (sv_conn ?s2 c) = None"
    using assms by (auto simp: drop_target_def inv_defs split: option.splits)
  have s3: "io_inv H (set_conn c (\<lambda>x. x\<lparr>cn_migrating := False\<rparr>) ?s2)" using t2 by (intro flags_inv [OF s2]) auto
  have "destroy_conn c s = leave_owner c (set_conn c (\<lambda>x. x\<lparr>cn_migrating := False\<rparr>) ?s2)"
    using False by (simp add: destroy_conn_def Let_def)
  then show ?thesis using leave_owner_inv [OF s3, of c] assms(2) conns by simp
qed

lemma tryFinish_inv:
  assumes "io_inv H s" "c \<in> set (sv_conns s)"
  shows "io_inv H (tryFinishMigrate q c s)"
proof -
  let ?x = "sv_conn s c"
  consider (idle) "tryFinishMigrate q c s = s"
    | (closing) "tryFinishMigrate q c s = drop_target c (set_conn c (\<lambda>x. x\<lparr>cn_migrating := False\<rparr>) s)"
    | (go) t where "cn_target ?x = Some t"
        "tryFinishMigrate q c s = post_mail t (Attach c) (set_conn c (\<lambda>x. x\<lparr>cn_target := None\<rparr>) (leave_owner c s))"
    by (cases "cn_target ?x"; cases "cn_migrating ?x"; cases "cn_closing ?x"; cases q)
      (auto simp: tryFinishMigrate_def Let_def)
  then show ?thesis
  proof cases
    case idle
    then show ?thesis using assms by simp
  next
    case closing
    show ?thesis
    proof (cases "cn_target ?x")
      case None
      then have "tryFinishMigrate q c s = set_conn c (\<lambda>x. x\<lparr>cn_migrating := False\<rparr>) s" unfolding closing by (simp add: drop_target_def)
      then show ?thesis using None flags_inv [OF assms(1), of "\<lambda>x. x\<lparr>cn_migrating := False\<rparr>" c] by simp
    next
      case (Some t)
      have "tryFinishMigrate q c s = set_conn c (\<lambda>x. x\<lparr>cn_migrating := False\<rparr>) (drop_target c s)"
        unfolding closing using Some by (cases "sv_conn s c") (auto simp: drop_target_def set_conn_def set_thread_def)
      moreover have "cn_target (sv_conn (drop_target c s) c) = None" by (simp add: drop_target_def Some)
      ultimately show ?thesis
        using flags_inv [OF drop_target_inv [OF assms], of "\<lambda>x. x\<lparr>cn_migrating := False\<rparr>" c] Some by simp
    qed
  next
    case go
    let ?l = "leave_owner c s" let ?s = "set_conn c (\<lambda>x. x\<lparr>cn_target := None\<rparr>) ?l"
    have l: "io_inv H ?l" by (rule leave_owner_inv [OF assms])
    have f: "sv_conns ?l = sv_conns s" "sv_ids ?l = sv_ids s" "cn_target (sv_conn ?l c) = Some t" "cn_owner (sv_conn ?l c) = None"
      using go(1) by (auto simp: leave_owner_def split: option.splits)
    have nm: "c \<notin> set (moving ?l)" using not_moving [of ?l c] l f assms(2) by (simp add: io_inv_def)
    have t: "t \<in> set (sv_ids s)" using assms go(1) by (auto simp: inv_defs)
    have a: "arriving ?s u + (if t = u then 1 else 0) = arriving ?l u" for u
      using arriving_conn [of ?l c "\<lambda>x. x\<lparr>cn_target := None\<rparr>" u] l f assms(2) by (simp add: inv_defs)
    have "int (arriving (post_mail t (Attach c) ?s) u + count H u) \<le> io_pending (sv_io ?l u)" if "u \<in> set (sv_ids s)" for u
    proof -
      have "int (arriving ?l u + count H u) \<le> io_pending (sv_io ?l u)" using l f(2) that by (simp add: inv_defs)
      then show ?thesis using a [of u] by (auto split: if_splits)
    qed
    moreover have "owners_ok (post_mail t (Attach c) ?s)" using l by (auto simp: inv_defs)
    moreover have "mail_ok (post_mail t (Attach c) ?s)" using l f nm t assms(2) by (auto simp: inv_defs)
    ultimately show ?thesis using l f(2) unfolding go(2) by (simp add: io_inv_def res_ok_def)
  qed
qed

lemma migrate_each_inv:
  assumes "migrate_each cs ds s = (rest, s')" "io_inv (mset ds + H) s"
    and "\<forall>c\<in>set cs. c \<in> set (sv_conns s) \<and> cn_owner (sv_conn s c) \<noteq> None"
  shows "io_inv (mset rest + H) s'"
  using assms
proof (induction cs ds s arbitrary: H rule: migrate_each.induct)
  case (3 c cs d ds s)
  obtain b s1 where m: "migrateTo c d s = (b, s1)" by fastforce
  show ?case
  proof (cases b)
    case True
    have "io_inv (mset ds + H) s1" using migrateTo_inv [of c d s s1 "mset ds + H"] m True "3.prems" by simp
    moreover have "\<forall>c\<in>set cs. c \<in> set (sv_conns s1) \<and> cn_owner (sv_conn s1 c) \<noteq> None"
      using "3.prems"(3) m True by (auto simp: migrateTo_def Let_def split: if_splits)
    moreover have m': "(True, s1) = migrateTo c d s" using m True by simp
    ultimately show ?thesis using "3.IH"(1) [OF m' refl] "3.prems"(1) m True by simp
  next
    case False
    then have m': "(False, s1) = migrateTo c d s" using m by simp
    then show ?thesis using "3.IH"(2) [OF m' refl] "3.prems" m False by simp
  qed
qed auto

lemma unreserve_all_inv: "io_inv (mset ds + H) s \<Longrightarrow> io_inv H (foldl (\<lambda>s d. set_thread d io_unreserve s) s ds)"
  by (induction ds arbitrary: s) (auto intro: unreserve_inv)

lemma run_migrations_inv:
  assumes "io_inv (mset ds + H) s" "t \<in> set (sv_ids s)"
  shows "io_inv H (run_migrations t ds s)"
proof -
  obtain rest s' where m: "migrate_each (io_conns (sv_io s t)) ds s = (rest, s')" by fastforce
  have "io_inv (mset rest + H) s'" using assms by (intro migrate_each_inv [OF m assms(1)]) (auto simp: inv_defs)
  then show ?thesis using unreserve_all_inv by (simp add: run_migrations_def m)
qed

lemma run_mail_inv:
  assumes "io_inv {#} s" "sv_mail s = xs @ (t, m) # ys"
  shows "io_inv {#} (run_mail t m (s\<lparr>sv_mail := xs @ ys\<rparr>))"
proof -
  let ?s = "s\<lparr>sv_mail := xs @ ys\<rparr>"
  note i = take_mail_inv [OF assms]
  have mv: "distinct (moving s)" "moving s = concat (map carries xs) @ carries (t, m) @ concat (map carries ys)"
    using assms by (auto simp: inv_defs moving_def)
  have c: "c \<notin> set (moving ?s)" if "c \<in> set (carries (t, m))" for c
    using mv that by (auto simp: moving_def)
  show ?thesis
  proof (cases m)
    case (Accept c)
    have "c \<notin> set (sv_conns s)" using assms Accept by (auto simp: inv_defs)
    then show ?thesis using i c [of c] Accept by (auto simp: run_mail_def intro: start_conn_inv)
  next
    case (Attach c)
    have "c \<in> set (sv_conns s)" "cn_owner (sv_conn s c) = None" "cn_target (sv_conn s c) = None"
      using assms Attach by (auto simp: inv_defs)
    then show ?thesis using i c [of c] Attach by (auto simp: run_mail_def intro: finishAttach_inv)
  next
    case (Migrate ds)
    then show ?thesis using i run_migrations_inv [of ds "{#}" ?s t] by (simp add: run_mail_def)
  qed
qed

text \<open>Steps that change neither the loops and which of them are retiring, nor the connections.\<close>

definition same_pool :: "Server \<Rightarrow> Server \<Rightarrow> bool" where
  "same_pool s s' \<longleftrightarrow> sv_ids s' = sv_ids s \<and> (\<forall>t. io_retiring (sv_io s' t) = io_retiring (sv_io s t)) \<and>
     sv_conns s' = sv_conns s \<and> sv_conn s' = sv_conn s \<and> set (sv_mail s) \<subseteq> set (sv_mail s')"

lemma same_pool_refl [simp]: "same_pool s s"
  by (simp add: same_pool_def)

lemma same_pool_trans: "same_pool s s' \<Longrightarrow> same_pool s' s'' \<Longrightarrow> same_pool s s''"
  by (auto simp: same_pool_def)

lemma same_pool_live: "same_pool s s' \<Longrightarrow> live_ids s' = live_ids s"
  by (simp add: same_pool_def live_ids_def)

lemma same_pool_steps [simp]: "same_pool s (set_thread t io_reserve s)" "same_pool s (post_mail t m s)"
  "same_pool s (postMigrations t ds s)"
  by (auto simp: same_pool_def io_reserve_def postMigrations_def)

lemma planMoves_inv:
  assumes "planMoves k to f s = (ds, s')" "io_inv H s" "set to \<subseteq> set (sv_ids s)"
  shows "io_inv (mset ds + H) s' \<and> same_pool s s' \<and> set ds \<subseteq> set to"
  using assms
proof (induction k to f s arbitrary: ds s' H rule: planMoves.induct)
  case (2 k to f s)
  show ?case
  proof (cases "min_load (load_of s) to")
    case None
    then show ?thesis using "2.prems" by simp
  next
    case (Some d)
    let ?stop = "case f of None \<Rightarrow> False | Some m \<Rightarrow> load_of s d \<ge> m"
    show ?thesis
    proof (cases ?stop)
      case True
      then show ?thesis using "2.prems" Some by simp
    next
      case False
      obtain ds' where p: "planMoves k to f (set_thread d io_reserve s) = (ds', s')" "ds = d # ds'"
        using "2.prems"(1) Some False by (auto split: prod.splits)
      have d: "d \<in> set to" using min_loadD [OF Some] by simp
      have "io_inv (add_mset d H) (set_thread d io_reserve s)" using reserve_inv "2.prems"(2,3) d by blast
      from "2.IH" [OF Some False p(1) this] "2.prems"(3) show ?thesis
        using d p(2) same_pool_trans [OF same_pool_steps(1)] by auto
    qed
  qed
qed auto

lemma postMigrations_inv: "io_inv (mset ds + H) s \<Longrightarrow> t \<in> set (sv_ids s) \<Longrightarrow> io_inv H (postMigrations t ds s)"
  by (auto simp: postMigrations_def post_migrate_inv)

lemma plan_post_inv:
  assumes "io_inv H s" "set to \<subseteq> set (sv_ids s)" "t \<in> set (sv_ids s)" "planMoves k to f s = (ds, s')"
  shows "io_inv H (postMigrations t ds s') \<and> same_pool s (postMigrations t ds s')"
  using planMoves_inv [OF assms(4,1,2)] assms(3) same_pool_trans [OF _ same_pool_steps(3)]
  by (auto intro: postMigrations_inv simp: same_pool_def)

lemma dests_all:
  "\<forall>(d, r)\<in>set ms. d < n \<Longrightarrow> mset (concat (map (dests_of live ms) [0..<n])) = mset (map (\<lambda>(d, r). live ! r) ms)"
proof (induction ms)
  case Nil
  then show ?case by (simp add: dests_of_def)
next
  case (Cons m ms)
  obtain d r where m: "m = (d, r)" by fastforce
  have c: "mset (dests_of live ((d, r) # ms) i) = (if i = d then {#live ! r#} else {#}) + mset (dests_of live ms i)" for i
    by (simp add: dests_of_def)
  have "(\<Sum>i\<leftarrow>[0..<n]. if i = d then {#live ! r#} else {#}) = {#live ! r#}"
    using Cons.prems by (simp add: m interv_sum_list_conv_sum_set_nat)
  then show ?case using Cons by (simp add: mset_concat comp_def c sum_list_addf m)
qed

lemma rebalance_inv:
  assumes "io_inv H s"
  shows "io_inv H (rebalance s) \<and> same_pool s (rebalance s)"
proof (cases "length (live_ids s) < 2")
  case True
  then show ?thesis using assms by (simp add: rebalance_def Let_def)
next
  case False
  define live where "live = live_ids s"
  define ms where "ms = fst (level_moves (map (load_of s) live))"
  have sub: "set live \<subseteq> set (sv_ids s)" by (auto simp: live_def live_ids_def)
  have ms: "d < length live \<and> r < length live" if "(d, r) \<in> set ms" for d r
    using level_moves_ok [of "map (load_of s) live" ms "snd (level_moves (map (load_of s) live))"] that by (auto simp: ms_def)
  have res: "io_inv (mset (map (\<lambda>(d, r). live ! r) ns) + H) (foldl (\<lambda>s (d, r). set_thread (live ! r) io_reserve s) s' ns) \<and>
      same_pool s' (foldl (\<lambda>s (d, r). set_thread (live ! r) io_reserve s) s' ns)"
    if "set ns \<subseteq> set ms" "io_inv H s'" "sv_ids s' = sv_ids s" for ns s' H
    using that
  proof (induction ns arbitrary: s' H)
    case (Cons x ns)
    obtain d r where x: "x = (d, r)" by fastforce
    have "live ! r \<in> set (sv_ids s')" using Cons.prems ms sub nth_mem by (auto simp: x)
    then have "io_inv (add_mset (live ! r) H) (set_thread (live ! r) io_reserve s')" using Cons.prems reserve_inv by blast
    from Cons.IH [OF _ this] Cons.prems show ?case
      using same_pool_trans [OF same_pool_steps(1)] by (auto simp: x)
  qed simp
  have post: "io_inv H (foldl (\<lambda>s i. postMigrations (live ! i) (dests_of live ms i) s) s' is) \<and>
      same_pool s' (foldl (\<lambda>s i. postMigrations (live ! i) (dests_of live ms i) s) s' is)"
    if "io_inv (mset (concat (map (dests_of live ms) is)) + H) s'" "sv_ids s' = sv_ids s" "\<forall>i\<in>set is. i < length live" for "is" s'
    using that
  proof (induction "is" arbitrary: s')
    case (Cons i "is")
    have "live ! i \<in> set (sv_ids s')" using Cons.prems sub nth_mem by auto
    then have "io_inv (mset (concat (map (dests_of live ms) is)) + H) (postMigrations (live ! i) (dests_of live ms i) s')"
      using Cons.prems by (intro postMigrations_inv) (auto simp: ac_simps)
    moreover have sp: "same_pool s' (postMigrations (live ! i) (dests_of live ms i) s')" by simp
    then have "sv_ids (postMigrations (live ! i) (dests_of live ms i) s') = sv_ids s"
      using Cons.prems(2) by (simp add: same_pool_def)
    ultimately show ?case using Cons.IH Cons.prems(3) same_pool_trans [OF sp] by simp
  qed simp
  let ?s1 = "foldl (\<lambda>s (d, r). set_thread (live ! r) io_reserve s) s ms"
  have s1: "io_inv (mset (concat (map (dests_of live ms) [0..<length live])) + H) ?s1" "same_pool s ?s1"
  proof -
    have "\<forall>(d, r)\<in>set ms. d < length live" using ms by blast
    then show "io_inv (mset (concat (map (dests_of live ms) [0..<length live])) + H) ?s1"
      using res [of ms H s] assms dests_all [of ms "length live" live] by (simp only: subset_refl)
    show "same_pool s ?s1" using res [of ms H s] assms by simp
  qed
  have "rebalance s = foldl (\<lambda>s i. postMigrations (live ! i) (dests_of live ms i) s) ?s1 [0..<length live]"
    using False by (simp add: rebalance_def Let_def live_def [symmetric] ms_def [symmetric])
  then show ?thesis using post [of "[0..<length live]" ?s1] s1 same_pool_trans [OF s1(2)] by (auto simp: same_pool_def)
qed

lemma accept_inv:
  assumes "io_inv {#} s" "c \<notin> set (sv_conns s)" "c \<notin> set (moving s)"
  shows "io_inv {#} (accept_conn c s)"
proof (cases "min_load (load_of s) (live_ids s)")
  case None
  then show ?thesis using assms by (simp add: accept_conn_def pickIOThread_def)
next
  case (Some t)
  then have t: "t \<in> set (sv_ids s)" using min_loadD [OF Some] by (simp add: live_ids_def)
  have "io_inv {#t#} (set_thread t io_reserve s)" using reserve_inv [OF assms(1) t] by simp
  then have "io_inv {#} (post_mail t (Accept c) (set_thread t io_reserve s))" using assms(2,3) t by (auto simp: inv_defs)
  then show ?thesis by (simp add: accept_conn_def pickIOThread_def Some)
qed

lemma arriving_outside:
  assumes "owners_ok s" "mail_ok s" "t \<notin> set (sv_ids s)"
  shows "arriving s t = 0"
proof -
  have "count (tokens x) t = 0" if "x \<in> set (sv_mail s)" for x
  proof -
    have "set_mset (tokens x) \<subseteq> set (sv_ids s)" using that assms(2) by (fastforce simp: mail_ok_def)
    then have "t \<notin># tokens x" using assms(3) by blast
    then show ?thesis by (simp add: not_in_iff)
  qed
  moreover have "headed s t = 0" using assms(1,3) by (auto simp: headed_def owners_ok_def filter_empty_conv)
  ultimately show ?thesis by (simp add: arriving_def)
qed

lemma fresh_id_new: "fresh_id s \<notin> set (sv_ids s)"
proof
  assume "fresh_id s \<in> set (sv_ids s)"
  then have "fresh_id s \<le> Max (insert 0 (set (sv_ids s)))" by (intro Max_ge) auto
  then show False by (simp add: fresh_id_def)
qed

lemma addIOThread_inv:
  assumes "io_inv H s"
  shows "io_inv H (addIOThread s) \<and> live_ids (addIOThread s) = live_ids s @ [fresh_id s]"
proof -
  let ?t = "fresh_id s"
  have a: "arriving (addIOThread s) u = arriving s u" for u
    by (simp add: arriving_def headed_def addIOThread_def Let_def)
  have z: "arriving s ?t = 0" "count H ?t = 0"
    using arriving_outside [OF _ _ fresh_id_new] assms fresh_id_new by (auto simp: inv_defs not_in_iff)
  have n: "cn_owner (sv_conn s c) \<noteq> Some ?t" if "c \<in> set (sv_conns s)" for c
    using that assms fresh_id_new [of s] by (auto simp: inv_defs)
  have "owners_ok (addIOThread s)" using assms fresh_id_new [of s] n
    by (auto simp: inv_defs addIOThread_def Let_def new_io_def)
  moreover have "mail_ok (addIOThread s)" using assms
    by (auto simp: inv_defs addIOThread_def Let_def moving_def)
  moreover have "res_ok H (addIOThread s)" using assms z
    by (auto simp: io_inv_def res_ok_def a) (auto simp: addIOThread_def Let_def new_io_def)
  moreover have "live_ids (addIOThread s) = live_ids s @ [?t]"
    using fresh_id_new [of s] by (auto simp: live_ids_def addIOThread_def Let_def new_io_def intro!: filter_cong)
  ultimately show ?thesis by (simp add: io_inv_def)
qed

lemma addIOThreads_inv:
  "io_inv H s \<Longrightarrow> io_inv H ((addIOThread ^^ n) s) \<and> length (live_ids ((addIOThread ^^ n) s)) = length (live_ids s) + n"
  by (induction n) (use addIOThread_inv in auto)

lemma grow_inv:
  assumes "io_inv {#} s"
  shows "io_inv {#} (pool_Grow n s) \<and> pool_Size (pool_Grow n s) = pool_Size s + n"
proof -
  note a = addIOThreads_inv [OF assms, of n]
  note r = rebalance_inv [of "{#}" "(addIOThread ^^ n) s"]
  show ?thesis using a r same_pool_live [of "(addIOThread ^^ n) s" "rebalance ((addIOThread ^^ n) s)"]
    by (simp add: pool_Grow_def pool_Size_def)
qed

lemma retire_all_inv:
  assumes "io_inv H s"
  shows "io_inv H (foldl (\<lambda>s t. retire t s) s ts) \<and> sv_ids (foldl (\<lambda>s t. retire t s) s ts) = sv_ids s \<and>
    live_ids (foldl (\<lambda>s t. retire t s) s ts) = filter (\<lambda>t. t \<notin> set ts) (live_ids s)"
  using assms
proof (induction ts arbitrary: s)
  case (Cons t ts)
  have i: "io_inv H (retire t s)" unfolding retire_def by (rule quiet_thread_inv [OF _ _ _ Cons.prems]) simp_all
  have l: "live_ids (retire t s) = filter (\<lambda>u. u \<noteq> t) (live_ids s)"
    by (auto simp: live_ids_def retire_def intro!: filter_cong)
  show ?case using Cons.IH [OF i] l by (simp add: conj_commute) (simp add: retire_def)
qed simp

lemma plan_all_inv:
  assumes "\<And>s t. io_inv H s \<Longrightarrow> sv_ids s = ids \<Longrightarrow> t \<in> set ts \<Longrightarrow> io_inv H (f s t) \<and> same_pool s (f s t)"
    and "io_inv H s" "sv_ids s = ids"
  shows "io_inv H (foldl f s ts) \<and> same_pool s (foldl f s ts)"
  using assms
proof (induction ts arbitrary: s)
  case (Cons t ts)
  have a: "io_inv H (f s t)" "same_pool s (f s t)" using Cons.prems(1) [OF Cons.prems(2,3), of t] by auto
  then have "io_inv H (foldl f (f s t) ts) \<and> same_pool (f s t) (foldl f (f s t) ts)"
    using Cons.prems by (intro Cons.IH) (auto simp: same_pool_def)
  then show ?case using same_pool_trans [OF a(2)] by simp
qed simp

lemma drain_to_inv:
  assumes "io_inv H s" "set to \<subseteq> set (sv_ids s)" "t \<in> set (sv_ids s)"
  shows "io_inv H (drain_to to s t) \<and> same_pool s (drain_to to s t)"
proof -
  obtain ds s' where p: "planMoves (nat (load_of s t)) to None s = (ds, s')" by fastforce
  show ?thesis using plan_post_inv [OF assms p] by (simp add: drain_to_def p)
qed

lemma shrink_inv:
  assumes "io_inv {#} s" "n < pool_Size s"
  shows "io_inv {#} (pool_Shrink n s) \<and> pool_Size (pool_Shrink n s) = pool_Size s - n"
proof (cases "length (live_ids s) \<le> 1")
  case True
  then show ?thesis using assms by (simp add: pool_Shrink_def Let_def pool_Size_def)
next
  case False
  define order where "order = sort_key (load_of s) (live_ids s)"
  let ?s1 = "foldl (\<lambda>s t. retire t s) s (take n order)"
  have m: "min n (length (live_ids s) - 1) = n" using assms(2) by (simp add: pool_Size_def)
  have o: "set order = set (live_ids s)" "length order = length (live_ids s)" "distinct order"
    using assms(1) by (auto simp: order_def inv_defs live_ids_def)
  note r = retire_all_inv [OF assms(1), of "take n order"]
  have sub: "set (take n order) \<subseteq> set (sv_ids s)" "set (drop n order) \<subseteq> set (sv_ids s)"
    using o(1) set_take_subset [of n order] set_drop_subset [of n order] by (auto simp: live_ids_def)
  have step: "io_inv {#} (drain_to (drop n order) u t) \<and> same_pool u (drain_to (drop n order) u t)"
    if "io_inv {#} u" "sv_ids u = sv_ids s" "t \<in> set (take n order)" for u t
    using drain_to_inv [OF that(1), of "drop n order" t] sub that(2,3) by (simp add: subset_iff)
  have i: "io_inv {#} (foldl (drain_to (drop n order)) ?s1 (take n order)) \<and>
      same_pool ?s1 (foldl (drain_to (drop n order)) ?s1 (take n order))"
    by (rule plan_all_inv [OF step]) (use r in simp_all)
  have e: "pool_Shrink n s = foldl (drain_to (drop n order)) ?s1 (take n order)"
    unfolding pool_Shrink_def Let_def if_not_P [OF False] m order_def [symmetric] ..
  have dl: "distinct (live_ids s)" using assms(1) by (auto simp: inv_defs live_ids_def)
  have "set (filter (\<lambda>t. t \<notin> set (take n order)) (live_ids s)) = set (live_ids s) - set (take n order)" by auto
  moreover have "card (set (live_ids s) - set (take n order)) = card (set (live_ids s)) - card (set (take n order))"
    using o(1) set_take_subset [of n order] by (intro card_Diff_subset) auto
  moreover have "card (set (take n order)) = n"
    using o(2) assms(2) distinct_card [OF distinct_take [OF o(3), of n]] by (simp add: pool_Size_def)
  ultimately have "length (filter (\<lambda>t. t \<notin> set (take n order)) (live_ids s)) = length (live_ids s) - n"
    using distinct_card [OF distinct_filter [OF dl, of "\<lambda>t. t \<notin> set (take n order)"]] distinct_card [OF dl] by simp
  then show ?thesis using i r same_pool_live [OF conjunct2 [OF i]] unfolding e pool_Size_def by simp
qed

lemma reap_tick_fields [simp]:
  "io_connCount (reap_tick x) = io_connCount x" "io_pending (reap_tick x) = io_pending x" "io_conns (reap_tick x) = io_conns x"
  "io_retiring (reap_tick x) = io_retiring x"
  by (auto simp: reap_tick_def split: reap.splits)

lemma reap_class_iff: "reap_class x = Live \<longleftrightarrow> \<not> io_retiring x" "reap_class x = Done \<Longrightarrow> io_load x \<le> 0 \<and> io_retiring x \<and> io_holds x \<le> 0"
  by (auto simp: reap_class_def split: if_splits)

text \<open>A loop that is stopped has no connection, and none is on its way to it.\<close>

lemma done_empty:
  assumes "io_inv {#} s" "t \<in> set (sv_ids s)" "reap_class (sv_io s t) = Done"
  shows "io_conns (sv_io s t) = [] \<and> arriving s t = 0"
proof -
  have "io_connCount (sv_io s t) = int (length (io_conns (sv_io s t)))" "int (arriving s t) \<le> io_pending (sv_io s t)"
    using assms(1,2) by (auto simp: inv_defs)
  moreover have "io_connCount (sv_io s t) + io_pending (sv_io s t) \<le> 0"
    using reap_class_iff(2) [OF assms(3)] by (simp add: io_load_def)
  ultimately show ?thesis by (cases "io_conns (sv_io s t)") auto
qed

lemma sum_filter_le: "sum_list (map f (filter P xs)) \<le> sum_list (map f xs)" for f :: "'x \<Rightarrow> nat"
  by (induction xs) auto

lemma stop_done_inv:
  assumes "io_inv {#} s"
  shows "io_inv {#} (stop_done s) \<and> live_ids (stop_done s) = live_ids s"
proof -
  define stopped where "stopped = filter (\<lambda>t. reap_class (sv_io s t) = Done) (sv_ids s)"
  let ?s = "stop_done s"
  have f: "sv_ids ?s = filter (\<lambda>t. t \<notin> set stopped) (sv_ids s)" "sv_conns ?s = sv_conns s" "sv_conn ?s = sv_conn s"
    "sv_mail ?s = filter (\<lambda>(t, m). t \<notin> set stopped) (sv_mail s)"
    "sv_io ?s = (\<lambda>t. if t \<in> set (sv_ids s) then reap_tick (sv_io s t) else sv_io s t)"
    by (simp_all add: stop_done_def Let_def stopped_def)
  have st: "io_conns (sv_io s t) = [] \<and> arriving s t = 0" if "t \<in> set stopped" for t
    using that done_empty [OF assms] by (simp add: stopped_def)
  have own: "cn_owner (sv_conn s c) \<noteq> Some t \<and> cn_target (sv_conn s c) \<noteq> Some t" if "t \<in> set stopped" "c \<in> set (sv_conns s)" for t c
  proof -
    have "t \<in> set (sv_ids s)" using that by (simp add: stopped_def)
    then have "cn_owner (sv_conn s c) \<noteq> Some t" using assms st [OF that(1)] that(2) by (fastforce simp: inv_defs)
    moreover have "cn_target (sv_conn s c) \<noteq> Some t" using st [OF that(1)] that(2) by (auto simp: arriving_def headed_def filter_empty_conv)
    ultimately show ?thesis ..
  qed
  have tok: "t \<notin># tokens x" if "t \<in> set stopped" "x \<in> set (sv_mail s)" for t x
    using st [OF that(1)] that(2) by (auto simp: arriving_def not_in_iff)
  have a: "arriving ?s u \<le> arriving s u" for u
    using sum_filter_le [of "\<lambda>x. count (tokens x) u" "\<lambda>(t, m). t \<notin> set stopped" "sv_mail s"]
    by (simp add: arriving_def headed_def f)
  have "owners_ok ?s" using assms own by (auto simp: inv_defs f)
  moreover have "mail_ok ?s"
  proof -
    have "distinct (concat (map carries (filter P xs)))" if "distinct (concat (map carries xs))" for P xs
      using that by (induction xs) (auto simp: distinct_append)
    then have "distinct (moving ?s)" using assms by (simp add: inv_defs moving_def f)
    then show ?thesis using assms tok by (fastforce simp: inv_defs f)
  qed
  moreover have "res_ok {#} ?s"
  proof -
    have "int (arriving ?s t) \<le> io_pending (sv_io ?s t)" if "t \<in> set (sv_ids ?s)" for t
      using that assms a [of t] by (fastforce simp: inv_defs f)
    then show ?thesis by (simp add: res_ok_def)
  qed
  moreover have "live_ids ?s = live_ids s"
    unfolding live_ids_def f(1,5) filter_filter by (rule filter_cong) (use reap_class_iff(2) in \<open>auto simp: stopped_def\<close>)
  ultimately show ?thesis by (simp add: io_inv_def)
qed

lemma reap_inv:
  assumes "io_inv {#} s"
  shows "io_inv {#} (pool_Reap s) \<and> live_ids (pool_Reap s) = live_ids s"
proof -
  define live where "live = filter (\<lambda>t. reap_class (sv_io s t) = Live) (sv_ids s)"
  define stuck where "stuck = filter (\<lambda>t. reap_class (sv_io s t) = Stuck) (sv_ids s)"
  let ?s1 = "stop_done s"
  let ?f = "\<lambda>s t. case planMoves (nat (io_connCount (sv_io s t))) live None s of (ds, s') \<Rightarrow> postMigrations t ds s'"
  let ?s2 = "foldl ?f ?s1 stuck"
  note d = stop_done_inv [OF assms]
  have sub: "set live \<subseteq> set (sv_ids ?s1)" "set stuck \<subseteq> set (sv_ids ?s1)"
    by (auto simp: live_def stuck_def stop_done_def Let_def)
  have step: "io_inv {#} (?f u t) \<and> same_pool u (?f u t)" if "io_inv {#} u" "sv_ids u = sv_ids ?s1" "t \<in> set stuck" for u t
  proof -
    obtain ds u' where p: "planMoves (nat (io_connCount (sv_io u t))) live None u = (ds, u')" by fastforce
    show ?thesis using plan_post_inv [OF that(1) _ _ p, of t] that sub by (auto simp: p)
  qed
  have s2: "io_inv {#} ?s2 \<and> same_pool ?s1 ?s2" by (rule plan_all_inv [OF step]) (use d in auto)
  have l2: "live_ids ?s2 = live_ids ?s1" by (rule same_pool_live [OF conjunct2 [OF s2]])
  have s3: "io_inv {#} (rebalance ?s2)" "live_ids (rebalance ?s2) = live_ids ?s2"
    using rebalance_inv [OF conjunct1 [OF s2]] same_pool_live by blast+
  have e: "pool_Reap s = (if live = [] \<or> (\<Sum>t\<leftarrow>live @ stuck. io_pending (sv_io ?s1 t)) > 0 then ?s1
      else if stuck = [] then rebalance ?s2 else ?s2)"
    by (simp only: pool_Reap_def Let_def live_def stuck_def)
  consider "pool_Reap s = ?s1" | "pool_Reap s = rebalance ?s2" | "pool_Reap s = ?s2" using e by argo
  then show ?thesis using d s2 s3 l2 by cases (simp_all only:)
qed

lemma sample_io_inv:
  assumes "io_inv {#} s"
  shows "io_inv {#} (snd (pool_Sample w s)) \<and> live_ids (snd (pool_Sample w s)) = live_ids s"
proof -
  have e: "snd (pool_Sample w s) = s\<lparr>sv_io := (\<lambda>t. if t \<in> set (sv_ids s) then (sv_io s t)\<lparr>io_lastCpuNs := sv_cpu s t\<rparr> else sv_io s t)\<rparr>"
    by (simp add: pool_Sample_def split: prod.splits)
  show ?thesis using assms unfolding e
    by (auto simp: inv_defs arriving_def headed_def moving_def live_ids_def intro!: filter_cong)
qed

subsection \<open>No connection is stranded\<close>

text \<open>An open connection is on a loop, or a closure that will attach it to one is posted.\<close>

definition homed :: "Server \<Rightarrow> bool" where
  "homed s \<longleftrightarrow> (\<forall>c\<in>set (sv_conns s). \<not> cn_closing (sv_conn s c) \<longrightarrow>
     cn_owner (sv_conn s c) \<noteq> None \<or> (\<exists>t. (t, Attach c) \<in> set (sv_mail s)))"

inductive io_step :: "Server \<Rightarrow> Server \<Rightarrow> bool" where
  accepts: "c \<notin> set (sv_conns s) \<Longrightarrow> c \<notin> set (moving s) \<Longrightarrow> io_step s (accept_conn c s)"
| runs: "sv_mail s = xs @ (t, m) # ys \<Longrightarrow> \<forall>x\<in>set xs. fst x \<noteq> t \<Longrightarrow> io_step s (run_mail t m (s\<lparr>sv_mail := xs @ ys\<rparr>))"
| checks: "c \<in> set (sv_conns s) \<Longrightarrow> io_step s (tryFinishMigrate q c s)"
| closes: "c \<in> set (sv_conns s) \<Longrightarrow> cn_owner (sv_conn s c) \<noteq> None \<Longrightarrow> io_step s (destroy_conn c s)"
| holds: "t \<in> set (sv_ids s) \<Longrightarrow> io_step s (set_thread t io_hold s)"
| releases: "t \<in> set (sv_ids s) \<Longrightarrow> 0 < io_holds (sv_io s t) \<Longrightarrow> io_step s (set_thread t io_release s)"
| grows: "io_step s (pool_Grow n s)"
| shrinks: "n < pool_Size s \<Longrightarrow> io_step s (pool_Shrink n s)"
| reaps: "io_step s (pool_Reap s)"
| samples: "io_step s (snd (pool_Sample w s))"
| clocks: "io_step s (s\<lparr>sv_cpu := cpu, sv_avgLoop := avg\<rparr>)"

definition start_server :: "nat \<Rightarrow> Server" where
  "start_server n = (addIOThread ^^ n) \<lparr>sv_ids = [], sv_io = (\<lambda>t. new_io 0), sv_conns = [], sv_conn = (\<lambda>c. new_conn),
     sv_mail = [], sv_cpu = (\<lambda>t. 0), sv_avgLoop = (\<lambda>t. 0)\<rparr>"

inductive io_run :: "nat \<Rightarrow> Server \<Rightarrow> bool" where
  io_start: "io_run n (start_server n)"
| io_next: "io_run n s \<Longrightarrow> io_step s s' \<Longrightarrow> io_run n s'"

lemma homed_mono:
  "homed s \<Longrightarrow> sv_conns s' = sv_conns s \<Longrightarrow> sv_conn s' = sv_conn s \<Longrightarrow> set (sv_mail s) \<subseteq> set (sv_mail s') \<Longrightarrow> homed s'"
  by (auto simp: homed_def)

lemma homed_same: "homed s \<Longrightarrow> same_pool s s' \<Longrightarrow> homed s'"
  by (auto simp: same_pool_def intro: homed_mono)

lemma add_frame: "sv_conns ((addIOThread ^^ n) s) = sv_conns s \<and> sv_conn ((addIOThread ^^ n) s) = sv_conn s \<and>
    sv_mail ((addIOThread ^^ n) s) = sv_mail s"
  by (induction n) (auto simp: addIOThread_def Let_def)

lemma homed_migrate_each:
  "migrate_each cs ds s = (rest, s') \<Longrightarrow> homed s \<Longrightarrow> homed s'"
proof (induction cs ds s rule: migrate_each.induct)
  case (3 c cs d ds s)
  obtain b s1 where m: "migrateTo c d s = (b, s1)" by fastforce
  have h: "homed s1" using m "3.prems"(2) by (auto simp: migrateTo_def Let_def homed_def split: if_splits)
  show ?case
  proof (cases b)
    case True
    then show ?thesis using "3.IH"(1) [of True s1] m h "3.prems" by simp
  next
    case False
    then show ?thesis using "3.IH"(2) [of False s1] m "3.prems" by simp
  qed
qed auto

lemma homed_unreserve: "homed s \<Longrightarrow> homed (foldl (\<lambda>s d. set_thread d io_unreserve s) s ds)"
  by (induction ds arbitrary: s) (auto simp: homed_def)

lemma homed_run_mail:
  assumes "homed s" "sv_mail s = xs @ (t, m) # ys"
  shows "homed (run_mail t m (s\<lparr>sv_mail := xs @ ys\<rparr>))"
proof (cases m)
  case (Accept c)
  then show ?thesis using assms by (auto simp: homed_def run_mail_def start_conn_def new_conn_def)
next
  case (Attach c)
  then show ?thesis using assms by (auto simp: homed_def run_mail_def finishAttach_def)
next
  case (Migrate ds)
  let ?s = "s\<lparr>sv_mail := xs @ ys\<rparr>"
  obtain rest s' where e: "migrate_each (io_conns (sv_io ?s t)) ds ?s = (rest, s')" by fastforce
  have "homed ?s" using assms Migrate by (auto simp: homed_def)
  then show ?thesis using homed_unreserve homed_migrate_each [OF e] e Migrate by (simp add: run_mail_def run_migrations_def)
qed

lemma conn_frames:
  "sv_conns (drop_target c s) = sv_conns s" "sv_mail (drop_target c s) = sv_mail s"
  "cn_owner (sv_conn (drop_target c s) d) = cn_owner (sv_conn s d)" "cn_closing (sv_conn (drop_target c s) d) = cn_closing (sv_conn s d)"
  "sv_conns (leave_owner c s) = sv_conns s" "sv_mail (leave_owner c s) = sv_mail s"
  "d \<noteq> c \<Longrightarrow> sv_conn (leave_owner c s) d = sv_conn s d" "cn_closing (sv_conn (leave_owner c s) d) = cn_closing (sv_conn s d)"
  by (auto simp: drop_target_def leave_owner_def split: option.splits)

lemma homed_destroy: "homed s \<Longrightarrow> homed (destroy_conn c s)"
proof (cases "cn_closing (sv_conn s c)")
  case False
  assume h: "homed s"
  let ?s1 = "set_conn c (\<lambda>x. x\<lparr>cn_closing := True\<rparr>) s"
  let ?s2 = "if cn_migrating (sv_conn ?s1 c) then drop_target c ?s1 else ?s1"
  let ?s3 = "set_conn c (\<lambda>x. x\<lparr>cn_migrating := False\<rparr>) ?s2"
  have e: "destroy_conn c s = leave_owner c ?s3" using False by (simp add: destroy_conn_def Let_def)
  have f: "sv_conns ?s3 = sv_conns s" "sv_mail ?s3 = sv_mail s" "cn_closing (sv_conn ?s3 c)"
    "\<And>d. d \<noteq> c \<Longrightarrow> cn_owner (sv_conn ?s3 d) = cn_owner (sv_conn s d) \<and> cn_closing (sv_conn ?s3 d) = cn_closing (sv_conn s d)"
    by (auto simp: conn_frames)
  show ?thesis using h f(1,2,3,4) unfolding e homed_def
    by (metis conn_frames(5,6,7,8))
qed (simp add: destroy_conn_def)

lemma homed_tryFinish: "homed s \<Longrightarrow> homed (tryFinishMigrate q c s)"
  by (auto simp: tryFinishMigrate_def Let_def homed_def conn_frames split: option.splits)

lemma homed_retire: "homed s \<Longrightarrow> homed (foldl (\<lambda>s t. retire t s) s ts)"
  by (induction ts arbitrary: s) (auto simp: homed_def retire_def)

lemma homed_planMoves: "planMoves k to f s = (ds, s') \<Longrightarrow> homed s \<Longrightarrow> homed s'"
proof (induction k to f s arbitrary: ds s' rule: planMoves.induct)
  case (2 k to f s)
  have "homed (set_thread d io_reserve s)" for d using "2.prems"(2) by (auto simp: homed_def)
  then show ?case using 2 by (auto split: option.splits if_splits prod.splits)
qed simp

lemma homed_post: "homed s \<Longrightarrow> homed (postMigrations t ds s)"
  by (auto simp: homed_def postMigrations_def)

lemma homed_drain: "homed s \<Longrightarrow> homed (foldl (drain_to to) s ts)"
proof (induction ts arbitrary: s)
  case (Cons t ts)
  have "homed (drain_to to s t)"
    unfolding drain_to_def by (auto split: prod.splits intro: homed_post homed_planMoves [OF _ Cons.prems])
  then show ?case using Cons.IH by simp
qed simp

lemma homed_stop:
  assumes "io_inv {#} s" "homed s"
  shows "homed (stop_done s)"
proof -
  have "t \<notin> {t \<in> set (sv_ids s). reap_class (sv_io s t) = Done}" if "(t, Attach c) \<in> set (sv_mail s)" for t c
  proof
    assume "t \<in> {t \<in> set (sv_ids s). reap_class (sv_io s t) = Done}"
    then have "arriving s t = 0" using done_empty [OF assms(1)] by simp
    moreover have "t \<in># tokens (t, Attach c)" by simp
    ultimately show False using that by (force simp: arriving_def)
  qed
  then show ?thesis using assms(2) by (fastforce simp: homed_def stop_done_def Let_def)
qed

lemma io_step_inv:
  assumes "io_step s s'" "io_inv {#} s \<and> homed s"
  shows "io_inv {#} s' \<and> homed s'"
  using assms
proof (induction rule: io_step.induct)
  case (accepts c s)
  then have "homed (accept_conn c s)"
    by (auto simp: accept_conn_def pickIOThread_def homed_def split: option.splits)
  then show ?case using accepts accept_inv by blast
next
  case (grows s n)
  note a = addIOThreads_inv [of "{#}" s n] add_frame [of n s]
  have "homed ((addIOThread ^^ n) s)" using grows a homed_mono [of s] by simp
  then have "homed (pool_Grow n s)" using rebalance_inv [of "{#}" "(addIOThread ^^ n) s"] grows a homed_same
    by (auto simp: pool_Grow_def)
  then show ?case using grows grow_inv by blast
next
  case (shrinks n s)
  have "homed (pool_Shrink n s)" using shrinks by (auto simp: pool_Shrink_def Let_def intro: homed_drain homed_retire)
  then show ?case using shrinks shrink_inv by blast
next
  case (reaps s)
  define live where "live = filter (\<lambda>t. reap_class (sv_io s t) = Live) (sv_ids s)"
  define stuck where "stuck = filter (\<lambda>t. reap_class (sv_io s t) = Stuck) (sv_ids s)"
  let ?f = "\<lambda>s t. case planMoves (nat (io_connCount (sv_io s t))) live None s of (ds, s') \<Rightarrow> postMigrations t ds s'"
  have i: "io_inv {#} s" "homed s" using reaps by auto
  have h1: "homed (stop_done s)" by (rule homed_stop [OF i])
  have fold: "homed (foldl ?f u ts)" if "homed u" for u ts
    using that
  proof (induction ts arbitrary: u)
    case (Cons t ts)
    obtain ds u' where p: "planMoves (nat (io_connCount (sv_io u t))) live None u = (ds, u')" by fastforce
    have "homed (?f u t)" using homed_post [OF homed_planMoves [OF p Cons.prems]] by (simp add: p)
    then show ?case using Cons.IH by simp
  qed simp
  have r: "homed (rebalance (stop_done s))"
    using homed_same [OF h1 conjunct2 [OF rebalance_inv [OF conjunct1 [OF stop_done_inv [OF i(1)]]]]] .
  let ?c = "live = [] \<or> (\<Sum>t\<leftarrow>live @ stuck. io_pending (sv_io (stop_done s) t)) > 0"
  have e: "pool_Reap s = (if ?c then stop_done s else if stuck = [] then rebalance (foldl ?f (stop_done s) stuck)
      else foldl ?f (stop_done s) stuck)"
    by (simp only: pool_Reap_def Let_def live_def stuck_def)
  have "homed (pool_Reap s)"
  proof (cases ?c)
    case True
    then show ?thesis using h1 unfolding e if_P [OF True] by simp
  next
    case False
    show ?thesis unfolding e if_not_P [OF False] using r fold [OF h1, of stuck] by (cases "stuck = []") simp_all
  qed
  then show ?case using reap_inv [OF i(1)] by simp
next
  case (samples s w)
  have "homed (snd (pool_Sample w s))" using samples homed_mono [of s] by (auto simp: pool_Sample_def split: prod.splits)
  then show ?case using samples sample_io_inv by blast
next
  case (clocks s cpu avg)
  then show ?case by (auto simp: inv_defs homed_def arriving_def headed_def moving_def)
next
  case (holds t s)
  then show ?case using quiet_thread_inv [of io_hold "{#}" s t] by (auto simp: io_hold_def homed_def)
next
  case (releases t s)
  then show ?case using quiet_thread_inv [of io_release "{#}" s t] by (auto simp: io_release_def homed_def)
next
  case (runs s xs t m ys)
  then show ?case using run_mail_inv [of s xs t m ys] homed_run_mail [of s xs t m ys] by simp
next
  case (checks c s q)
  then show ?case using tryFinish_inv [of "{#}" s c q] homed_tryFinish [of s q c] by simp
next
  case (closes c s)
  then show ?case using destroy_inv [of "{#}" s c] homed_destroy [of s c] by simp
qed

lemma start_server_inv: "io_inv {#} (start_server n) \<and> homed (start_server n) \<and> pool_Size (start_server n) = n"
proof -
  let ?s = "\<lparr>sv_ids = [], sv_io = (\<lambda>t. new_io 0), sv_conns = [], sv_conn = (\<lambda>c. new_conn),
     sv_mail = [], sv_cpu = (\<lambda>t. 0), sv_avgLoop = (\<lambda>t. 0)\<rparr>"
  have "io_inv {#} ?s" by (simp add: inv_defs moving_def)
  from addIOThreads_inv [OF this, of n] show ?thesis
    using add_frame [of n ?s] by (simp add: start_server_def homed_def pool_Size_def live_ids_def)
qed

lemma io_run_inv: "io_run n s \<Longrightarrow> io_inv {#} s \<and> homed s"
  by (induction rule: io_run.induct) (use start_server_inv io_step_inv in blast)+

text \<open>C9. No connection is stranded by resizing: whatever loops are started, drained and stopped, and however
  accepts, migrations, closes and posted closures interleave with that, every open connection is in
  the list of a loop that still exists or a closure is posted to such a loop that will attach it, and
  every posted closure is addressed to a loop that still exists.\<close>

theorem connections_never_stranded:
  assumes "io_run n s"
  shows "(\<forall>c\<in>set (sv_conns s). \<not> cn_closing (sv_conn s c) \<longrightarrow>
      (\<exists>t\<in>set (sv_ids s). c \<in> set (io_conns (sv_io s t)) \<or> (t, Attach c) \<in> set (sv_mail s))) \<and>
    (\<forall>x\<in>set (sv_mail s). fst x \<in> set (sv_ids s))"
proof -
  note i = io_run_inv [OF assms]
  have m: "fst x \<in> set (sv_ids s)" if "x \<in> set (sv_mail s)" for x
    using i that by (fastforce simp: inv_defs)
  have "\<exists>t\<in>set (sv_ids s). c \<in> set (io_conns (sv_io s t)) \<or> (t, Attach c) \<in> set (sv_mail s)"
    if c: "c \<in> set (sv_conns s)" "\<not> cn_closing (sv_conn s c)" for c
  proof (cases "cn_owner (sv_conn s c)")
    case None
    then obtain t where "(t, Attach c) \<in> set (sv_mail s)" using i c by (auto simp: homed_def)
    then show ?thesis using m by force
  next
    case (Some t)
    then have "t \<in> set (sv_ids s)" "c \<in> set (io_conns (sv_io s t))" using i c(1) by (auto simp: inv_defs)
    then show ?thesis by blast
  qed
  then show ?thesis using m by blast
qed

theorem connections_never_stranded_witness:
  "io_run 2 (pool_Reap (pool_Grow 1 (start_server 2))) \<and>
   list_all (\<lambda>x. fst x \<in> set (sv_ids (pool_Reap (pool_Grow 1 (start_server 2))))) (sv_mail (pool_Reap (pool_Grow 1 (start_server 2))))"
proof -
  have r: "io_run 2 (pool_Reap (pool_Grow 1 (start_server 2)))"
    by (intro io_run.io_next [OF _ io_step.reaps] io_run.io_next [OF _ io_step.grows] io_run.io_start)
  then show ?thesis using connections_never_stranded [OF r] by (simp add: list_all_iff)
qed

text \<open>Levelling ends and levels: for any loads of the live loops, the loop that moves one connection at a
  time from the fullest to the emptiest ends; in its plan no loop is its own destination, what a loop
  gives and gets accounts for its planned load, no connection is lost, and the planned loads differ
  by at most one.\<close>

theorem levelling_levels:
  assumes "2 \<le> length ls"
  shows "\<exists>ms fin. level_moves ls = (ms, fin) \<and> sum_list fin = sum_list ls \<and>
    (\<forall>(d, r)\<in>set ms. d < length ls \<and> r < length ls \<and> d \<noteq> r) \<and>
    (\<forall>i<length ls. \<forall>j<length ls. fin ! i - fin ! j \<le> 1) \<and>
    (\<forall>i<length ls. fin ! i = ls ! i - int (length (filter (\<lambda>(d, r). d = i) ms)) + int (length (filter (\<lambda>(d, r). r = i) ms)))"
proof -
  obtain ms fin where e: "level_moves ls = (ms, fin)" by fastforce
  note l = level_moves_ok [OF e]
  have "\<forall>i<length ls. \<forall>j<length ls. fin ! i - fin ! j \<le> 1" using l assms by (meson not_less)
  then show ?thesis using e l by blast
qed

theorem levelling_levels_witness: "\<exists>ms fin. level_moves [5, 0, 1] = (ms, fin) \<and> sum_list fin = 6"
  using levelling_levels [of "[5, 0, 1]"] by auto

subsection \<open>Mailboxes\<close>

datatype 'm mb_event = MPost 'm | MWake | MPump | MRead

fun mb_step :: "'m Mailbox \<times> 'm list \<Rightarrow> 'm mb_event \<Rightarrow> 'm Mailbox \<times> 'm list" where
  "mb_step (b, out) (MPost m) = (mb_post m b, out)"
| "mb_step (b, out) MWake = (wake_runs b, out)"
| "mb_step (b, out) MPump = (case pump_runs b of (batch, b') \<Rightarrow> (b', out @ batch))"
| "mb_step (b, out) MRead = (read_event b, out)"

fun posted :: "'m mb_event list \<Rightarrow> 'm list" where
  "posted [] = []"
| "posted (MPost m # es) = m # posted es"
| "posted (e # es) = posted es"

definition mb_inv :: "'m Mailbox \<Rightarrow> bool" where
  "mb_inv b \<longleftrightarrow> mb_hasMail b = (mb_mail b \<noteq> []) \<and> (mb_mail b \<noteq> [] \<longrightarrow> 0 < mb_wakes b \<or> mb_pump b)"

lemma mb_run:
  assumes "mb_inv b"
  shows "let (b', out') = foldl mb_step (b, out) es in mb_inv b' \<and> out' @ mb_mail b' = out @ mb_mail b @ posted es"
  using assms
proof (induction es arbitrary: b out)
  case (Cons e es)
  obtain b1 out1 where s: "mb_step (b, out) e = (b1, out1)" by fastforce
  have "mb_inv b1 \<and> out1 @ mb_mail b1 @ posted es = out @ mb_mail b @ posted (e # es)"
    using s Cons.prems
    by (cases e) (auto simp: mb_inv_def mb_post_def wake_runs_def SchedulePump_def pump_runs_def read_event_def Let_def split: if_splits)
  then show ?case using Cons.IH [of b1 out1] s by (simp add: Let_def split: prod.splits)
qed (simp add: Let_def)

text \<open>A mailbox delivers: whatever the order of posts, wakes, pump runs and read events, the closures run
  and those still in the mailbox are those posted, in order, and as long as one is left a wake is
  on its way or the pump is scheduled, although only a post to an empty mailbox wakes the loop.\<close>

theorem mailbox_delivers:
  "let (b, out) = foldl mb_step (empty_mailbox, []) es in
     out @ mb_mail b = posted es \<and> (mb_mail b = [] \<or> 0 < mb_wakes b \<or> mb_pump b)"
  using mb_run [of empty_mailbox "[]" es] by (auto simp: mb_inv_def empty_mailbox_def Let_def)

end
