(* ===== verification/Auto_Tune.thy ===== *)
theory Auto_Tune
  imports Worker_Pools Io_Pool "HOL-Library.Sublist"
begin

text \<open>
  Auto-tuning put together (\<^verbatim>\<open>server/tuner.h\<close>: \<open>ShardedPoolGroup\<close>; \<^verbatim>\<open>server/engine.cc\<close>: the thread budget of the
  \<open>Bucket\<close> constructor; \<^verbatim>\<open>server/server.cc\<close>: \<open>EnableAutoTune\<close>; \<^verbatim>\<open>server/main.cc\<close>: the bounds): the per-shard
  reader and writer pools presented as one pool each, and the tuner over them and the event loops.
  The group and the event loops meet the tuner's contract, by interpretation of \<open>elastic_pool\<close>.
\<close>

subsection \<open>Per-shard pools as one pool\<close>

record 'q ShardPool =
  in_Size :: "'q \<Rightarrow> nat"
  in_Grow :: "nat \<Rightarrow> 'q \<Rightarrow> 'q"
  in_Shrink :: "nat \<Rightarrow> 'q \<Rightarrow> 'q"
  in_Reap :: "'q \<Rightarrow> 'q"
  in_TakeSample :: "'q \<Rightarrow> Sample \<times> 'q"

definition group_Size :: "'q ShardPool \<Rightarrow> 'q list \<Rightarrow> nat" where
  "group_Size In ps = (\<Sum>p\<leftarrow>ps. in_Size In p)"

definition group_Grow :: "'q ShardPool \<Rightarrow> nat \<Rightarrow> 'q list \<Rightarrow> 'q list" where
  "group_Grow In n ps = (let per = max 1 (n div length ps) in map (in_Grow In per) ps)"

definition group_Shrink :: "'q ShardPool \<Rightarrow> nat \<Rightarrow> 'q list \<Rightarrow> 'q list" where
  "group_Shrink In n ps = (let per = max 1 (n div length ps) in map (in_Shrink In per) ps)"

definition busy_fraction :: "u64 \<Rightarrow> real \<Rightarrow> nat \<Rightarrow> real" where
  "busy_fraction busyNs wallSec n = real (unat busyNs) / (wallSec * 1000000000 * real n)"

definition group_Sample :: "'q ShardPool \<Rightarrow> real \<Rightarrow> 'q list \<Rightarrow> PoolSample \<times> 'q list" where
  "group_Sample In wallSec ps =
    (let ds = map (in_TakeSample In) ps; t = acct_total (map fst ds); n = group_Size In ps;
         peak = foldl (\<lambda>m (d, p). if in_Size In p > 0 \<and> wallSec > 0
           then max m (busy_fraction (sm_busyNs d) wallSec (in_Size In p)) else m) 0 ds
     in (no_sample\<lparr>sp_size := n, sp_busyMax := peak,
           sp_busyMean := (if n > 0 \<and> wallSec > 0 then busy_fraction (sm_busyNs t) wallSec n else 0),
           sp_avgBatch := (if sm_tasks t > 0 then real (unat (sm_items t)) / real (unat (sm_tasks t)) else 0),
           sp_waitUs := (if sm_tasks t > 0 then real (unat (sm_waitNs t)) / 1000 / real (unat (sm_tasks t)) else 0)\<rparr>,
         map snd ds))"

definition ShardedPoolGroup :: "'q ShardPool \<Rightarrow> 'q list ElasticPool" where
  "ShardedPoolGroup In = \<lparr>ep_Size = group_Size In, ep_Step = length, ep_Grow = group_Grow In, ep_Shrink = group_Shrink In,
     ep_Sample = group_Sample In, ep_Reap = map (in_Reap In), ep_Settled = (\<lambda>ps. True)\<rparr>"

definition writer_ops :: "WriterPool ShardPool" where
  "writer_ops = \<lparr>in_Size = wp_live, in_Grow = Grow, in_Shrink = Shrink, in_Reap = Reap, in_TakeSample = TakeSample\<rparr>"

definition reader_ops :: "ReaderPool ShardPool" where
  "reader_ops = \<lparr>in_Size = rp_live, in_Grow = r_Grow, in_Shrink = r_Shrink, in_Reap = r_Reap, in_TakeSample = r_TakeSample\<rparr>"

subsection \<open>Thread budget and bounds\<close>

text \<open>The threads each shard's pool starts with.\<close>

definition shard_budget :: "nat \<Rightarrow> nat \<Rightarrow> nat list" where
  "shard_budget numThreads numShards =
    (let perShard = max 1 (numThreads div numShards);
         extra = (if numThreads > numShards then numThreads mod numShards else 0)
     in map (\<lambda>i. perShard + (if i < extra then 1 else 0)) [0..<numShards])"

record TuneConfig =
  tg_hw :: nat
  tg_shards :: nat
  tg_ioThreads :: nat
  tg_readers :: nat
  tg_writers :: nat
  tg_maxIoThreads :: nat
  tg_maxReaders :: nat
  tg_maxWriters :: nat
  tg_tuneWritersOnly :: bool
  tg_tunePools :: string

definition has_pool :: "string \<Rightarrow> string \<Rightarrow> bool" where
  "has_pool pools n = sublist (CHR '','' # n @ '','') (CHR '','' # pools @ '','')"

definition tune_bounds :: "TuneConfig \<Rightarrow> (nat \<times> nat) \<times> (nat \<times> nat) \<times> (nat \<times> nat)" where
  "tune_bounds c =
    (let hw = max 1 (tg_hw c);
         io = (1, max (if tg_maxIoThreads c \<noteq> 0 then tg_maxIoThreads c else hw) (tg_ioThreads c));
         rd = (tg_shards c, max (if tg_maxReaders c \<noteq> 0 then tg_maxReaders c else 4 * hw) (tg_readers c));
         wr = (tg_shards c, if tg_maxWriters c \<noteq> 0 then tg_maxWriters c else 2 * hw);
         ioF = (tg_ioThreads c, tg_ioThreads c); rdF = (tg_readers c, tg_readers c); wrF = (tg_writers c, tg_writers c);
         io = (if tg_tuneWritersOnly c then ioF else io); rd = (if tg_tuneWritersOnly c then rdF else rd);
         named = tg_tunePools c \<noteq> [];
         io = (if named \<and> \<not> has_pool (tg_tunePools c) ''io'' then ioF else io);
         rd = (if named \<and> \<not> has_pool (tg_tunePools c) ''readers'' then rdF else rd);
         wr = (if named \<and> \<not> has_pool (tg_tunePools c) ''writers'' then wrF else wr)
     in (io, rd, (fst wr, max (snd wr) (tg_writers c))))"

subsection \<open>The tuner over all three pools\<close>

datatype tuned = IoTuned Server | ReadersTuned "ReaderPool list" | WritersTuned "WriterPool list"

definition tuned_pools :: "tuned ElasticPool" where
  "tuned_pools = \<lparr>
     ep_Size = (\<lambda>p. case p of IoTuned s \<Rightarrow> ep_Size IOPool s | ReadersTuned rs \<Rightarrow> ep_Size (ShardedPoolGroup reader_ops) rs
        | WritersTuned ws \<Rightarrow> ep_Size (ShardedPoolGroup writer_ops) ws),
     ep_Step = (\<lambda>p. case p of IoTuned s \<Rightarrow> ep_Step IOPool s | ReadersTuned rs \<Rightarrow> ep_Step (ShardedPoolGroup reader_ops) rs
        | WritersTuned ws \<Rightarrow> ep_Step (ShardedPoolGroup writer_ops) ws),
     ep_Grow = (\<lambda>n p. case p of IoTuned s \<Rightarrow> IoTuned (ep_Grow IOPool n s)
        | ReadersTuned rs \<Rightarrow> ReadersTuned (ep_Grow (ShardedPoolGroup reader_ops) n rs)
        | WritersTuned ws \<Rightarrow> WritersTuned (ep_Grow (ShardedPoolGroup writer_ops) n ws)),
     ep_Shrink = (\<lambda>n p. case p of IoTuned s \<Rightarrow> IoTuned (ep_Shrink IOPool n s)
        | ReadersTuned rs \<Rightarrow> ReadersTuned (ep_Shrink (ShardedPoolGroup reader_ops) n rs)
        | WritersTuned ws \<Rightarrow> WritersTuned (ep_Shrink (ShardedPoolGroup writer_ops) n ws)),
     ep_Sample = (\<lambda>w p. case p of IoTuned s \<Rightarrow> map_prod id IoTuned (ep_Sample IOPool w s)
        | ReadersTuned rs \<Rightarrow> map_prod id ReadersTuned (ep_Sample (ShardedPoolGroup reader_ops) w rs)
        | WritersTuned ws \<Rightarrow> map_prod id WritersTuned (ep_Sample (ShardedPoolGroup writer_ops) w ws)),
     ep_Reap = (\<lambda>p. case p of IoTuned s \<Rightarrow> IoTuned (ep_Reap IOPool s)
        | ReadersTuned rs \<Rightarrow> ReadersTuned (ep_Reap (ShardedPoolGroup reader_ops) rs)
        | WritersTuned ws \<Rightarrow> WritersTuned (ep_Reap (ShardedPoolGroup writer_ops) ws)),
     ep_Settled = (\<lambda>p. case p of IoTuned s \<Rightarrow> ep_Settled IOPool s | ReadersTuned rs \<Rightarrow> ep_Settled (ShardedPoolGroup reader_ops) rs
        | WritersTuned ws \<Rightarrow> ep_Settled (ShardedPoolGroup writer_ops) ws)\<rparr>"

definition EnableAutoTune :: "Server \<Rightarrow> ReaderPool list \<Rightarrow> WriterPool list \<Rightarrow> (nat \<times> nat) \<times> (nat \<times> nat) \<times> (nat \<times> nat) \<Rightarrow> tuned Tuner" where
  "EnableAutoTune s rs ws bounds = (case bounds of (io, rd, wr) \<Rightarrow>
     AddPool (WritersTuned ws) (fst wr) (snd wr) (AddPool (ReadersTuned rs) (fst rd) (snd rd)
       (AddPool (IoTuned s) (fst io) (snd io) new_tuner)))"

subsection \<open>The contract\<close>

text \<open>What the group needs of a shard's pool.\<close>

locale shard_pool =
  fixes In :: "'q ShardPool"
  assumes in_grow: "in_Size In (in_Grow In n q) = in_Size In q + n"
    and in_shrink: "n < in_Size In q \<Longrightarrow> in_Size In (in_Shrink In n q) = in_Size In q - n"
    and in_reap: "in_Size In (in_Reap In q) = in_Size In q"
    and in_sample: "in_Size In (snd (in_TakeSample In q)) = in_Size In q"

definition even_shards :: "'q ShardPool \<Rightarrow> 'q list \<Rightarrow> bool" where
  "even_shards In ps \<longleftrightarrow> ps \<noteq> [] \<and> (\<exists>k\<ge>1. \<forall>q\<in>set ps. in_Size In q = k)"

lemma even_size: "\<forall>q\<in>set ps. in_Size In q = k \<Longrightarrow> group_Size In ps = length ps * k"
  by (induction ps) (auto simp: group_Size_def)

lemma even_shardsI: "ps \<noteq> [] \<Longrightarrow> 1 \<le> k \<Longrightarrow> \<forall>q\<in>set ps. in_Size In q = k \<Longrightarrow> even_shards In ps"
  by (auto simp: even_shards_def)

sublocale shard_pool \<subseteq> group: elastic_pool "ShardedPoolGroup In" "even_shards In"
proof
  fix p :: "'q list" and n :: nat and w :: real
  assume ok: "even_shards In p"
  then obtain k where k: "1 \<le> k" "\<forall>q\<in>set p. in_Size In q = k" "p \<noteq> []" by (auto simp: even_shards_def)
  note sz = even_size [OF k(2)]
  show "0 < ep_Step (ShardedPoolGroup In) p \<and> ep_Step (ShardedPoolGroup In) p dvd ep_Size (ShardedPoolGroup In) p"
    using k sz by (simp add: ShardedPoolGroup_def)
  {
    assume n: "0 < n" "ep_Step (ShardedPoolGroup In) p dvd n"
    then obtain m where m: "n = length p * m" "1 \<le> m" by (auto simp: ShardedPoolGroup_def Suc_le_eq)
    then have per: "max (Suc 0) (n div length p) = m" using k by simp
    have "\<forall>q\<in>set (group_Grow In n p). in_Size In q = k + m"
      using k by (auto simp: group_Grow_def Let_def per in_grow)
    from even_size [OF this] even_shardsI [OF _ _ this] k show "even_shards In (ep_Grow (ShardedPoolGroup In) n p) \<and>
      ep_Size (ShardedPoolGroup In) (ep_Grow (ShardedPoolGroup In) n p) = ep_Size (ShardedPoolGroup In) p + n \<and>
      ep_Step (ShardedPoolGroup In) (ep_Grow (ShardedPoolGroup In) n p) = ep_Step (ShardedPoolGroup In) p"
      using sz m by (simp add: ShardedPoolGroup_def) (simp add: group_Grow_def Let_def algebra_simps)
    assume "n < ep_Size (ShardedPoolGroup In) p"
    then have "m < k" using sz m by (simp add: ShardedPoolGroup_def)
    then have "\<forall>q\<in>set (group_Shrink In n p). in_Size In q = k - m"
      using k by (auto simp: group_Shrink_def Let_def per in_shrink)
    from even_size [OF this] even_shardsI [OF _ _ this] k show "even_shards In (ep_Shrink (ShardedPoolGroup In) n p) \<and>
      ep_Size (ShardedPoolGroup In) (ep_Shrink (ShardedPoolGroup In) n p) = ep_Size (ShardedPoolGroup In) p - n \<and>
      ep_Step (ShardedPoolGroup In) (ep_Shrink (ShardedPoolGroup In) n p) = ep_Step (ShardedPoolGroup In) p"
      using sz m \<open>m < k\<close> by (simp add: ShardedPoolGroup_def) (simp add: group_Shrink_def Let_def algebra_simps)
  }
  have "\<forall>q\<in>set (snd (group_Sample In w p)). in_Size In q = k"
    using k by (auto simp: group_Sample_def Let_def in_sample)
  from even_size [OF this] even_shardsI [OF _ k(1) this] show "even_shards In (snd (ep_Sample (ShardedPoolGroup In) w p)) \<and>
    ep_Size (ShardedPoolGroup In) (snd (ep_Sample (ShardedPoolGroup In) w p)) = ep_Size (ShardedPoolGroup In) p \<and>
    ep_Step (ShardedPoolGroup In) (snd (ep_Sample (ShardedPoolGroup In) w p)) = ep_Step (ShardedPoolGroup In) p"
    using sz k(3) by (simp add: ShardedPoolGroup_def) (simp add: group_Sample_def Let_def)
  have "\<forall>q\<in>set (map (in_Reap In) p). in_Size In q = k" using k by (auto simp: in_reap)
  from even_size [OF this] even_shardsI [OF _ k(1) this] show "even_shards In (ep_Reap (ShardedPoolGroup In) p) \<and>
    ep_Size (ShardedPoolGroup In) (ep_Reap (ShardedPoolGroup In) p) = ep_Size (ShardedPoolGroup In) p \<and>
    ep_Step (ShardedPoolGroup In) (ep_Reap (ShardedPoolGroup In) p) = ep_Step (ShardedPoolGroup In) p"
    using sz k(3) by (simp add: ShardedPoolGroup_def)
qed

lemma r_spawn_n: "rp_live ((r_spawn ^^ n) p) = rp_live p + n"
  by (induction n) (auto simp: r_spawn_def)

interpretation writers: shard_pool writer_ops
  by unfold_locales (auto simp: writer_ops_def Grow_def spawn_n Shrink_def Let_def Reap_def TakeSample_def)

interpretation readers: shard_pool reader_ops
  by unfold_locales (auto simp: reader_ops_def r_Grow_def r_spawn_n r_Shrink_def Let_def r_Reap_def r_TakeSample_def)

definition io_pool_ok :: "Server \<Rightarrow> bool" where
  "io_pool_ok s \<longleftrightarrow> io_inv {#} s"

interpretation io_loops: elastic_pool IOPool io_pool_ok
  by unfold_locales
    (auto simp: IOPool_def io_pool_ok_def grow_inv shrink_inv sample_io_inv reap_inv, simp_all add: pool_Size_def sample_io_inv reap_inv)

definition tuned_ok :: "tuned \<Rightarrow> bool" where
  "tuned_ok p = (case p of IoTuned s \<Rightarrow> io_pool_ok s | ReadersTuned rs \<Rightarrow> even_shards reader_ops rs
     | WritersTuned ws \<Rightarrow> even_shards writer_ops ws)"

interpretation tuned: elastic_pool tuned_pools tuned_ok
proof unfold_locales
  fix p
  assume "tuned_ok p"
  then show "0 < ep_Step tuned_pools p \<and> ep_Step tuned_pools p dvd ep_Size tuned_pools p"
    using io_loops.size_step readers.group.size_step writers.group.size_step
    by (cases p) (auto simp: tuned_ok_def tuned_pools_def)
next
  fix p and n :: nat
  assume "tuned_ok p" "0 < n" "ep_Step tuned_pools p dvd n"
  then show "tuned_ok (ep_Grow tuned_pools n p) \<and> ep_Size tuned_pools (ep_Grow tuned_pools n p) = ep_Size tuned_pools p + n \<and>
      ep_Step tuned_pools (ep_Grow tuned_pools n p) = ep_Step tuned_pools p"
    using io_loops.grow readers.group.grow writers.group.grow
    by (cases p) (auto simp: tuned_ok_def tuned_pools_def)
next
  fix p and n :: nat
  assume "tuned_ok p" "0 < n" "ep_Step tuned_pools p dvd n" "n < ep_Size tuned_pools p"
  then show "tuned_ok (ep_Shrink tuned_pools n p) \<and> ep_Size tuned_pools (ep_Shrink tuned_pools n p) = ep_Size tuned_pools p - n \<and>
      ep_Step tuned_pools (ep_Shrink tuned_pools n p) = ep_Step tuned_pools p"
    using io_loops.shrink readers.group.shrink writers.group.shrink
    by (cases p) (auto simp: tuned_ok_def tuned_pools_def)
next
  fix p w
  assume "tuned_ok p"
  then show "tuned_ok (snd (ep_Sample tuned_pools w p)) \<and> ep_Size tuned_pools (snd (ep_Sample tuned_pools w p)) = ep_Size tuned_pools p \<and>
      ep_Step tuned_pools (snd (ep_Sample tuned_pools w p)) = ep_Step tuned_pools p"
    using io_loops.sample readers.group.sample writers.group.sample
    by (cases p) (auto simp: tuned_ok_def tuned_pools_def)
next
  fix p
  assume "tuned_ok p"
  then show "tuned_ok (ep_Reap tuned_pools p) \<and> ep_Size tuned_pools (ep_Reap tuned_pools p) = ep_Size tuned_pools p \<and>
      ep_Step tuned_pools (ep_Reap tuned_pools p) = ep_Step tuned_pools p"
    using io_loops.reap readers.group.reap writers.group.reap
    by (cases p) (auto simp: tuned_ok_def tuned_pools_def)
qed

subsection \<open>What the tuner does to the server\<close>

text \<open>A pool may be tuned between its bounds: it is well formed, and its size lies between them and moves in
  steps that reach them.\<close>

definition tunable :: "tuned \<Rightarrow> nat \<times> nat \<Rightarrow> bool" where
  "tunable p b \<longleftrightarrow> tuned_ok p \<and> 0 < fst b \<and> fst b \<le> ep_Size tuned_pools p \<and> ep_Size tuned_pools p \<le> snd b \<and>
     ep_Step tuned_pools p dvd fst b \<and> ep_Step tuned_pools p dvd snd b"

lemma new_pool_sized: "tunable p (lo, hi) \<Longrightarrow> pool_sized tuned_pools tuned_ok (new_pool_state p lo hi)"
  by (simp add: tunable_def pool_sized_def Let_def new_pool_state_def no_direction_def)

lemma enable_inv:
  assumes "tunable (IoTuned s) io" "tunable (ReadersTuned rs) rd" "tunable (WritersTuned ws) wr"
  shows "tuner_inv cfg tuned_pools tuned_ok (EnableAutoTune s rs ws (io, rd, wr))"
proof -
  have "trial_age cfg 0 (new_pool_state p lo hi)" "pl_trial (new_pool_state p lo hi) = NoTrial" for p :: tuned and lo hi
    by (simp_all add: trial_age_def new_pool_state_def)
  moreover have "one_trial pss" if "\<forall>ps\<in>set pss. pl_trial ps = NoTrial" for pss :: "tuned PoolState list"
    using that by (simp add: one_trial_def)
  ultimately show ?thesis using assms new_pool_sized
    by (simp add: tuner_inv_def EnableAutoTune_def AddPool_def new_tuner_def)
qed



lemma tunable_samples:
  "tunable (IoTuned (start_server 2)) (1, 8)" "tunable (ReadersTuned [new_ReaderPool 3, new_ReaderPool 3]) (2, 16)"
  "tunable (WritersTuned [new_WriterPool 0 1, new_WriterPool 0 1]) (2, 8)"
proof -
  have r: "rp_live (new_ReaderPool n) = n" for n by (simp add: new_ReaderPool_def r_spawn_n)
  have w: "wp_live (new_WriterPool c n) = n" for c n by (simp add: new_WriterPool_def spawn_n)
  show "tunable (IoTuned (start_server 2)) (1, 8)"
    using start_server_inv [of 2] by (simp add: tunable_def tuned_ok_def tuned_pools_def io_pool_ok_def IOPool_def)
  show "tunable (ReadersTuned [new_ReaderPool 3, new_ReaderPool 3]) (2, 16)"
    "tunable (WritersTuned [new_WriterPool 0 1, new_WriterPool 0 1]) (2, 8)"
    by (auto simp: tunable_def tuned_ok_def tuned_pools_def ShardedPoolGroup_def even_shards_def group_Size_def
        reader_ops_def writer_ops_def r w numeral_2_eq_2 [symmetric])
qed



text \<open>C36. Shards of unequal size lose their readers: a shrink of the group, by any number of threads, takes a
  thread from every shard, so a shard that has a single reader is left with none and its reads are
  never served. With 8 readers over 5 shards, the thread budget gives two shards a single reader,
  and the tuner's smallest shrink towards its lower bound of 5 is such a shrink.\<close>

theorem shrink_strands_small_shards:
  assumes "q \<in> set rs" "rp_live q = 1"
  shows "\<exists>q'\<in>set (group_Shrink reader_ops n rs). rp_live q' = 0"
proof -
  have "rp_live (r_Shrink (max 1 (n div length rs)) q) = 0" using assms(2) by (simp add: r_Shrink_def Let_def)
  then show ?thesis using assms(1) by (auto simp: group_Shrink_def Let_def reader_ops_def)
qed

theorem shrink_strands_small_shards_witness:
  "shard_budget 8 5 = [2, 2, 2, 1, 1] \<and>
   (\<exists>q'\<in>set (group_Shrink reader_ops 3 (map new_ReaderPool (shard_budget 8 5))). rp_live q' = 0)"
proof -
  have b: "shard_budget 8 5 = [2, 2, 2, 1, 1]" by code_simp
  have "rp_live (new_ReaderPool 1) = 1" by (simp add: new_ReaderPool_def r_spawn_def)
  moreover have "new_ReaderPool 1 \<in> set (map new_ReaderPool (shard_budget 8 5))" by (simp add: b)
  ultimately show ?thesis using shrink_strands_small_shards [of "new_ReaderPool 1" "map new_ReaderPool (shard_budget 8 5)" 3] b by simp
qed

end
