(* ===== verification/Read_Queue.thy ===== *)
theory Read_Queue
  imports Request_Queues
begin

text \<open>
  The per-vbucket read queues (\<^verbatim>\<open>server/engine.h\<close>: the read fields of \<open>VBQueue\<close>; \<^verbatim>\<open>server/engine.cc\<close>:
  \<open>Bucket::EnqueueRead\<close>, \<open>ReaderPool::collectRead\<close>, \<open>releaseReadVBQueue\<close>). A queue is the lock-free stack of new
  requests and the overflow list that earlier rounds left behind. Here every function runs without
  interference, which gives the order of service; what several owners and enqueuers do to each other
  is in the theory of the read protocol. Depths are \<open>int\<close> and owner counts \<open>nat\<close>: both stay far below
  their widths, the latter by the owner limit.
\<close>

subsection \<open>The queues\<close>

record ReadCfg =
  rc_maxBatch :: nat
  rc_maxOwners :: nat

record ReadQueue =
  rd_list :: "rid option"
  rd_owners :: nat
  rd_depth :: int
  rd_ovfHead :: "rid option"
  rd_ovfTail :: "rid option"

definition empty_read_queue :: ReadQueue where
  "empty_read_queue = \<lparr>rd_list = None, rd_owners = 0, rd_depth = 0, rd_ovfHead = None, rd_ovfTail = None\<rparr>"

text \<open>A shard's read queues and the tasks its reader pool holds, newest last.\<close>

record ReadQueues =
  rd_vbs :: "u16 \<Rightarrow> ReadQueue"
  rd_tasks :: "u16 list"

definition set_vb :: "ReadQueues \<Rightarrow> u16 \<Rightarrow> ReadQueue \<Rightarrow> ReadQueues" where
  "set_vb R v q = R\<lparr>rd_vbs := (rd_vbs R)(v := q)\<rparr>"

definition arm :: "ReadQueues \<Rightarrow> u16 \<Rightarrow> ReadQueues" where
  "arm R v = (let q = rd_vbs R v in (set_vb R v (q\<lparr>rd_owners := rd_owners q + 1\<rparr>))\<lparr>rd_tasks := rd_tasks R @ [v]\<rparr>)"

text \<open>Whether an enqueuer that read these owners at this depth leaves it to them.\<close>

definition enough_owners :: "ReadCfg \<Rightarrow> nat \<Rightarrow> int \<Rightarrow> bool" where
  "enough_owners cfg owners depth \<longleftrightarrow>
     owners \<noteq> 0 \<and> (owners \<ge> rc_maxOwners cfg \<or> depth \<le> int (owners * rc_maxBatch cfg))"

definition EnqueueRead :: "ReadCfg \<Rightarrow> store \<Rightarrow> ReadQueues \<Rightarrow> rid \<Rightarrow> store \<times> ReadQueues" where
  "EnqueueRead cfg st R r =
     (let v = rq_vbucket (st r); q = rd_vbs R v;
          (st, h, _) = insertHead st (rd_list q) r;
          depth = rd_depth q + 1;
          R = set_vb R v (q\<lparr>rd_list := h, rd_depth := depth\<rparr>)
      in (st, if enough_owners cfg (rd_owners q) depth then R else arm R v))"

definition releaseReadVBQueue :: "ReadCfg \<Rightarrow> ReadQueues \<Rightarrow> u16 \<Rightarrow> ReadQueues" where
  "releaseReadVBQueue cfg R v =
     (let q = rd_vbs R v; q = q\<lparr>rd_owners := rd_owners q - 1\<rparr>; R = set_vb R v q
      in if rd_ovfHead q = None \<and> rd_list q = None \<and> rd_depth q \<le> 0 then R
         else if rd_owners q < rc_maxOwners cfg then arm R v else R)"

subsection \<open>Taking a batch\<close>

text \<open>The oldest requests of the overflow, at most \<open>room\<close> of them.\<close>

fun drain_overflow :: "nat \<Rightarrow> store \<Rightarrow> rid option \<Rightarrow> rid list \<times> store \<times> rid option" where
  "drain_overflow (Suc room) st (Some r) =
     (let (rs, st', ovf) = drain_overflow room (set_next st r None) (rq_next (st r)) in (r # rs, st', ovf))"
| "drain_overflow room st ovf = ([], st, ovf)"

text \<open>Linking what is past the cap, oldest first.\<close>

fun relink :: "store \<Rightarrow> rid list \<Rightarrow> store" where
  "relink st (a # b # cs) = relink (set_next st a (Some b)) (b # cs)"
| "relink st [a] = set_next st a None"
| "relink st [] = st"

definition append_overflow :: "store \<Rightarrow> ReadQueue \<Rightarrow> rid list \<Rightarrow> store \<times> ReadQueue" where
  "append_overflow st q excess =
     (let st = relink st excess; newHead = hd excess; newTail = last excess;
          (st, q) = (case rd_ovfTail q of
                       Some t \<Rightarrow> (set_next st t (Some newHead), q)
                     | None \<Rightarrow> (st, q\<lparr>rd_ovfHead := Some newHead\<rparr>))
      in (st, q\<lparr>rd_ovfTail := Some newTail\<rparr>))"

text \<open>\<open>fuel\<close> bounds the length of the swept chain.\<close>

definition collectRead :: "nat \<Rightarrow> ReadCfg \<Rightarrow> store \<Rightarrow> ReadQueues \<Rightarrow> u16 \<Rightarrow> (rid list \<times> store \<times> ReadQueues) option" where
  "collectRead fuel cfg st R v =
     (let q = rd_vbs R v;
          (batch, st, ovf) = drain_overflow (rc_maxBatch cfg) st (rd_ovfHead q);
          q = q\<lparr>rd_ovfHead := ovf, rd_ovfTail := (if ovf = None then None else rd_ovfTail q)\<rparr>
      in case (if length batch < rc_maxBatch cfg then sweepOnce fuel st (rd_list q)
               else Some (([], st), rd_list q)) of
           None \<Rightarrow> None
         | Some ((fresh, st), h) \<Rightarrow>
             let batch = batch @ rev fresh; q = q\<lparr>rd_list := h\<rparr>
             in if batch = [] then Some ([], st, releaseReadVBQueue cfg (set_vb R v q) v)
                else let (st, q) = (if length batch > rc_maxBatch cfg
                                    then append_overflow st q (drop (rc_maxBatch cfg) batch) else (st, q));
                         batch = take (rc_maxBatch cfg) batch
                     in Some (batch, st, set_vb R v (q\<lparr>rd_depth := rd_depth q - int (length batch)\<rparr>)))"

subsection \<open>Order of service\<close>

text \<open>The requests of a queue, oldest first: the overflow, then the stack from its bottom.\<close>

definition rq_holds :: "store \<Rightarrow> ReadQueue \<Rightarrow> rid list \<Rightarrow> rid list \<Rightarrow> bool" where
  "rq_holds st q ovf new \<longleftrightarrow> path st (rd_ovfHead q) ovf None \<and> path st (rd_list q) (rev new) None \<and>
     distinct (ovf @ new) \<and> rd_ovfTail q = (if ovf = [] then None else Some (last ovf))"

definition waiting :: "store \<Rightarrow> ReadQueue \<Rightarrow> rid list \<Rightarrow> bool" where
  "waiting st q rs \<longleftrightarrow> (\<exists>ovf new. rq_holds st q ovf new \<and> rs = ovf @ new)"

lemma rq_holds_frame:
  assumes "rq_holds st q ovf new" and "\<And>x. x \<in> set (ovf @ new) \<Longrightarrow> rq_next (st' x) = rq_next (st x)"
  shows "rq_holds st' q ovf new"
  using assms path_frame [of ovf st' st] path_frame [of "rev new" st' st] by (auto simp: rq_holds_def)

lemma drain_overflow_ok:
  "path st h xs None \<Longrightarrow> distinct xs \<Longrightarrow>
   \<exists>st' h'. drain_overflow n st h = (take n xs, st', h') \<and> path st' h' (drop n xs) None \<and> contents_eq st st' \<and>
     (\<forall>x. x \<notin> set xs \<longrightarrow> st' x = st x)"
proof (induction xs arbitrary: st h n)
  case Nil
  then show ?case by (cases n) simp_all
next
  case (Cons r rs)
  show ?case
  proof (cases n)
    case 0
    then show ?thesis using Cons.prems by (cases h) auto
  next
    case (Suc m)
    have p: "path (set_next st r None) (rq_next (st r)) rs None" using Cons.prems by simp
    obtain st' h' where "drain_overflow m (set_next st r None) (rq_next (st r)) = (take m rs, st', h')"
      "path st' h' (drop m rs) None" "contents_eq (set_next st r None) st'"
      "\<forall>x. x \<notin> set rs \<longrightarrow> st' x = set_next st r None x"
      using Cons.IH [OF p, of m] Cons.prems(2) by (metis distinct.simps(2))
    then show ?thesis
      using Cons.prems(1) Suc contents_eq_trans [of st "set_next st r None" st'] by auto
  qed
qed

lemma drainChain_frame:
  "path st h xs None \<Longrightarrow> distinct xs \<Longrightarrow> drainChain n st h = Some (rs, st') \<Longrightarrow> x \<notin> set xs \<Longrightarrow> st' x = st x"
proof (induction xs arbitrary: st h n rs)
  case Nil
  then show ?case by (cases n) auto
next
  case (Cons r xs)
  obtain m where n: "n = Suc m" using Cons.prems(1,3) by (cases n) auto
  obtain rs' where d: "drainChain m (set_next st r None) (rq_next (st r)) = Some (rs', st')"
    using Cons.prems(1,3) n by (auto split: option.splits)
  have p: "path (set_next st r None) (rq_next (st r)) xs None" using Cons.prems(1,2) by simp
  have "st' x = set_next st r None x" by (rule Cons.IH [OF p _ d]) (use Cons.prems(2,4) in simp_all)
  then show ?case using Cons.prems(4) by simp
qed

lemma relink_ok:
  "distinct xs \<Longrightarrow> xs \<noteq> [] \<Longrightarrow> path (relink st xs) (Some (hd xs)) xs None \<and> contents_eq st (relink st xs) \<and>
     (\<forall>x. x \<notin> set xs \<longrightarrow> relink st xs x = st x)"
proof (induction st xs rule: relink.induct)
  case (1 st a b cs)
  let ?st = "relink (set_next st a (Some b)) (b # cs)"
  have IH: "path ?st (Some b) (b # cs) None" "contents_eq (set_next st a (Some b)) ?st"
    "\<And>x. x \<notin> set (b # cs) \<Longrightarrow> ?st x = set_next st a (Some b) x"
    using 1(1) 1(2) by (simp_all del: set_next_apply)
  have "rq_next (?st a) = Some b" using IH(3) [of a] 1(2) by simp
  moreover have "contents_eq st ?st" using contents_eq_trans [OF _ IH(2), of st] by simp
  ultimately show ?case using IH(1,3) by simp
qed simp_all

lemma append_overflow_ok:
  assumes "path st (rd_ovfHead q) ovf None" and "rd_ovfTail q = (if ovf = [] then None else Some (last ovf))"
    and "distinct (ovf @ xs)" and "xs \<noteq> []" and "append_overflow st q xs = (st', q')"
  shows "path st' (rd_ovfHead q') (ovf @ xs) None \<and> rd_ovfTail q' = Some (last xs) \<and> rd_list q' = rd_list q \<and>
    rd_depth q' = rd_depth q \<and> rd_owners q' = rd_owners q \<and> contents_eq st st' \<and>
    (\<forall>x. x \<notin> set (ovf @ xs) \<longrightarrow> st' x = st x)"
proof -
  let ?st = "relink st xs"
  have R: "path ?st (Some (hd xs)) xs None" "contents_eq st ?st" "\<And>x. x \<notin> set xs \<Longrightarrow> ?st x = st x"
    using relink_ok [of xs st] assms(3,4) by auto
  show ?thesis
  proof (cases ovf rule: rev_cases)
    case Nil
    then show ?thesis using assms R by (auto simp: append_overflow_def)
  next
    case (snoc ys l)
    have o: "path ?st (rd_ovfHead q) (ys @ [l]) None"
    proof (subst path_frame [of "ys @ [l]" ?st st])
      show "rq_next (?st x) = rq_next (st x)" if "x \<in> set (ys @ [l])" for x
        using R(3) [of x] that assms(3) snoc by (metis distinct_append disjoint_iff)
    qed (use assms(1) snoc in simp)
    have t: "path (set_next ?st l (Some (hd xs))) (rd_ovfHead q) (ys @ [l]) (Some (hd xs))"
      by (rule path_set_last [OF o]) (use assms(3) snoc in auto)
    have "path (set_next ?st l (Some (hd xs))) (Some (hd xs)) xs None"
      using R(1) assms(3) snoc by (subst path_outside) auto
    then have "path (set_next ?st l (Some (hd xs))) (rd_ovfHead q) (ovf @ xs) None"
      using t snoc path_append by blast
    then show ?thesis using assms(2,5) snoc R(2,3) by (auto simp: append_overflow_def)
  qed
qed

lemma rd_vbs_set_vb [simp]: "rd_vbs (set_vb R v q) w = (if w = v then q else rd_vbs R w)"
  by (simp add: set_vb_def)

lemma set_vb_tasks [simp]: "rd_tasks (set_vb R v q) = rd_tasks R"
  by (simp add: set_vb_def)

lemma arm_vbs [simp]:
  "rd_list (rd_vbs (arm R v) w) = rd_list (rd_vbs R w)" "rd_ovfHead (rd_vbs (arm R v) w) = rd_ovfHead (rd_vbs R w)"
  "rd_ovfTail (rd_vbs (arm R v) w) = rd_ovfTail (rd_vbs R w)" "rd_depth (rd_vbs (arm R v) w) = rd_depth (rd_vbs R w)"
  by (simp_all add: arm_def Let_def)

lemma release_vbs [simp]:
  "rd_list (rd_vbs (releaseReadVBQueue cfg R v) w) = rd_list (rd_vbs R w)"
  "rd_ovfHead (rd_vbs (releaseReadVBQueue cfg R v) w) = rd_ovfHead (rd_vbs R w)"
  "rd_ovfTail (rd_vbs (releaseReadVBQueue cfg R v) w) = rd_ovfTail (rd_vbs R w)"
  "rd_depth (rd_vbs (releaseReadVBQueue cfg R v) w) = rd_depth (rd_vbs R w)"
  by (simp_all add: releaseReadVBQueue_def Let_def)

lemma rq_holds_release [simp]: "rq_holds st (rd_vbs (releaseReadVBQueue cfg R v) w) ovf new = rq_holds st (rd_vbs R w) ovf new"
  by (simp add: rq_holds_def)

lemma collectRead_ok:
  assumes h: "rq_holds st (rd_vbs R v) ovf new" and m: "0 < rc_maxBatch cfg" and f: "length new \<le> fuel"
  defines "rs \<equiv> ovf @ new"
  shows "\<exists>st' R' ovf' new'. collectRead fuel cfg st R v = Some (take (rc_maxBatch cfg) rs, st', R') \<and> contents_eq st st' \<and>
    rq_holds st' (rd_vbs R' v) ovf' new' \<and> ovf' @ new' = drop (rc_maxBatch cfg) rs \<and>
    rd_depth (rd_vbs R' v) = rd_depth (rd_vbs R v) - int (min (rc_maxBatch cfg) (length rs)) \<and>
    (\<forall>w. w \<noteq> v \<longrightarrow> rd_vbs R' w = rd_vbs R w) \<and> (\<forall>x. x \<notin> set rs \<longrightarrow> st' x = st x)"
proof -
  let ?n = "rc_maxBatch cfg" and ?q = "rd_vbs R v"
  have p: "path st (rd_ovfHead ?q) ovf None" "path st (rd_list ?q) (rev new) None" "distinct (ovf @ new)"
    "rd_ovfTail ?q = (if ovf = [] then None else Some (last ovf))"
    using h by (auto simp: rq_holds_def)
  obtain st1 o1 where d: "drain_overflow ?n st (rd_ovfHead ?q) = (take ?n ovf, st1, o1)"
    "path st1 o1 (drop ?n ovf) None" "contents_eq st st1" "\<And>x. x \<notin> set ovf \<Longrightarrow> st1 x = st x"
    using drain_overflow_ok [OF p(1), of ?n] p(3) by auto
  have new1: "path st1 (rd_list ?q) (rev new) None"
  proof (subst path_frame [of "rev new" st1 st])
    show "rq_next (st1 x) = rq_next (st x)" if "x \<in> set (rev new)" for x
      using that p(3) d(4) [of x] by (metis disjoint_iff distinct_append set_rev)
  qed (rule p(2))
  show ?thesis
  proof (cases "?n \<le> length ovf")
    case True
    have t: "(if o1 = None then None else rd_ovfTail ?q) = (if drop ?n ovf = [] then None else Some (last (drop ?n ovf)))"
    proof (cases "drop ?n ovf = []")
      case False
      then have "last (drop ?n ovf) = last ovf" "ovf \<noteq> []" by (auto simp: last_drop)
      moreover have "o1 \<noteq> None" using d(2) False by (cases "drop ?n ovf") auto
      ultimately show ?thesis using False p(4) by simp
    qed (use d(2) in simp)
    have "collectRead fuel cfg st R v = Some (take ?n rs, st1, set_vb R v (?q\<lparr>rd_ovfHead := o1,
        rd_ovfTail := (if o1 = None then None else rd_ovfTail ?q), rd_depth := rd_depth ?q - int ?n\<rparr>))"
      using True m d(1) by (auto simp: collectRead_def rs_def Let_def)
    moreover have "rq_holds st1 (?q\<lparr>rd_ovfHead := o1, rd_ovfTail := (if o1 = None then None else rd_ovfTail ?q),
        rd_depth := rd_depth ?q - int ?n\<rparr>) (drop ?n ovf) new"
      using d(2) new1 p(3) t set_drop_subset [of ?n ovf] by (auto simp: rq_holds_def)
    ultimately show ?thesis using True d(3,4) by (intro exI conjI) (auto simp: rs_def)
  next
    case False
    then have o: "o1 = None" "take ?n ovf = ovf" using d(2) by auto
    obtain st2 where s: "sweepOnce fuel st1 (rd_list ?q) = Some ((rev new, st2), None)" "contents_eq st1 st2"
      using sweepOnce_ok [OF new1, of fuel] p(3) f by auto
    have c: "contents_eq st st2" using contents_eq_trans [OF d(3) s(2)] .
    have "st2 x = st1 x" if "x \<notin> set rs" for x
      using drainChain_frame [OF new1, of fuel "rev new" st2 x] s(1) p(3) that by (simp add: sweepOnce_def rs_def)
    then have fr: "st2 x = st x" if "x \<notin> set rs" for x using that d(4) [of x] by (simp add: rs_def)
    let ?q1 = "?q\<lparr>rd_ovfHead := None, rd_ovfTail := None, rd_list := None\<rparr>"
    show ?thesis
    proof (cases "length rs \<le> ?n")
      case True
      show ?thesis
      proof (cases "rs = []")
        case True
        have "collectRead fuel cfg st R v = Some ([], st2, releaseReadVBQueue cfg (set_vb R v ?q1) v)"
          using False m d(1) o s True by (simp add: collectRead_def rs_def Let_def)
        moreover have "rd_vbs (releaseReadVBQueue cfg (set_vb R v ?q1) v) w = rd_vbs R w" if "w \<noteq> v" for w
          using that by (simp add: releaseReadVBQueue_def arm_def Let_def)
        moreover have "rq_holds st2 (rd_vbs (releaseReadVBQueue cfg (set_vb R v ?q1) v) v) [] []"
          by (simp add: rq_holds_def)
        ultimately show ?thesis using c fr True by fastforce
      next
        case ne: False
        have "collectRead fuel cfg st R v = Some (rs, st2, set_vb R v (?q1\<lparr>rd_depth := rd_depth ?q - int (length rs)\<rparr>))"
          using False d(1) o s True ne by (auto simp: collectRead_def rs_def Let_def)
        moreover have "rq_holds st2 (?q1\<lparr>rd_depth := rd_depth ?q - int (length rs)\<rparr>) [] []" by (simp add: rq_holds_def)
        ultimately show ?thesis using c fr True by fastforce
      qed
    next
      case long: False
      let ?x = "drop ?n rs"
      obtain st3 q3 where a: "append_overflow st2 ?q1 ?x = (st3, q3)" by force
      have dx: "distinct ([] @ ?x)" "?x \<noteq> []" using p(3) long by (simp_all add: rs_def [symmetric])
      have A: "path st3 (rd_ovfHead q3) ?x None" "rd_ovfTail q3 = Some (last ?x)" "rd_list q3 = None"
        "rd_depth q3 = rd_depth ?q" "contents_eq st2 st3" "\<And>x. x \<notin> set ?x \<Longrightarrow> st3 x = st2 x"
        using append_overflow_ok [OF _ _ dx a] by simp_all
      have "collectRead fuel cfg st R v = Some (take ?n rs, st3, set_vb R v (q3\<lparr>rd_depth := rd_depth q3 - int ?n\<rparr>))"
        using False d(1) o s long a by (auto simp: collectRead_def rs_def Let_def)
      moreover have "rq_holds st3 (q3\<lparr>rd_depth := rd_depth q3 - int ?n\<rparr>) ?x []"
        using A dx by (simp add: rq_holds_def)
      moreover have "st3 x = st x" if "x \<notin> set rs" for x
        using that fr [OF that] A(6) [of x] in_set_dropD [of x ?n rs] by auto
      ultimately show ?thesis using contents_eq_trans [OF c A(5)] A(4) long by (intro exI conjI) auto
    qed
  qed
qed

lemma EnqueueRead_ok:
  assumes "rq_holds st (rd_vbs R v) ovf new" and "rq_vbucket (st r) = v" and "r \<notin> set (ovf @ new)"
    and "EnqueueRead cfg st R r = (st', R')"
  shows "rq_holds st' (rd_vbs R' v) ovf (new @ [r]) \<and> contents_eq st st' \<and>
    rd_depth (rd_vbs R' v) = rd_depth (rd_vbs R v) + 1"
proof -
  let ?q = "rd_vbs R v"
  have st': "st' = set_next st r (rd_list ?q)" and q': "rd_list (rd_vbs R' v) = Some r" "rd_ovfHead (rd_vbs R' v) = rd_ovfHead ?q"
    "rd_ovfTail (rd_vbs R' v) = rd_ovfTail ?q" "rd_depth (rd_vbs R' v) = rd_depth ?q + 1"
    using assms(2,4) by (auto simp: EnqueueRead_def insertHead_def insertChain_def Let_def)
  have "rq_holds st' ?q ovf new" by (rule rq_holds_frame [OF assms(1)]) (use assms(3) in \<open>auto simp: st'\<close>)
  then show ?thesis using q' assms(3) by (auto simp: rq_holds_def st')
qed

text \<open>A vbucket's queue under any sequence of enqueued requests and rounds of a reader: a round takes a
  batch and steps down. The last component is what was served, batch by batch.\<close>

datatype vb_event = Enqueue rid | Round

fun read_step :: "nat \<Rightarrow> ReadCfg \<Rightarrow> u16 \<Rightarrow> vb_event \<Rightarrow> store \<times> ReadQueues \<times> rid list list \<Rightarrow>
    (store \<times> ReadQueues \<times> rid list list) option" where
  "read_step fuel cfg v (Enqueue r) (st, R, served) = (let (st, R) = EnqueueRead cfg st R r in Some (st, R, served))"
| "read_step fuel cfg v Round (st, R, served) =
     (case collectRead fuel cfg st R v of
        None \<Rightarrow> None
      | Some (batch, st, R) \<Rightarrow>
          Some (st, if batch = [] then R else releaseReadVBQueue cfg R v, served @ [batch]))"

fun read_run :: "nat \<Rightarrow> ReadCfg \<Rightarrow> u16 \<Rightarrow> vb_event list \<Rightarrow> store \<times> ReadQueues \<times> rid list list \<Rightarrow>
    (store \<times> ReadQueues \<times> rid list list) option" where
  "read_run fuel cfg v [] x = Some x"
| "read_run fuel cfg v (e # es) x = (case read_step fuel cfg v e x of None \<Rightarrow> None | Some y \<Rightarrow> read_run fuel cfg v es y)"

fun enqueued :: "vb_event list \<Rightarrow> rid list" where
  "enqueued [] = []"
| "enqueued (Enqueue r # es) = r # enqueued es"
| "enqueued (Round # es) = enqueued es"

text \<open>The service an arrival order and a batch size promise: each round takes the oldest waiting.\<close>

fun fifo_service :: "nat \<Rightarrow> vb_event list \<Rightarrow> rid list \<Rightarrow> rid list list" where
  "fifo_service n [] ws = []"
| "fifo_service n (Enqueue r # es) ws = fifo_service n es (ws @ [r])"
| "fifo_service n (Round # es) ws = take n ws # fifo_service n es (drop n ws)"

lemma read_run_fifo:
  "rq_holds st (rd_vbs R v) ovf new \<Longrightarrow> 0 < rc_maxBatch cfg \<Longrightarrow> length (ovf @ new) + length (enqueued es) \<le> fuel \<Longrightarrow>
   distinct (ovf @ new @ enqueued es) \<Longrightarrow> \<forall>r\<in>set (enqueued es). rq_vbucket (st r) = v \<Longrightarrow>
   \<exists>st' R'. read_run fuel cfg v es (st, R, served) = Some (st', R', served @ fifo_service (rc_maxBatch cfg) es (ovf @ new)) \<and>
     waiting st' (rd_vbs R' v) (drop (length (concat (fifo_service (rc_maxBatch cfg) es (ovf @ new)))) (ovf @ new @ enqueued es)) \<and>
     contents_eq st st' \<and>
     rd_depth (rd_vbs R' v) = rd_depth (rd_vbs R v) + int (length (enqueued es))
       - int (length (concat (fifo_service (rc_maxBatch cfg) es (ovf @ new))))"
proof (induction es arbitrary: st R ovf new served)
  case Nil
  then show ?case by (auto simp: waiting_def)
next
  case (Cons e es)
  show ?case
  proof (cases e)
    case (Enqueue r)
    obtain st1 R1 where e1: "EnqueueRead cfg st R r = (st1, R1)" by force
    have E: "rq_holds st1 (rd_vbs R1 v) ovf (new @ [r])" "contents_eq st st1" "rd_depth (rd_vbs R1 v) = rd_depth (rd_vbs R v) + 1"
      using EnqueueRead_ok [OF Cons.prems(1) _ _ e1] Cons.prems(4,5) Enqueue by auto
    have a: "length (ovf @ new @ [r]) + length (enqueued es) \<le> fuel" "distinct (ovf @ (new @ [r]) @ enqueued es)"
      "\<forall>x\<in>set (enqueued es). rq_vbucket (st1 x) = v"
      using Cons.prems(3-5) Enqueue contents_eqD(3) [OF E(2)] by simp_all
    obtain st2 R2 where I: "read_run fuel cfg v es (st1, R1, served) =
        Some (st2, R2, served @ fifo_service (rc_maxBatch cfg) es (ovf @ new @ [r]))"
      "waiting st2 (rd_vbs R2 v) (drop (length (concat (fifo_service (rc_maxBatch cfg) es (ovf @ new @ [r]))))
         (ovf @ (new @ [r]) @ enqueued es))"
      "contents_eq st1 st2" "rd_depth (rd_vbs R2 v) = rd_depth (rd_vbs R1 v) + int (length (enqueued es))
         - int (length (concat (fifo_service (rc_maxBatch cfg) es (ovf @ new @ [r]))))"
      using Cons.IH [OF E(1) Cons.prems(2) a, of served] by blast
    show ?thesis using I E(3) e1 contents_eq_trans [OF E(2) I(3)] unfolding Enqueue by simp
  next
    case Round
    let ?n = "rc_maxBatch cfg"
    obtain st1 R1 ovf1 new1 where C: "collectRead fuel cfg st R v = Some (take ?n (ovf @ new), st1, R1)" "contents_eq st st1"
      "rq_holds st1 (rd_vbs R1 v) ovf1 new1" "ovf1 @ new1 = drop ?n (ovf @ new)"
      "rd_depth (rd_vbs R1 v) = rd_depth (rd_vbs R v) - int (min ?n (length (ovf @ new)))"
      using collectRead_ok [OF Cons.prems(1,2), of fuel] Cons.prems(3) by auto
    let ?R = "if take ?n (ovf @ new) = [] then R1 else releaseReadVBQueue cfg R1 v"
    have h: "rq_holds st1 (rd_vbs ?R v) ovf1 new1" "rd_depth (rd_vbs ?R v) = rd_depth (rd_vbs R1 v)"
      using C(3) by auto
    have l: "length (ovf1 @ new1) \<le> length (ovf @ new)" using C(4) by simp
    have d: "distinct (ovf1 @ new1 @ enqueued es)"
    proof -
      have "distinct ((ovf @ new) @ enqueued es)" using Cons.prems(4) Round by simp
      then have "distinct (drop ?n (ovf @ new) @ enqueued es)"
        using set_drop_subset [of ?n "ovf @ new"] distinct_drop [of "ovf @ new" ?n] by (subst distinct_append) fastforce
      then show ?thesis unfolding C(4) [symmetric] by simp
    qed
    have sv: "\<forall>r\<in>set (enqueued es). rq_vbucket (st1 r) = v" using Cons.prems(5) Round contents_eqD(3) [OF C(2)] by simp
    have ll: "length (ovf1 @ new1) + length (enqueued es) \<le> fuel" using l Cons.prems(3) Round by simp
    obtain st2 R2 where I: "read_run fuel cfg v es (st1, ?R, served @ [take ?n (ovf @ new)]) =
        Some (st2, R2, (served @ [take ?n (ovf @ new)]) @ fifo_service ?n es (ovf1 @ new1))"
      "waiting st2 (rd_vbs R2 v) (drop (length (concat (fifo_service ?n es (ovf1 @ new1)))) (ovf1 @ new1 @ enqueued es))"
      "contents_eq st1 st2" "rd_depth (rd_vbs R2 v) = rd_depth (rd_vbs ?R v) + int (length (enqueued es))
         - int (length (concat (fifo_service ?n es (ovf1 @ new1))))"
      using Cons.IH [OF h(1) Cons.prems(2) ll d sv, of "served @ [take ?n (ovf @ new)]"] by blast
    have w: "drop (length (take ?n (ovf @ new)) + k) (ovf @ new @ enqueued es) = drop k (ovf1 @ new1 @ enqueued es)" for k
    proof -
      have "drop (length (take ?n (ovf @ new))) ((ovf @ new) @ enqueued es) = (ovf1 @ new1) @ enqueued es"
        unfolding C(4) by (auto simp: min_def)
      then show ?thesis by (metis add.commute append.assoc drop_drop)
    qed
    let ?served = "fifo_service ?n es (ovf1 @ new1)"
    have f: "fifo_service ?n (e # es) (ovf @ new) = take ?n (ovf @ new) # ?served" unfolding Round C(4) by simp
    have "read_run fuel cfg v (e # es) (st, R, served) = Some (st2, R2, served @ take ?n (ovf @ new) # ?served)"
      using I(1) C(1) unfolding Round by simp
    moreover have "rd_depth (rd_vbs R2 v) = rd_depth (rd_vbs R v) + int (length (enqueued es))
        - int (length (concat (take ?n (ovf @ new) # ?served)))"
      unfolding I(4) h(2) C(5) by simp
    moreover have "waiting st2 (rd_vbs R2 v)
        (drop (length (concat (take ?n (ovf @ new) # ?served))) (ovf @ new @ enqueued (e # es)))"
      using I(2) by (simp only: Round enqueued.simps concat.simps length_append w)
    ultimately show ?thesis unfolding f using contents_eq_trans [OF C(2) I(3)] Round by auto
  qed
qed

text \<open>C38. Reads of a vbucket are served in arrival order: whatever sequence of arrivals and reader
  rounds follows, each round takes exactly the oldest waiting requests, at most a batch of them,
  nothing is lost or served twice, what is left waits in order, and the depth counter is the number
  left. So a request waits for no more rounds than the backlog before it fills.\<close>

theorem reads_served_in_order:
  assumes "0 < rc_maxBatch cfg" and "length (enqueued es) \<le> fuel" and "distinct (enqueued es)"
    and "\<forall>r\<in>set (enqueued es). rq_vbucket (st r) = v"
  defines "R \<equiv> \<lparr>rd_vbs = (\<lambda>_. empty_read_queue), rd_tasks = []\<rparr>"
    and "sv \<equiv> fifo_service (rc_maxBatch cfg) es []"
  shows "\<exists>st' R'. read_run fuel cfg v es (st, R, []) = Some (st', R', sv) \<and>
    (\<exists>left. enqueued es = concat sv @ left \<and> waiting st' (rd_vbs R' v) left \<and>
       rd_depth (rd_vbs R' v) = int (length left))"
proof -
  have h: "rq_holds st (rd_vbs R v) [] []" "rd_depth (rd_vbs R v) = 0"
    by (simp_all add: R_def rq_holds_def empty_read_queue_def)
  have pre: "\<exists>left. ws @ enqueued es = concat (fifo_service n es ws) @ left" for n ws
    by (induction n es ws rule: fifo_service.induct) (auto, metis append.assoc append_take_drop_id)
  obtain l where l: "enqueued es = concat sv @ l" using pre [of "[]"] by (auto simp: sv_def)
  obtain st' R' where "read_run fuel cfg v es (st, R, []) = Some (st', R', sv)"
    "waiting st' (rd_vbs R' v) (drop (length (concat sv)) (enqueued es))"
    "rd_depth (rd_vbs R' v) = int (length (enqueued es)) - int (length (concat sv))"
    using read_run_fifo [OF h(1) assms(1), of es fuel "[]"] assms(2-4) h(2) by (auto simp: sv_def)
  then show ?thesis unfolding l by auto
qed

theorem reads_served_in_order_witness:
  "\<exists>st' R'. read_run 3 \<lparr>rc_maxBatch = 2, rc_maxOwners = 1\<rparr> 7 [Enqueue 1, Enqueue 2, Enqueue 3, Round, Round]
     ((\<lambda>_. new_request\<lparr>rq_vbucket := 7\<rparr>), \<lparr>rd_vbs = (\<lambda>_. empty_read_queue), rd_tasks = []\<rparr>, []) =
     Some (st', R', [[1, 2], [3]])"
  using reads_served_in_order [of "\<lparr>rc_maxBatch = 2, rc_maxOwners = 1\<rparr>" "[Enqueue 1, Enqueue 2, Enqueue 3, Round, Round]"
    3 "\<lambda>_. new_request\<lparr>rq_vbucket := 7\<rparr>" 7] by auto

end
