(* ===== verification/Read_Schedule.thy ===== *)
theory Read_Schedule
  imports Read_Queue "HOL-Library.Multiset"
begin

text \<open>
  How IO threads and readers share a vbucket's read queue (\<^verbatim>\<open>server/engine.cc\<close>: \<open>Bucket::EnqueueRead\<close>,
  \<open>ReaderPool::collectRead\<close>, \<open>releaseReadVBQueue\<close>), as interleaved atomic steps: each load, exchange, counter
  update and critical section is one step. Several readers may own the queue at once, up to the
  owner limit. Threads at the same point of the code with the same local variables are
  interchangeable, so a state counts them; any number of threads is covered. A compare-and-exchange
  may fail spuriously. The steps interleave in one total order; the source asks for it on every access
  the hand-over rests on (only the reader that lowers the depth does so with a relaxed order).
\<close>

record ReadSched =
  rs_list :: "nat list"                  \<comment> \<open>the stack, newest first\<close>
  rs_ovf :: "nat list"                   \<comment> \<open>the overflow, oldest first\<close>
  rs_owners :: nat
  rs_depth :: int
  rs_tasks :: nat
  eq_pushed :: nat                       \<comment> \<open>enqueuers that pushed\<close>
  eq_added :: "int multiset"             \<comment> \<open>raised the depth, to this\<close>
  eq_loaded :: "(int \<times> nat) multiset"    \<comment> \<open>and read this owner count\<close>
  eq_won :: nat                          \<comment> \<open>took an owner slot\<close>
  ow_took :: nat                         \<comment> \<open>readers that took a task\<close>
  ow_drained :: "nat list multiset"      \<comment> \<open>took this from the overflow\<close>
  ow_swept :: "nat list multiset"        \<comment> \<open>and swept the stack\<close>
  ow_capped :: "nat list multiset"       \<comment> \<open>and put what is past the cap back\<close>
  ow_reading :: nat                      \<comment> \<open>lowered the depth; in the storage engine\<close>
  rl_start :: nat                        \<comment> \<open>about to step down\<close>
  rl_stepped :: nat
  rl_noovf :: nat                        \<comment> \<open>found no overflow\<close>
  rl_nolist :: nat                       \<comment> \<open>nor a stack\<close>
  rl_work :: nat                         \<comment> \<open>found work left\<close>
  rl_loaded :: "nat multiset"            \<comment> \<open>and read this owner count\<close>
  rl_won :: nat                          \<comment> \<open>took an owner slot again\<close>
  rs_served :: "nat list"

definition idle_reads :: ReadSched where
  "idle_reads = \<lparr>rs_list = [], rs_ovf = [], rs_owners = 0, rs_depth = 0, rs_tasks = 0, eq_pushed = 0, eq_added = {#},
     eq_loaded = {#}, eq_won = 0, ow_took = 0, ow_drained = {#}, ow_swept = {#}, ow_capped = {#}, ow_reading = 0,
     rl_start = 0, rl_stepped = 0, rl_noovf = 0, rl_nolist = 0, rl_work = 0, rl_loaded = {#}, rl_won = 0, rs_served = []\<rparr>"

definition push_read :: "nat \<Rightarrow> ReadSched \<Rightarrow> ReadSched" where
  "push_read r s = s\<lparr>rs_list := r # rs_list s, eq_pushed := eq_pushed s + 1\<rparr>"

inductive read_internal :: "ReadCfg \<Rightarrow> ReadSched \<Rightarrow> ReadSched \<Rightarrow> bool" for cfg where
  adds: "0 < eq_pushed s \<Longrightarrow> read_internal cfg s (s\<lparr>eq_pushed := eq_pushed s - 1, rs_depth := rs_depth s + 1,
    eq_added := add_mset (rs_depth s + 1) (eq_added s)\<rparr>)"
| loads: "eq_added s = add_mset d M \<Longrightarrow>
    read_internal cfg s (s\<lparr>eq_added := M, eq_loaded := add_mset (d, rs_owners s) (eq_loaded s)\<rparr>)"
| leaves: "eq_loaded s = add_mset (d, n) M \<Longrightarrow> enough_owners cfg n d \<Longrightarrow> read_internal cfg s (s\<lparr>eq_loaded := M\<rparr>)"
| cas_wins: "eq_loaded s = add_mset (d, n) M \<Longrightarrow> \<not> enough_owners cfg n d \<Longrightarrow> rs_owners s = n \<Longrightarrow>
    read_internal cfg s (s\<lparr>eq_loaded := M, rs_owners := n + 1, eq_won := eq_won s + 1\<rparr>)"
| cas_fails: "eq_loaded s = add_mset (d, n) M \<Longrightarrow> \<not> enough_owners cfg n d \<Longrightarrow>
    read_internal cfg s (s\<lparr>eq_loaded := add_mset (d, rs_owners s) M\<rparr>)"
| submits: "0 < eq_won s \<Longrightarrow> read_internal cfg s (s\<lparr>eq_won := eq_won s - 1, rs_tasks := rs_tasks s + 1\<rparr>)"
| takes_task: "0 < rs_tasks s \<Longrightarrow> read_internal cfg s (s\<lparr>rs_tasks := rs_tasks s - 1, ow_took := ow_took s + 1\<rparr>)"
| drains: "0 < ow_took s \<Longrightarrow> read_internal cfg s (s\<lparr>ow_took := ow_took s - 1,
    ow_drained := add_mset (take (rc_maxBatch cfg) (rs_ovf s)) (ow_drained s), rs_ovf := drop (rc_maxBatch cfg) (rs_ovf s)\<rparr>)"
| sweeps_stack: "ow_drained s = add_mset b M \<Longrightarrow> length b < rc_maxBatch cfg \<Longrightarrow>
    read_internal cfg s (s\<lparr>ow_drained := M, ow_swept := add_mset (b @ rev (rs_list s)) (ow_swept s), rs_list := []\<rparr>)"
| is_full: "ow_drained s = add_mset b M \<Longrightarrow> rc_maxBatch cfg \<le> length b \<Longrightarrow>
    read_internal cfg s (s\<lparr>ow_drained := M, ow_swept := add_mset b (ow_swept s)\<rparr>)"
| has_none: "ow_swept s = add_mset [] M \<Longrightarrow> read_internal cfg s (s\<lparr>ow_swept := M, rl_start := rl_start s + 1\<rparr>)"
| caps: "ow_swept s = add_mset b M \<Longrightarrow> b \<noteq> [] \<Longrightarrow> read_internal cfg s (s\<lparr>ow_swept := M,
    ow_capped := add_mset (take (rc_maxBatch cfg) b) (ow_capped s), rs_ovf := rs_ovf s @ drop (rc_maxBatch cfg) b\<rparr>)"
| serves: "ow_capped s = add_mset b M \<Longrightarrow> read_internal cfg s (s\<lparr>ow_capped := M, rs_depth := rs_depth s - int (length b),
    rs_served := rs_served s @ b, ow_reading := ow_reading s + 1\<rparr>)"
| finishes: "0 < ow_reading s \<Longrightarrow> read_internal cfg s (s\<lparr>ow_reading := ow_reading s - 1, rl_start := rl_start s + 1\<rparr>)"
| steps_down: "0 < rl_start s \<Longrightarrow>
    read_internal cfg s (s\<lparr>rl_start := rl_start s - 1, rs_owners := rs_owners s - 1, rl_stepped := rl_stepped s + 1\<rparr>)"
| sees_ovf: "0 < rl_stepped s \<Longrightarrow> rs_ovf s \<noteq> [] \<Longrightarrow>
    read_internal cfg s (s\<lparr>rl_stepped := rl_stepped s - 1, rl_work := rl_work s + 1\<rparr>)"
| sees_no_ovf: "0 < rl_stepped s \<Longrightarrow> rs_ovf s = [] \<Longrightarrow>
    read_internal cfg s (s\<lparr>rl_stepped := rl_stepped s - 1, rl_noovf := rl_noovf s + 1\<rparr>)"
| sees_list: "0 < rl_noovf s \<Longrightarrow> rs_list s \<noteq> [] \<Longrightarrow>
    read_internal cfg s (s\<lparr>rl_noovf := rl_noovf s - 1, rl_work := rl_work s + 1\<rparr>)"
| sees_no_list: "0 < rl_noovf s \<Longrightarrow> rs_list s = [] \<Longrightarrow>
    read_internal cfg s (s\<lparr>rl_noovf := rl_noovf s - 1, rl_nolist := rl_nolist s + 1\<rparr>)"
| sees_depth: "0 < rl_nolist s \<Longrightarrow> 0 < rs_depth s \<Longrightarrow>
    read_internal cfg s (s\<lparr>rl_nolist := rl_nolist s - 1, rl_work := rl_work s + 1\<rparr>)"
| is_done: "0 < rl_nolist s \<Longrightarrow> rs_depth s \<le> 0 \<Longrightarrow> read_internal cfg s (s\<lparr>rl_nolist := rl_nolist s - 1\<rparr>)"
| loads_again: "0 < rl_work s \<Longrightarrow>
    read_internal cfg s (s\<lparr>rl_work := rl_work s - 1, rl_loaded := add_mset (rs_owners s) (rl_loaded s)\<rparr>)"
| others_own: "rl_loaded s = add_mset n M \<Longrightarrow> rc_maxOwners cfg \<le> n \<Longrightarrow> read_internal cfg s (s\<lparr>rl_loaded := M\<rparr>)"
| again_wins: "rl_loaded s = add_mset n M \<Longrightarrow> n < rc_maxOwners cfg \<Longrightarrow> rs_owners s = n \<Longrightarrow>
    read_internal cfg s (s\<lparr>rl_loaded := M, rs_owners := n + 1, rl_won := rl_won s + 1\<rparr>)"
| again_fails: "rl_loaded s = add_mset n M \<Longrightarrow> n < rc_maxOwners cfg \<Longrightarrow>
    read_internal cfg s (s\<lparr>rl_loaded := add_mset (rs_owners s) M\<rparr>)"
| resubmits: "0 < rl_won s \<Longrightarrow> read_internal cfg s (s\<lparr>rl_won := rl_won s - 1, rs_tasks := rs_tasks s + 1\<rparr>)"

inductive reads_run :: "ReadCfg \<Rightarrow> nat list \<Rightarrow> ReadSched \<Rightarrow> bool" for cfg where
  start: "reads_run cfg [] idle_reads"
| push: "reads_run cfg ps s \<Longrightarrow> reads_run cfg (ps @ [r]) (push_read r s)"
| step: "reads_run cfg ps s \<Longrightarrow> read_internal cfg s s' \<Longrightarrow> reads_run cfg ps s'"

subsection \<open>Invariant\<close>

text \<open>The threads that hold an owner slot, and the requests a reader has taken and not served yet.\<close>

definition slots :: "ReadSched \<Rightarrow> nat" where
  "slots s = eq_won s + rs_tasks s + ow_took s + size (ow_drained s) + size (ow_swept s) + size (ow_capped s)
     + ow_reading s + rl_start s + rl_won s"

definition in_hand :: "ReadSched \<Rightarrow> nat multiset" where
  "in_hand s = \<Sum>\<^sub># (image_mset mset (ow_drained s + ow_swept s + ow_capped s))"

text \<open>Work that waits has someone who will see to it: an owner, an enqueuer that has not yet read a
  positive owner count, or a thread that stepped down and has still to look, or has seen the work.\<close>

definition attended :: "ReadCfg \<Rightarrow> ReadSched \<Rightarrow> bool" where
  "attended cfg s \<longleftrightarrow> 0 < rs_owners s \<or> 0 < eq_pushed s \<or> eq_added s \<noteq> {#} \<or> (\<exists>d. (d, 0) \<in># eq_loaded s) \<or>
     0 < rl_stepped s \<or> (0 < rl_noovf s \<and> rs_list s \<noteq> []) \<or> 0 < rl_work s \<or>
     (\<exists>n. n \<in># rl_loaded s \<and> n < rc_maxOwners cfg)"

definition reads_inv :: "ReadCfg \<Rightarrow> nat list \<Rightarrow> ReadSched \<Rightarrow> bool" where
  "reads_inv cfg ps s \<longleftrightarrow> rs_owners s = slots s \<and> rs_owners s \<le> rc_maxOwners cfg \<and>
     (rs_list s \<noteq> [] \<or> rs_ovf s \<noteq> [] \<longrightarrow> attended cfg s) \<and>
     mset ps = mset (rs_served s) + in_hand s + mset (rs_ovf s) + mset (rs_list s) \<and>
     rs_depth s + int (eq_pushed s) = int (size (in_hand s) + length (rs_ovf s) + length (rs_list s))"

lemma in_hand_simps [simp]:
  "in_hand (s\<lparr>ow_drained := add_mset b M\<rparr>) = mset b + in_hand (s\<lparr>ow_drained := M\<rparr>)"
  "in_hand (s\<lparr>ow_swept := add_mset b M\<rparr>) = mset b + in_hand (s\<lparr>ow_swept := M\<rparr>)"
  "in_hand (s\<lparr>ow_capped := add_mset b M\<rparr>) = mset b + in_hand (s\<lparr>ow_capped := M\<rparr>)"
  by (simp_all add: in_hand_def ac_simps)

lemma owners_step:
  "read_internal cfg s s' \<Longrightarrow> rs_owners s = slots s \<Longrightarrow> rs_owners s' = slots s'"
  by (induction rule: read_internal.induct) (auto simp: slots_def)

lemma owners_bound_step:
  "read_internal cfg s s' \<Longrightarrow> 0 < rc_maxOwners cfg \<Longrightarrow> rs_owners s \<le> rc_maxOwners cfg \<Longrightarrow> rs_owners s' \<le> rc_maxOwners cfg"
  by (induction rule: read_internal.induct) (auto simp: enough_owners_def)

lemma mset_take_drop: "mset (take n xs) + mset (drop n xs) = mset xs"
  by (metis append_take_drop_id mset_append)

lemma content_step:
  "read_internal cfg s s' \<Longrightarrow>
   mset (rs_served s') + in_hand s' + mset (rs_ovf s') + mset (rs_list s') =
   mset (rs_served s) + in_hand s + mset (rs_ovf s) + mset (rs_list s)"
proof (induction rule: read_internal.induct)
  case (drains s)
  then show ?case using mset_take_drop [of "rc_maxBatch cfg" "rs_ovf s"] by (simp add: in_hand_def ac_simps)
next
  case (caps s b M)
  then show ?case using mset_take_drop [of "rc_maxBatch cfg" b] by (simp add: in_hand_def ac_simps)
qed (simp_all add: in_hand_def ac_simps)

lemma depth_step:
  "read_internal cfg s s' \<Longrightarrow>
   rs_depth s + int (eq_pushed s) = int (size (in_hand s) + length (rs_ovf s) + length (rs_list s)) \<Longrightarrow>
   rs_depth s' + int (eq_pushed s') = int (size (in_hand s') + length (rs_ovf s') + length (rs_list s'))"
  by (induction rule: read_internal.induct) (auto simp: in_hand_def size_mset)

lemma attended_step:
  "read_internal cfg s s' \<Longrightarrow> rs_owners s = slots s \<Longrightarrow> rs_owners s \<le> rc_maxOwners cfg \<Longrightarrow> 0 < rc_maxOwners cfg \<Longrightarrow>
   (rs_list s \<noteq> [] \<or> rs_ovf s \<noteq> [] \<longrightarrow> attended cfg s) \<Longrightarrow> rs_list s' \<noteq> [] \<or> rs_ovf s' \<noteq> [] \<longrightarrow> attended cfg s'"
  by (induction rule: read_internal.induct) (auto simp: attended_def slots_def enough_owners_def)

lemma reads_inv_step:
  "read_internal cfg s s' \<Longrightarrow> 0 < rc_maxOwners cfg \<Longrightarrow> reads_inv cfg ps s \<Longrightarrow> reads_inv cfg ps s'"
  using owners_step [of cfg s s'] owners_bound_step [of cfg s s'] content_step [of cfg s s'] depth_step [of cfg s s']
    attended_step [of cfg s s'] by (simp add: reads_inv_def)

lemma reads_inv_push: "reads_inv cfg ps s \<Longrightarrow> reads_inv cfg (ps @ [r]) (push_read r s)"
  by (auto simp: reads_inv_def push_read_def slots_def attended_def in_hand_def)

lemma reads_run_inv: "reads_run cfg ps s \<Longrightarrow> 0 < rc_maxOwners cfg \<Longrightarrow> reads_inv cfg ps s"
proof (induction rule: reads_run.induct)
  case start
  show ?case by (simp add: reads_inv_def idle_reads_def slots_def attended_def in_hand_def)
qed (auto intro: reads_inv_push reads_inv_step)

subsection \<open>Coming to rest\<close>

definition reads_quiet :: "ReadSched \<Rightarrow> bool" where
  "reads_quiet s \<longleftrightarrow> slots s = 0 \<and> eq_pushed s = 0 \<and> eq_added s = {#} \<and> eq_loaded s = {#} \<and> rl_stepped s = 0 \<and>
     rl_noovf s = 0 \<and> rl_nolist s = 0 \<and> rl_work s = 0 \<and> rl_loaded s = {#}"

lemma quiet_served:
  assumes "reads_inv cfg ps s" and "reads_quiet s"
  shows "rs_list s = [] \<and> rs_ovf s = [] \<and> rs_depth s = 0 \<and> rs_owners s = 0 \<and> mset (rs_served s) = mset ps"
proof -
  have "\<not> attended cfg s" using assms by (auto simp: attended_def reads_quiet_def reads_inv_def)
  moreover have "in_hand s = {#}" using assms(2) by (simp add: reads_quiet_def slots_def in_hand_def)
  ultimately show ?thesis using assms by (auto simp: reads_inv_def reads_quiet_def)
qed

abbreviation reads_settle :: "ReadCfg \<Rightarrow> ReadSched \<Rightarrow> ReadSched \<Rightarrow> bool" where
  "reads_settle cfg \<equiv> (read_internal cfg)\<^sup>*\<^sup>*"

lemma settle_inv: "reads_settle cfg s t \<Longrightarrow> 0 < rc_maxOwners cfg \<Longrightarrow> reads_inv cfg ps s \<Longrightarrow> reads_inv cfg ps t"
  by (induction rule: rtranclp_induct) (auto intro: reads_inv_step)

lemma settle_run: "reads_settle cfg s t \<Longrightarrow> reads_run cfg ps s \<Longrightarrow> reads_run cfg ps t"
  by (induction rule: rtranclp_induct) (auto intro: reads_run.step)

definition no_mid :: "ReadSched \<Rightarrow> bool" where
  "no_mid s \<longleftrightarrow> ow_drained s = {#} \<and> ow_swept s = {#} \<and> ow_capped s = {#}"

text \<open>A reader in the middle of taking a batch can finish taking it.\<close>

lemma finish_mid: "\<exists>t. reads_settle cfg s t \<and> no_mid t"
proof (induction "3 * size (ow_drained s) + 2 * size (ow_swept s) + size (ow_capped s)" arbitrary: s rule: less_induct)
  case less
  have *: ?case if "read_internal cfg s s'"
    "3 * size (ow_drained s') + 2 * size (ow_swept s') + size (ow_capped s') <
     3 * size (ow_drained s) + 2 * size (ow_swept s) + size (ow_capped s)" for s'
    using less [OF that(2)] that(1) by (meson converse_rtranclp_into_rtranclp)
  show ?case
  proof (cases "no_mid s")
    case False
    then consider b M where "ow_drained s = add_mset b M" | b M where "ow_swept s = add_mset b M"
      | b M where "ow_capped s = add_mset b M"
      unfolding no_mid_def by (metis multiset_cases)
    then show ?thesis
    proof cases
      case (1 b M)
      show ?thesis
        by (cases "length b < rc_maxBatch cfg")
          (rule * [OF read_internal.sweeps_stack [OF 1]] * [OF read_internal.is_full [OF 1]], simp_all add: 1)+
    next
      case (2 b M)
      show ?thesis
      proof (cases "b = []")
        case True
        show ?thesis by (rule * [OF read_internal.has_none [of s M cfg]]) (simp_all add: 2 True)
      next
        case False
        show ?thesis by (rule * [OF read_internal.caps [OF 2 False]]) (simp_all add: 2)
      qed
    next
      case (3 b M)
      show ?thesis by (rule * [OF read_internal.serves [OF 3]]) (simp_all add: 3)
    qed
  qed blast
qed

definition effort :: "ReadSched \<Rightarrow> nat" where
  "effort s = (let u = length (rs_list s) + length (rs_ovf s) in
     100 * u + 90 * eq_pushed s + 89 * size (eq_added s) + 88 * size (eq_loaded s) + 20 * eq_won s + 19 * rs_tasks s
     + 18 * ow_took s + 56 * rl_work s + 55 * size (rl_loaded s) + 20 * rl_won s
     + (if u = 0 then 6 * ow_reading s + 5 * rl_start s + 4 * rl_stepped s + 3 * rl_noovf s + 2 * rl_nolist s
        else 61 * ow_reading s + 60 * rl_start s + 59 * rl_stepped s + 58 * rl_noovf s + 57 * rl_nolist s))"

text \<open>A reader that took a task serves at least one request, if one waits.\<close>

lemma serve_macro:
  assumes "no_mid s" and "0 < ow_took s" and n: "0 < rc_maxBatch cfg"
  shows "\<exists>t. reads_settle cfg s t \<and> no_mid t \<and> effort t < effort s"
proof -
  let ?n = "rc_maxBatch cfg"
  let ?b0 = "take ?n (rs_ovf s)"
  let ?s1 = "s\<lparr>ow_took := ow_took s - 1, ow_drained := add_mset ?b0 (ow_drained s), rs_ovf := drop ?n (rs_ovf s)\<rparr>"
  have 1: "read_internal cfg s ?s1" by (rule read_internal.drains [OF assms(2)])
  define b l where "b = (if length ?b0 < ?n then ?b0 @ rev (rs_list s) else ?b0)"
    and "l = (if length ?b0 < ?n then [] else rs_list s)"
  let ?s2 = "?s1\<lparr>ow_drained := {#}, ow_swept := {#b#}, rs_list := l\<rparr>"
  have m: "ow_drained s = {#}" "ow_swept s = {#}" "ow_capped s = {#}" using assms(1) by (auto simp: no_mid_def)
  have 2: "read_internal cfg ?s1 ?s2"
    using read_internal.sweeps_stack [of ?s1 ?b0 "{#}" cfg] read_internal.is_full [of ?s1 ?b0 "{#}" cfg]
    by (cases "length ?b0 < ?n") (simp_all add: m b_def l_def)
  have len: "length b + length l + length (drop ?n (rs_ovf s)) = length (rs_list s) + length (rs_ovf s)"
    by (auto simp: b_def l_def min_def)
  show ?thesis
  proof (cases "b = []")
    case True
    have e: "rs_list s = []" "rs_ovf s = []" using True n by (auto simp: b_def split: if_splits)
    let ?s3 = "?s2\<lparr>ow_swept := {#}, rl_start := rl_start s + 1\<rparr>"
    have "read_internal cfg ?s2 ?s3" using read_internal.has_none [of ?s2 "{#}" cfg] True by simp
    then have "reads_settle cfg s ?s3" using 1 2 by (meson converse_rtranclp_into_rtranclp r_into_rtranclp)
    moreover have "no_mid ?s3" "effort ?s3 < effort s"
      using m e assms(2) len True by (simp_all add: no_mid_def effort_def Let_def)
    ultimately show ?thesis by blast
  next
    case False
    let ?s3 = "?s2\<lparr>ow_swept := {#}, ow_capped := {#take ?n b#}, rs_ovf := drop ?n (rs_ovf s) @ drop ?n b\<rparr>"
    have 3: "read_internal cfg ?s2 ?s3" using read_internal.caps [of ?s2 b "{#}" cfg] False m by simp
    let ?s4 = "?s3\<lparr>ow_capped := {#}, rs_depth := rs_depth s - int (length (take ?n b)), rs_served := rs_served s @ take ?n b,
      ow_reading := ow_reading s + 1\<rparr>"
    have 4: "read_internal cfg ?s3 ?s4" using read_internal.serves [of ?s3 "take ?n b" "{#}" cfg] by simp
    have "reads_settle cfg s ?s4" using 1 2 3 4 by (meson converse_rtranclp_into_rtranclp r_into_rtranclp)
    moreover have "no_mid ?s4" using m by (simp add: no_mid_def)
    moreover have "effort ?s4 < effort s"
    proof -
      have u: "length l + (length (rs_ovf s) - ?n + (length b - ?n)) + 1 \<le> length (rs_list s) + length (rs_ovf s)"
        using len False n by (cases b) (auto simp: min_def)
      show ?thesis using u assms(2) by (auto simp: effort_def Let_def)
    qed
    ultimately show ?thesis by blast
  qed
qed

lemma one_step:
  "read_internal cfg s t \<Longrightarrow> no_mid t \<Longrightarrow> effort t < effort s \<Longrightarrow> \<exists>t. reads_settle cfg s t \<and> no_mid t \<and> effort t < effort s"
  by blast

lemma enqueuer_macro:
  assumes "no_mid s" and L: "eq_loaded s = add_mset (d, n) M"
  shows "\<exists>t. reads_settle cfg s t \<and> no_mid t \<and> effort t < effort s"
proof -
  let ?s1 = "s\<lparr>eq_loaded := add_mset (d, rs_owners s) M\<rparr>"
  have 1: "reads_settle cfg s ?s1 \<or> enough_owners cfg n d"
    using read_internal.cas_fails [OF L] by blast
  have 2: "\<exists>t. read_internal cfg ?s1 t \<and> no_mid t \<and> effort t < effort s"
  proof (cases "enough_owners cfg (rs_owners s) d")
    case True
    show ?thesis
      by (rule exI [of _ "?s1\<lparr>eq_loaded := M\<rparr>"], intro conjI read_internal.leaves [OF _ True])
        (use assms in \<open>simp_all add: no_mid_def effort_def Let_def\<close>)
  next
    case False
    have "read_internal cfg ?s1 (?s1\<lparr>eq_loaded := M, rs_owners := rs_owners s + 1, eq_won := eq_won s + 1\<rparr>)"
      using read_internal.cas_wins [of ?s1 d "rs_owners s" M cfg] False by simp
    then show ?thesis by (intro exI conjI, assumption) (use assms in \<open>simp_all add: no_mid_def effort_def Let_def\<close>)
  qed
  show ?thesis
  proof (cases "enough_owners cfg n d")
    case True
    show ?thesis by (rule one_step [OF read_internal.leaves [OF L True]])
      (use assms in \<open>simp_all add: no_mid_def effort_def Let_def\<close>)
  next
    case False
    then show ?thesis using 1 2 by (meson rtranclp.rtrancl_into_rtrancl)
  qed
qed

lemma releaser_macro:
  assumes "no_mid s" and L: "rl_loaded s = add_mset n M"
  shows "\<exists>t. reads_settle cfg s t \<and> no_mid t \<and> effort t < effort s"
proof -
  let ?s1 = "s\<lparr>rl_loaded := add_mset (rs_owners s) M\<rparr>"
  have 2: "\<exists>t. read_internal cfg ?s1 t \<and> no_mid t \<and> effort t < effort s"
  proof (cases "rc_maxOwners cfg \<le> rs_owners s")
    case True
    show ?thesis
      by (rule exI [of _ "?s1\<lparr>rl_loaded := M\<rparr>"], intro conjI read_internal.others_own [OF _ True])
        (use assms in \<open>simp_all add: no_mid_def effort_def Let_def\<close>)
  next
    case False
    then have f: "rs_owners s < rc_maxOwners cfg" by simp
    have "read_internal cfg ?s1 (?s1\<lparr>rl_loaded := M, rs_owners := rs_owners s + 1, rl_won := rl_won s + 1\<rparr>)"
      using read_internal.again_wins [of ?s1 "rs_owners s" M cfg] f by simp
    then show ?thesis by (intro exI conjI, assumption) (use assms in \<open>simp_all add: no_mid_def effort_def Let_def\<close>)
  qed
  show ?thesis
  proof (cases "rc_maxOwners cfg \<le> n")
    case True
    show ?thesis by (rule one_step [OF read_internal.others_own [OF L True]])
      (use assms in \<open>simp_all add: no_mid_def effort_def Let_def\<close>)
  next
    case False
    then have "reads_settle cfg s ?s1" by (intro r_into_rtranclp read_internal.again_fails [OF L]) simp
    then show ?thesis using 2 by (meson rtranclp.rtrancl_into_rtrancl)
  qed
qed

lemma reads_progress:
  assumes "reads_inv cfg ps s" and m: "no_mid s" and "\<not> reads_quiet s" and "0 < rc_maxBatch cfg"
  shows "\<exists>t. reads_settle cfg s t \<and> no_mid t \<and> effort t < effort s"
proof -
  have d: "rs_depth s \<le> int (length (rs_ovf s) + length (rs_list s))"
    using assms(1) m by (auto simp: reads_inv_def in_hand_def no_mid_def)
  note E = no_mid_def effort_def Let_def
  consider "0 < eq_pushed s" | x M where "eq_added s = add_mset x M" | x y M where "eq_loaded s = add_mset (x, y) M"
    | "0 < eq_won s" | "0 < rs_tasks s" | "0 < ow_took s" | "0 < ow_reading s" | "0 < rl_start s" | "0 < rl_won s"
    | "0 < rl_stepped s" | "0 < rl_noovf s" | "0 < rl_nolist s" | "0 < rl_work s" | x M where "rl_loaded s = add_mset x M"
    using assms(3) m unfolding reads_quiet_def slots_def no_mid_def
    by (metis add_is_0 gr0I multiset_cases size_empty surj_pair)
  then show ?thesis
  proof cases
    case 1
    show ?thesis by (rule one_step [OF read_internal.adds [OF 1]]) (use m 1 in \<open>auto simp: E\<close>)
  next
    case (2 x M)
    show ?thesis by (rule one_step [OF read_internal.loads [OF 2]]) (use m 2 in \<open>auto simp: E\<close>)
  next
    case (3 x y M)
    show ?thesis by (rule enqueuer_macro [OF m 3])
  next
    case 4
    show ?thesis by (rule one_step [OF read_internal.submits [OF 4]]) (use m 4 in \<open>auto simp: E\<close>)
  next
    case 5
    show ?thesis by (rule one_step [OF read_internal.takes_task [OF 5]]) (use m 5 in \<open>auto simp: E\<close>)
  next
    case 6
    show ?thesis by (rule serve_macro [OF m 6 assms(4)])
  next
    case 7
    show ?thesis by (rule one_step [OF read_internal.finishes [OF 7]]) (use m 7 in \<open>auto simp: E\<close>)
  next
    case 8
    show ?thesis by (rule one_step [OF read_internal.steps_down [OF 8]]) (use m 8 in \<open>auto simp: E\<close>)
  next
    case 9
    show ?thesis by (rule one_step [OF read_internal.resubmits [OF 9]]) (use m 9 in \<open>auto simp: E\<close>)
  next
    case 10
    show ?thesis
    proof (cases "rs_ovf s = []")
      case True
      show ?thesis by (rule one_step [OF read_internal.sees_no_ovf [OF 10 True]]) (use m 10 in \<open>auto simp: E\<close>)
    next
      case False
      show ?thesis by (rule one_step [OF read_internal.sees_ovf [OF 10 False]]) (use m 10 False in \<open>auto simp: E\<close>)
    qed
  next
    case 11
    show ?thesis
    proof (cases "rs_list s = []")
      case True
      show ?thesis by (rule one_step [OF read_internal.sees_no_list [OF 11 True]]) (use m 11 in \<open>auto simp: E\<close>)
    next
      case False
      show ?thesis by (rule one_step [OF read_internal.sees_list [OF 11 False]]) (use m 11 False in \<open>auto simp: E\<close>)
    qed
  next
    case 12
    show ?thesis
    proof (cases "rs_depth s \<le> 0")
      case True
      show ?thesis by (rule one_step [OF read_internal.is_done [OF 12 True]]) (use m 12 in \<open>auto simp: E\<close>)
    next
      case False
      then have p: "0 < rs_depth s" by simp
      show ?thesis by (rule one_step [OF read_internal.sees_depth [OF 12 p]]) (use m 12 d p in \<open>auto simp: E\<close>)
    qed
  next
    case 13
    show ?thesis by (rule one_step [OF read_internal.loads_again [OF 13]]) (use m 13 in \<open>auto simp: E\<close>)
  next
    case (14 x M)
    show ?thesis by (rule releaser_macro [OF m 14])
  qed
qed

lemma reads_rest:
  assumes "reads_inv cfg ps s" and "0 < rc_maxBatch cfg" and "0 < rc_maxOwners cfg"
  shows "\<exists>t. reads_settle cfg s t \<and> reads_quiet t"
proof -
  have "no_mid s \<Longrightarrow> reads_inv cfg ps s \<Longrightarrow> \<exists>t. reads_settle cfg s t \<and> reads_quiet t" for s
  proof (induction "effort s" arbitrary: s rule: less_induct)
    case less
    show ?case
    proof (cases "reads_quiet s")
      case False
      obtain t where t: "reads_settle cfg s t" "no_mid t" "effort t < effort s"
        using reads_progress [OF less.prems(2,1) False assms(2)] by blast
      then show ?thesis
        using less.hyps [OF t(3,2) settle_inv [OF t(1) assms(3) less.prems(2)]] by (meson rtranclp_trans)
    qed blast
  qed
  then show ?thesis
    using finish_mid [of cfg s] settle_inv [OF _ assms(3,1)] by (meson rtranclp_trans)
qed

text \<open>C12. However enqueuers, owners and owners stepping down interleave, at most the allowed number of
  readers own a vbucket, no request is read twice or lost, and none is stranded: from every
  reachable state the threads can come to rest, and whenever they do, every request has been
  handed to a reader, no owner slot is held and the depth is zero again.\<close>

theorem reads_never_stranded:
  assumes "reads_run cfg ps s" and "0 < rc_maxBatch cfg" and "0 < rc_maxOwners cfg"
  shows "rs_owners s \<le> rc_maxOwners cfg \<and> mset (rs_served s) \<subseteq># mset ps \<and>
    (\<exists>t. reads_settle cfg s t \<and> reads_quiet t) \<and>
    (\<forall>t. reads_settle cfg s t \<and> reads_quiet t \<longrightarrow>
       rs_list t = [] \<and> rs_ovf t = [] \<and> rs_depth t = 0 \<and> rs_owners t = 0 \<and> mset (rs_served t) = mset ps)"
  using reads_run_inv [OF assms(1,3)] reads_rest [OF reads_run_inv [OF assms(1,3)] assms(2,3)]
    quiet_served [OF settle_inv [OF _ assms(3) reads_run_inv [OF assms(1,3)]]]
  by (auto simp: reads_inv_def)

theorem reads_never_stranded_witness:
  "\<exists>t. reads_settle \<lparr>rc_maxBatch = 128, rc_maxOwners = 4\<rparr> (push_read 2 (push_read 1 idle_reads)) t \<and>
     rs_list t = [] \<and> mset (rs_served t) = {#1, 2#}"
proof -
  have "reads_run \<lparr>rc_maxBatch = 128, rc_maxOwners = 4\<rparr> [1, 2] (push_read 2 (push_read 1 idle_reads))"
    using reads_run.push [OF reads_run.push [OF reads_run.start, of _ 1], of _ 2] by simp
  from reads_never_stranded [OF this] show ?thesis by auto
qed

end
