(* ===== verification/Read_Path.thy ===== *)
theory Read_Path
  imports Read_Queue Doc_Cache Doc_Meta
begin

text \<open>
  What a reader thread does with a batch (\<^verbatim>\<open>server/engine.cc\<close>: \<open>ReaderPool::executeRead\<close>,
  \<open>executeReadMulti\<close>, \<open>submitReadsAsync\<close>, \<open>AsyncReadCall\<close>, \<open>completeGets\<close>, \<open>learnValuePtr\<close>, \<open>fillCache\<close>,
  \<open>DispatchAccum\<close>). The storage engine is a parameter: what a plain lookup and a batched operation
  return in the state it is in. So are the iteration order of the hash map that groups a batch by
  key and the order in which the engine completes the operations of a call. The result says which
  responses were posted to which loop or sent to which connection.
\<close>

subsection \<open>Handing responses over\<close>

datatype send = Post "nat option" "rid list" | Direct "nat option" "rid list"

fun send_reqs :: "send \<Rightarrow> rid list" where
  "send_reqs (Post e rs) = rs"
| "send_reqs (Direct c rs) = rs"

record Accum =
  da_direct :: "(nat option \<times> rid list) list"
  da_groups :: "(nat option \<times> rid list) list"

definition kDirectMax :: nat where "kDirectMax = 64"

record ReaderCfg =
  rf_queue :: ReadCfg
  rf_seqnoIndex :: bool
  rf_valuePtr :: bool
  rf_directSend :: bool
  rf_dispatchBatch :: nat
  rf_asyncReads :: bool

text \<open>A request appended to the slot of its key, which is made if there is none.\<close>

fun slot_push :: "'k \<Rightarrow> rid \<Rightarrow> ('k \<times> rid list) list \<Rightarrow> ('k \<times> rid list) list" where
  "slot_push k r [] = [(k, [r])]"
| "slot_push k r ((k', rs) # gs) = (if k' = k then (k', rs @ [r]) # gs else (k', rs) # slot_push k r gs)"

fun slot_take :: "'k \<Rightarrow> ('k \<times> rid list) list \<Rightarrow> rid list \<times> ('k \<times> rid list) list" where
  "slot_take k [] = ([], [])"
| "slot_take k ((k', rs) # gs) =
     (if k' = k then (rs, (k', []) # gs) else let (x, gs') = slot_take k gs in (x, (k', rs) # gs'))"

definition accum_Add :: "ReaderCfg \<Rightarrow> store \<Rightarrow> rid \<Rightarrow> Accum \<times> send list \<Rightarrow> Accum \<times> send list" where
  "accum_Add cfg st r = (\<lambda>(A, out).
     if rf_directSend cfg
     then let c = rq_conn (st r); d = slot_push c r (da_direct A); (vec, d') = slot_take c d
          in if length vec \<ge> kDirectMax then (A\<lparr>da_direct := d'\<rparr>, out @ [Direct c vec]) else (A\<lparr>da_direct := d\<rparr>, out)
     else if rf_dispatchBatch cfg \<le> 1 then (A, out @ [Post (rq_evb (st r)) [r]])
     else let e = rq_evb (st r); g = slot_push e r (da_groups A); (vec, g') = slot_take e g
          in if length vec \<ge> rf_dispatchBatch cfg then (A\<lparr>da_groups := g'\<rparr>, out @ [Post e vec])
             else (A\<lparr>da_groups := g\<rparr>, out))"

definition flush_direct :: "(nat option \<times> rid list) list \<Rightarrow> send list" where
  "flush_direct d = map (\<lambda>(c, vec). Direct c vec) (filter (\<lambda>(c, vec). vec \<noteq> []) d)"

definition flush_groups :: "(nat option \<times> rid list) list \<Rightarrow> send list" where
  "flush_groups g = map (\<lambda>(e, vec). Post e vec) (filter (\<lambda>(e, vec). vec \<noteq> []) g)"

definition FlushAll :: "Accum \<times> send list \<Rightarrow> Accum \<times> send list" where
  "FlushAll = (\<lambda>(A, out).
     let out = out @ flush_direct (da_direct A);
         d = map (\<lambda>(c, _). (c, [])) (da_direct A);
         d = (if length d > 256 then [] else d)
     in (\<lparr>da_direct = d, da_groups = []\<rparr>, out @ flush_groups (da_groups A)))"

subsection \<open>Completing a lookup\<close>

record GetOp =
  go_key :: bytes
  go_seqnoHint :: u64
  go_valuePtrHint :: u64

record 'mg ReadMagma =
  Get_doc :: "'mg \<Rightarrow> u16 \<Rightarrow> bytes \<Rightarrow> Status \<times> bytes \<times> bytes"
  GetOp_doc :: "'mg \<Rightarrow> u16 \<Rightarrow> GetOp \<Rightarrow> Status \<times> bytes \<times> bytes \<times> u64"

type_synonym key_reqs = "u16 \<times> GetOp \<times> rid list"

record ('m, 'mg) ReadEnv =
  re_f14 :: "'m F14"
  re_hash :: hashfn
  re_alloc :: "rid \<Rightarrow> addr"
  re_magma :: "'mg ReadMagma"
  re_state :: 'mg
  re_iter :: "(bytes \<times> rid list) list \<Rightarrow> (bytes \<times> rid list) list"
  re_done :: "key_reqs list \<Rightarrow> key_reqs list"

record 'm Reader =
  rr_store :: store
  rr_queues :: ReadQueues
  rr_cache :: "'m Cache option"
  rr_accum :: Accum
  rr_out :: "send list"

definition key_not_found :: Status where
  "key_not_found = \<lparr>IsOK = False, IsOkDocNotFound = False\<rparr>"

definition is_hit :: "Status \<Rightarrow> bool" where
  "is_hit s \<longleftrightarrow> IsOK s \<and> \<not> IsOkDocNotFound s"

definition learnValuePtr :: "ReaderCfg \<Rightarrow> 'm F14 \<Rightarrow> hashfn \<Rightarrow> u16 \<Rightarrow> GetOp \<Rightarrow> Status \<Rightarrow> bytes \<Rightarrow> u64 \<Rightarrow>
    'm Cache option \<Rightarrow> 'm Cache option" where
  "learnValuePtr cfg F hf v op s meta ptrOut cache =
     (if \<not> rf_valuePtr cfg \<or> ptrOut = 0 \<or> \<not> IsOK s \<or> IsOkDocNotFound s then cache
      else map_option (\<lambda>c. c_NoteValuePtr F hf c v (go_key op) (m_seqno (decode_or_zero meta)) ptrOut) cache)"

definition fillCache :: "('m, 'mg) ReadEnv \<Rightarrow> u16 \<Rightarrow> rid \<Rightarrow> bytes \<Rightarrow> DocMeta \<Rightarrow> bytes \<Rightarrow> 'm Cache option \<Rightarrow> 'm Cache option" where
  "fillCache E v r key dm value cache =
     map_option (\<lambda>c. PutIfAbsent (re_f14 E) (re_hash E) c (re_alloc E r) v key value (m_seqno dm) (m_flags dm)
       (m_expiry dm) (m_datatype dm)) cache"

text \<open>The result fields of a request, as \<open>completeGets\<close> sets them.\<close>

definition set_result :: "Status \<Rightarrow> bytes \<Rightarrow> bytes \<Rightarrow> Request \<Rightarrow> Request" where
  "set_result s meta value q =
     (let q = q\<lparr>rq_status := s\<rparr>; dm = decode_or_zero meta
      in if is_hit s
         then let q = q\<lparr>rq_resFlags := m_flags dm, rq_seqno := m_seqno dm\<rparr>;
                  q = (if value \<noteq> [] then q\<lparr>rq_response := value\<rparr> else q)
              in q\<lparr>rq_resDatatype := m_datatype dm\<rparr>
         else if IsOkDocNotFound s then q\<lparr>rq_status := key_not_found\<rparr> else q)"

definition complete_one :: "ReaderCfg \<Rightarrow> ('m, 'mg) ReadEnv \<Rightarrow> u16 \<Rightarrow> Status \<Rightarrow> bytes \<Rightarrow> bytes \<Rightarrow> 'm Reader \<Rightarrow> rid \<Rightarrow> 'm Reader" where
  "complete_one cfg E v s meta value S r =
     (let S = S\<lparr>rr_store := set_req (rr_store S) r (set_result s meta value)\<rparr>;
          S = (if is_hit s
               then S\<lparr>rr_cache := fillCache E v r (rq_key (rr_store S r)) (decode_or_zero meta) value (rr_cache S)\<rparr> else S);
          (A, out) = accum_Add cfg (rr_store S) r (rr_accum S, rr_out S)
      in S\<lparr>rr_accum := A, rr_out := out\<rparr>)"

definition completeGets :: "ReaderCfg \<Rightarrow> ('m, 'mg) ReadEnv \<Rightarrow> u16 \<Rightarrow> rid list \<Rightarrow> Status \<Rightarrow> bytes \<Rightarrow> bytes \<Rightarrow> 'm Reader \<Rightarrow> 'm Reader" where
  "completeGets cfg E v reqs s meta value S = foldl (complete_one cfg E v s meta value) S reqs"

definition flush_accum :: "'m Reader \<Rightarrow> 'm Reader" where
  "flush_accum S = (let (A, out) = FlushAll (rr_accum S, rr_out S) in S\<lparr>rr_accum := A, rr_out := out\<rparr>)"

text \<open>The engine's callback for one operation; \<open>AsyncReadCall::OnDoc\<close> is the same.\<close>

definition OnDoc :: "ReaderCfg \<Rightarrow> ('m, 'mg) ReadEnv \<Rightarrow> 'm Reader \<Rightarrow> key_reqs \<Rightarrow> 'm Reader" where
  "OnDoc cfg E S kr =
     (let (v, op, reqs) = kr; (s, meta, value, ptrOut) = GetOp_doc (re_magma E) (re_state E) v op;
          S = S\<lparr>rr_cache := learnValuePtr cfg (re_f14 E) (re_hash E) v op s meta ptrOut (rr_cache S)\<rparr>
      in completeGets cfg E v reqs s meta value S)"

subsection \<open>Reading a batch\<close>

definition group_reqs :: "store \<Rightarrow> rid list \<Rightarrow> (bytes \<times> rid list) list" where
  "group_reqs st rs = foldl (\<lambda>g r. slot_push (rq_key (st r)) r g) [] rs"

definition get_op :: "ReaderCfg \<Rightarrow> ('m, 'mg) ReadEnv \<Rightarrow> u16 \<Rightarrow> bytes \<Rightarrow> 'm Cache option \<Rightarrow> GetOp \<times> 'm Cache option" where
  "get_op cfg E v key cache =
     (case cache of
        Some c \<Rightarrow> if rf_seqnoIndex cfg
          then let (n, p, c) = c_SeqnoHint (re_f14 E) (re_hash E) c v key
               in (\<lparr>go_key = key, go_seqnoHint = n, go_valuePtrHint = (if rf_valuePtr cfg then p else 0)\<rparr>, Some c)
          else (\<lparr>go_key = key, go_seqnoHint = 0, go_valuePtrHint = 0\<rparr>, Some c)
      | None \<Rightarrow> (\<lparr>go_key = key, go_seqnoHint = 0, go_valuePtrHint = 0\<rparr>, None))"

fun make_ops :: "ReaderCfg \<Rightarrow> ('m, 'mg) ReadEnv \<Rightarrow> u16 \<Rightarrow> (bytes \<times> rid list) list \<Rightarrow> 'm Cache option \<Rightarrow>
    key_reqs list \<times> 'm Cache option" where
  "make_ops cfg E v [] cache = ([], cache)"
| "make_ops cfg E v ((key, reqs) # gs) cache =
     (let (op, cache) = get_op cfg E v key cache; (ops, cache) = make_ops cfg E v gs cache
      in ((v, op, reqs) # ops, cache))"

text \<open>Collecting a vbucket's batch into a reader's state.\<close>

definition take_reads :: "nat \<Rightarrow> ReaderCfg \<Rightarrow> u16 \<Rightarrow> 'm Reader \<Rightarrow> (rid list \<times> 'm Reader) option" where
  "take_reads fuel cfg v S =
     (case collectRead fuel (rf_queue cfg) (rr_store S) (rr_queues S) v of
        None \<Rightarrow> None
      | Some (batch, st, R) \<Rightarrow> Some (batch, S\<lparr>rr_store := st, rr_queues := R\<rparr>))"

definition release_reads :: "ReaderCfg \<Rightarrow> u16 \<Rightarrow> 'm Reader \<Rightarrow> 'm Reader" where
  "release_reads cfg v S = S\<lparr>rr_queues := releaseReadVBQueue (rf_queue cfg) (rr_queues S) v\<rparr>"

definition read_single :: "('m, 'mg) ReadEnv \<Rightarrow> u16 \<Rightarrow> rid \<Rightarrow> 'm Reader \<Rightarrow> 'm Reader" where
  "read_single E v r S =
     (let (s, meta, value) = Get_doc (re_magma E) (re_state E) v (rq_key (rr_store S r));
          dm = decode_or_zero meta;
          S = (if is_hit s
               then let upd = (\<lambda>q. let q = q\<lparr>rq_status := s, rq_resFlags := m_flags dm, rq_seqno := m_seqno dm,
                                       rq_resDatatype := m_datatype dm\<rparr>
                                   in if value \<noteq> [] then q\<lparr>rq_response := value\<rparr> else q)
                    in S\<lparr>rr_store := set_req (rr_store S) r upd,
                         rr_cache := fillCache E v r (rq_key (rr_store S r)) dm value (rr_cache S)\<rparr>
               else S\<lparr>rr_store := set_req (rr_store S) r
                        (\<lambda>q. q\<lparr>rq_status := (if IsOkDocNotFound s then key_not_found else s)\<rparr>)\<rparr>)
      in S\<lparr>rr_out := rr_out S @ [Post (rq_evb (rr_store S r)) [r]]\<rparr>)"

definition run_ops :: "ReaderCfg \<Rightarrow> ('m, 'mg) ReadEnv \<Rightarrow> key_reqs list \<Rightarrow> 'm Reader \<Rightarrow> 'm Reader" where
  "run_ops cfg E ops S = flush_accum (foldl (OnDoc cfg E) S (re_done E ops))"

text \<open>The asynchronous calls: what the engine answers to each attempt to hand it the call, and the call
  itself, the operations with the requests that wait on each.\<close>

datatype attempt = Accepted | RetryLater | Refused Status

fun async_call :: "nat \<Rightarrow> ReaderCfg \<Rightarrow> ('m, 'mg) ReadEnv \<Rightarrow> u16 list \<Rightarrow> 'm Reader \<Rightarrow> (nat \<times> key_reqs list \<times> 'm Reader) option" where
  "async_call fuel cfg E [] S = Some (0, [], S)"
| "async_call fuel cfg E (v # vs) S =
     (case take_reads fuel cfg v S of
        None \<Rightarrow> None
      | Some (batch, S) \<Rightarrow>
          if batch = [] then async_call fuel cfg E vs S
          else let (ops, cache) = make_ops cfg E v (group_reqs (rr_store S) batch) (rr_cache S);
                   S = release_reads cfg v (S\<lparr>rr_cache := cache\<rparr>)
               in case async_call fuel cfg E vs S of
                    None \<Rightarrow> None
                  | Some (n, ops', S) \<Rightarrow> Some (length batch + n, ops @ ops', S))"

definition fail_call :: "ReaderCfg \<Rightarrow> ('m, 'mg) ReadEnv \<Rightarrow> Status \<Rightarrow> key_reqs list \<Rightarrow> 'm Reader \<Rightarrow> 'm Reader" where
  "fail_call cfg E s ops S = flush_accum (foldl (\<lambda>S (v, op, reqs). completeGets cfg E v reqs s [] [] S) S ops)"

text \<open>\<open>None\<close> stands for a thread that is still retrying.\<close>

fun issue :: "ReaderCfg \<Rightarrow> ('m, 'mg) ReadEnv \<Rightarrow> attempt list \<Rightarrow> key_reqs list \<Rightarrow> 'm Reader \<Rightarrow> (key_reqs list \<times> 'm Reader) option" where
  "issue cfg E [] ops S = None"
| "issue cfg E (Accepted # as) ops S = Some (ops, S)"
| "issue cfg E (RetryLater # as) ops S = issue cfg E as ops S"
| "issue cfg E (Refused s # as) ops S = Some ([], fail_call cfg E s ops S)"

definition submitReadsAsync :: "nat \<Rightarrow> ReaderCfg \<Rightarrow> ('m, 'mg) ReadEnv \<Rightarrow> attempt list \<Rightarrow> u16 list \<Rightarrow> 'm Reader \<Rightarrow>
    (nat \<times> key_reqs list \<times> 'm Reader) option" where
  "submitReadsAsync fuel cfg E as vs S =
     (case async_call fuel cfg E vs S of
        None \<Rightarrow> None
      | Some (n, ops, S) \<Rightarrow>
          if ops = [] then Some (n, [], S) else map_option (\<lambda>(c, S). (n, c, S)) (issue cfg E as ops S))"

text \<open>The engine's threads work the call off in jobs; \<open>OnJobDone\<close> ends each.\<close>

definition run_job :: "ReaderCfg \<Rightarrow> ('m, 'mg) ReadEnv \<Rightarrow> 'm Reader \<Rightarrow> key_reqs list \<Rightarrow> 'm Reader" where
  "run_job cfg E S job = flush_accum (foldl (OnDoc cfg E) S job)"

definition executeRead :: "nat \<Rightarrow> ReaderCfg \<Rightarrow> ('m, 'mg) ReadEnv \<Rightarrow> attempt list \<Rightarrow> u16 \<Rightarrow> 'm Reader \<Rightarrow>
    (nat \<times> key_reqs list \<times> 'm Reader) option" where
  "executeRead fuel cfg E as v S =
     (if rf_asyncReads cfg then submitReadsAsync fuel cfg E as [v] S
      else case take_reads fuel cfg v S of
             None \<Rightarrow> None
           | Some (batch, S) \<Rightarrow>
               if batch = [] then Some (0, [], S)
               else let S = (if length batch = 1 \<and> \<not> rf_seqnoIndex cfg then read_single E v (hd batch) S
                             else let (ops, cache) = make_ops cfg E v (re_iter E (group_reqs (rr_store S) batch)) (rr_cache S)
                                  in run_ops cfg E ops (S\<lparr>rr_cache := cache\<rparr>))
                    in Some (length batch, [], release_reads cfg v S))"

fun multi_call :: "nat \<Rightarrow> ReaderCfg \<Rightarrow> ('m, 'mg) ReadEnv \<Rightarrow> u16 list \<Rightarrow> 'm Reader \<Rightarrow>
    (nat \<times> u16 list \<times> key_reqs list \<times> 'm Reader) option" where
  "multi_call fuel cfg E [] S = Some (0, [], [], S)"
| "multi_call fuel cfg E (v # vs) S =
     (case take_reads fuel cfg v S of
        None \<Rightarrow> None
      | Some (batch, S) \<Rightarrow>
          if batch = [] then multi_call fuel cfg E vs S
          else let (ops, cache) = make_ops cfg E v (group_reqs (rr_store S) batch) (rr_cache S)
               in case multi_call fuel cfg E vs (S\<lparr>rr_cache := cache\<rparr>) of
                    None \<Rightarrow> None
                  | Some (n, ws, ops', S) \<Rightarrow> Some (length batch + n, v # ws, ops @ ops', S))"

definition executeReadMulti :: "nat \<Rightarrow> ReaderCfg \<Rightarrow> ('m, 'mg) ReadEnv \<Rightarrow> attempt list \<Rightarrow> u16 list \<Rightarrow> 'm Reader \<Rightarrow>
    (nat \<times> key_reqs list \<times> 'm Reader) option" where
  "executeReadMulti fuel cfg E as vs S =
     (if rf_asyncReads cfg then submitReadsAsync fuel cfg E as vs S
      else case multi_call fuel cfg E vs S of
             None \<Rightarrow> None
           | Some (n, ws, ops, S) \<Rightarrow>
               let S = (if ws = [] then S else run_ops cfg E ops S)
               in Some (n, [], foldl (\<lambda>S v. release_reads cfg v S) S ws))"

subsection \<open>Every response goes out once\<close>

text \<open>What an accumulator holds, and what it holds for a loop or a connection.\<close>

definition held :: "Accum \<Rightarrow> rid list" where
  "held A = concat (map snd (da_direct A)) @ concat (map snd (da_groups A))"

definition sends_ok :: "store \<Rightarrow> send list \<Rightarrow> bool" where
  "sends_ok st out \<longleftrightarrow> (\<forall>x\<in>set out. case x of
     Post e rs \<Rightarrow> (\<forall>r\<in>set rs. rq_evb (st r) = e) | Direct c rs \<Rightarrow> (\<forall>r\<in>set rs. rq_conn (st r) = c))"

definition accum_ok :: "store \<Rightarrow> Accum \<Rightarrow> bool" where
  "accum_ok st A \<longleftrightarrow> (\<forall>(c, rs)\<in>set (da_direct A). \<forall>r\<in>set rs. rq_conn (st r) = c) \<and>
     (\<forall>(e, rs)\<in>set (da_groups A). \<forall>r\<in>set rs. rq_evb (st r) = e)"

lemma slot_push_mset: "mset (concat (map snd (slot_push k r gs))) = add_mset r (mset (concat (map snd gs)))"
  by (induction k r gs rule: slot_push.induct) auto

lemma slot_take_mset: "slot_take k gs = (vec, gs') \<Longrightarrow> mset vec + mset (concat (map snd gs')) = mset (concat (map snd gs))"
  by (induction k gs arbitrary: vec gs' rule: slot_take.induct) (auto split: if_splits prod.splits)

lemma slot_push_all: "\<forall>(k', rs)\<in>set gs. \<forall>x\<in>set rs. f x = k' \<Longrightarrow> f r = k \<Longrightarrow> \<forall>(k', rs)\<in>set (slot_push k r gs). \<forall>x\<in>set rs. f x = k'"
  by (induction k r gs rule: slot_push.induct) auto

lemma slot_take_all:
  "slot_take k gs = (vec, gs') \<Longrightarrow> \<forall>(k', rs)\<in>set gs. \<forall>x\<in>set rs. f x = k' \<Longrightarrow>
   (\<forall>(k', rs)\<in>set gs'. \<forall>x\<in>set rs. f x = k') \<and> (\<forall>x\<in>set vec. f x = k)"
  by (induction k gs arbitrary: vec gs' rule: slot_take.induct) (auto split: if_splits prod.splits)

lemma accum_Add_sent:
  assumes "accum_Add cfg st r (A, out) = (A', out')"
  shows "mset (held A') + mset (concat (map send_reqs out')) = add_mset r (mset (held A) + mset (concat (map send_reqs out)))"
proof -
  let ?c = "rq_conn (st r)" and ?e = "rq_evb (st r)"
  obtain vec d vec' g where d: "slot_take ?c (slot_push ?c r (da_direct A)) = (vec, d)"
    "slot_take ?e (slot_push ?e r (da_groups A)) = (vec', g)" by (metis surj_pair)
  show ?thesis
    using assms slot_take_mset [OF d(1)] slot_take_mset [OF d(2)]
    by (cases "kDirectMax \<le> length vec"; cases "rf_dispatchBatch cfg \<le> length vec'")
      (auto simp: accum_Add_def held_def Let_def d slot_push_mset ac_simps split: if_splits)
qed

lemma accum_Add_ok:
  assumes a: "accum_ok st A" and o: "sends_ok st out" and r: "accum_Add cfg st r (A, out) = (A', out')"
  shows "accum_ok st A' \<and> sends_ok st out'"
proof -
  let ?c = "rq_conn (st r)" and ?e = "rq_evb (st r)"
  consider (direct) "rf_directSend cfg" | (each) "\<not> rf_directSend cfg" "rf_dispatchBatch cfg \<le> 1"
    | (group) "\<not> rf_directSend cfg" "\<not> rf_dispatchBatch cfg \<le> 1" by blast
  then show ?thesis
  proof cases
    case direct
    obtain vec d where d: "slot_take ?c (slot_push ?c r (da_direct A)) = (vec, d)" by force
    have p: "\<forall>(k, rs)\<in>set (slot_push ?c r (da_direct A)). \<forall>x\<in>set rs. rq_conn (st x) = k"
      by (rule slot_push_all) (use a in \<open>simp_all add: accum_ok_def\<close>)
    have "A' = (if length vec \<ge> kDirectMax then A\<lparr>da_direct := d\<rparr> else A\<lparr>da_direct := slot_push ?c r (da_direct A)\<rparr>)"
      "out' = (if length vec \<ge> kDirectMax then out @ [Direct ?c vec] else out)"
      using r direct d by (simp_all add: accum_Add_def Let_def split: if_splits)
    then show ?thesis
      using a o p slot_take_all [OF d p] by (simp add: accum_ok_def sends_ok_def)
  next
    case each
    then show ?thesis using r a o by (auto simp: accum_Add_def sends_ok_def)
  next
    case group
    obtain vec g where g: "slot_take ?e (slot_push ?e r (da_groups A)) = (vec, g)" by force
    have p: "\<forall>(k, rs)\<in>set (slot_push ?e r (da_groups A)). \<forall>x\<in>set rs. rq_evb (st x) = k"
      by (rule slot_push_all) (use a in \<open>simp_all add: accum_ok_def\<close>)
    have "A' = (if length vec \<ge> rf_dispatchBatch cfg then A\<lparr>da_groups := g\<rparr> else A\<lparr>da_groups := slot_push ?e r (da_groups A)\<rparr>)"
      "out' = (if length vec \<ge> rf_dispatchBatch cfg then out @ [Post ?e vec] else out)"
      using r group g by (simp_all add: accum_Add_def Let_def split: if_splits)
    then show ?thesis
      using a o p slot_take_all [OF g p] by (simp add: accum_ok_def sends_ok_def)
  qed
qed

lemma flush_send_reqs:
  "concat (map send_reqs (flush_direct d)) = concat (map snd d)" "concat (map send_reqs (flush_groups d)) = concat (map snd d)"
  by (induction d) (auto simp: flush_direct_def flush_groups_def)

lemma FlushAll_ok:
  assumes "accum_ok st A" and "sends_ok st out" and "FlushAll (A, out) = (A', out')"
  shows "accum_ok st A' \<and> sends_ok st out' \<and> held A' = [] \<and>
    mset (concat (map send_reqs out')) = mset (held A) + mset (concat (map send_reqs out))"
proof -
  have 1: "concat (map snd (map (\<lambda>(c, _). (c, [])) d)) = ([] :: rid list)" for d :: "(nat option \<times> rid list) list"
    by (induction d) auto
  have "A' = \<lparr>da_direct = (if length (da_direct A) > 256 then [] else map (\<lambda>(c, _). (c, [])) (da_direct A)), da_groups = []\<rparr>"
    "out' = out @ flush_direct (da_direct A) @ flush_groups (da_groups A)"
    using assms(3) by (simp_all add: FlushAll_def Let_def)
  moreover have "sends_ok st (flush_direct (da_direct A) @ flush_groups (da_groups A))"
    using assms(1) by (auto simp: sends_ok_def accum_ok_def flush_direct_def flush_groups_def)
  ultimately show ?thesis
    using assms(2) 1 [of "da_direct A"] by (auto simp: accum_ok_def sends_ok_def held_def flush_send_reqs)
qed

definition sent :: "'m Reader \<Rightarrow> rid multiset" where
  "sent S = mset (held (rr_accum S)) + mset (concat (map send_reqs (rr_out S)))"

definition routes_ok :: "'m Reader \<Rightarrow> bool" where
  "routes_ok S \<longleftrightarrow> accum_ok (rr_store S) (rr_accum S) \<and> sends_ok (rr_store S) (rr_out S)"

lemma set_result_keeps [simp]:
  "rq_key (set_result s m x q) = rq_key q" "rq_conn (set_result s m x q) = rq_conn q" "rq_evb (set_result s m x q) = rq_evb q"
  "rq_next (set_result s m x q) = rq_next q" "rq_vbucket (set_result s m x q) = rq_vbucket q"
  by (simp_all add: set_result_def Let_def)

lemma routes_frame:
  assumes "\<And>x. rq_conn (st' x) = rq_conn (st x)" and "\<And>x. rq_evb (st' x) = rq_evb (st x)"
  shows "accum_ok st' A = accum_ok st A" "sends_ok st' out = sends_ok st out"
  using assms by (auto simp: accum_ok_def sends_ok_def split: send.splits)

text \<open>\<open>reads_done S S' rs f\<close>: exactly the requests \<open>rs\<close> were answered on the way, each set by \<open>f\<close>.\<close>

definition reads_done :: "'m Reader \<Rightarrow> 'm Reader \<Rightarrow> rid list \<Rightarrow> (rid \<Rightarrow> Request \<Rightarrow> Request) \<Rightarrow> bool" where
  "reads_done S S' rs f \<longleftrightarrow> (routes_ok S \<longrightarrow> routes_ok S') \<and> sent S' = mset rs + sent S \<and> rr_queues S' = rr_queues S \<and>
     rr_store S' = (\<lambda>x. if x \<in> set rs then f x (rr_store S x) else rr_store S x)"

lemma complete_one_ok:
  "reads_done S (complete_one cfg E v s meta value S r) [r] (\<lambda>_. set_result s meta value)"
proof -
  let ?st = "set_req (rr_store S) r (set_result s meta value)"
  obtain A out where a: "accum_Add cfg ?st r (rr_accum S, rr_out S) = (A, out)" by force
  have f: "accum_ok ?st B = accum_ok (rr_store S) B" "sends_ok ?st o' = sends_ok (rr_store S) o'" for B o'
    by (rule routes_frame; simp add: set_req_def)+
  have S': "rr_store (complete_one cfg E v s meta value S r) = ?st" "rr_accum (complete_one cfg E v s meta value S r) = A"
    "rr_out (complete_one cfg E v s meta value S r) = out" "rr_queues (complete_one cfg E v s meta value S r) = rr_queues S"
    using a by (simp_all add: complete_one_def Let_def)
  have st: "?st = (\<lambda>x. if x \<in> set [r] then set_result s meta value (rr_store S x) else rr_store S x)"
    by (auto simp: set_req_def)
  have "routes_ok (complete_one cfg E v s meta value S r)" if "routes_ok S"
    using that accum_Add_ok [OF _ _ a] unfolding routes_ok_def S' f by blast
  moreover have "sent (complete_one cfg E v s meta value S r) = mset [r] + sent S"
    using accum_Add_sent [OF a] unfolding sent_def S' by simp
  ultimately show ?thesis using st S'(1,4) by (simp add: reads_done_def)
qed

lemma reads_done_trans:
  assumes "reads_done S S' rs f" and "reads_done S' S'' rs' f" and "set rs \<inter> set rs' = {}"
  shows "reads_done S S'' (rs @ rs') f"
  using assms by (auto simp: reads_done_def fun_eq_iff)

lemma reads_done_cong:
  assumes "reads_done S S' rs f" and "\<And>x. x \<in> set rs \<Longrightarrow> f x = g x"
  shows "reads_done S S' rs g"
  using assms by (auto simp: reads_done_def fun_eq_iff)

lemma reads_done_cache: "reads_done S (S\<lparr>rr_cache := c\<rparr>) [] f"
  by (simp add: reads_done_def routes_ok_def sent_def)

lemma completeGets_ok:
  "distinct reqs \<Longrightarrow> reads_done S (completeGets cfg E v reqs s meta val S) reqs (\<lambda>_. set_result s meta val)"
proof (induction reqs arbitrary: S)
  case Nil
  then show ?case by (simp add: completeGets_def reads_done_def)
next
  case (Cons r rs)
  let ?S = "complete_one cfg E v s meta val S r"
  have "reads_done S (completeGets cfg E v rs s meta val ?S) ([r] @ rs) (\<lambda>_. set_result s meta val)"
    by (rule reads_done_trans [OF complete_one_ok Cons.IH]) (use Cons.prems in simp_all)
  then show ?case by (simp add: completeGets_def)
qed

text \<open>What the engine answers to an operation, as an update of a request.\<close>

definition op_result :: "('m, 'mg) ReadEnv \<Rightarrow> u16 \<Rightarrow> GetOp \<Rightarrow> Request \<Rightarrow> Request" where
  "op_result E v op = (case GetOp_doc (re_magma E) (re_state E) v op of (s, meta, value, _) \<Rightarrow> set_result s meta value)"

definition get_result :: "('m, 'mg) ReadEnv \<Rightarrow> u16 \<Rightarrow> bytes \<Rightarrow> Request \<Rightarrow> Request" where
  "get_result E v key = (case Get_doc (re_magma E) (re_state E) v key of (s, meta, value) \<Rightarrow> set_result s meta value)"

lemma OnDoc_ok:
  assumes "distinct reqs"
  shows "reads_done S (OnDoc cfg E S (v, op, reqs)) reqs (\<lambda>_. op_result E v op)"
proof -
  obtain s meta val p where g: "GetOp_doc (re_magma E) (re_state E) v op = (s, meta, val, p)" by (metis surj_pair)
  let ?S = "S\<lparr>rr_cache := learnValuePtr cfg (re_f14 E) (re_hash E) v op s meta p (rr_cache S)\<rparr>"
  have "reads_done S (completeGets cfg E v reqs s meta val ?S) ([] @ reqs) (\<lambda>_. set_result s meta val)"
    by (rule reads_done_trans [OF reads_done_cache completeGets_ok [OF assms]]) simp
  then show ?thesis by (simp add: OnDoc_def op_result_def g)
qed

abbreviation op_reqs :: "key_reqs list \<Rightarrow> rid list" where
  "op_reqs ops \<equiv> concat (map (\<lambda>(v, op, reqs). reqs) ops)"

text \<open>\<open>g\<close> gives the answer due to each request of the call.\<close>

lemma OnDocs_ok:
  "distinct (op_reqs ops) \<Longrightarrow> (\<And>v op reqs r. (v, op, reqs) \<in> set ops \<Longrightarrow> r \<in> set reqs \<Longrightarrow> op_result E v op = g r) \<Longrightarrow>
   reads_done S (foldl (OnDoc cfg E) S ops) (op_reqs ops) g"
proof (induction ops arbitrary: S)
  case Nil
  then show ?case by (simp add: reads_done_def)
next
  case (Cons kr ops)
  obtain v op reqs where kr: "kr = (v, op, reqs)" by (metis surj_pair)
  have "reads_done S (OnDoc cfg E S kr) reqs g"
    unfolding kr by (rule reads_done_cong [OF OnDoc_ok]) (use Cons.prems kr in auto)
  moreover have "reads_done (OnDoc cfg E S kr) (foldl (OnDoc cfg E) (OnDoc cfg E S kr) ops) (op_reqs ops) g"
    by (rule Cons.IH) (use Cons.prems kr in auto)
  ultimately show ?case using reads_done_trans [of S _ reqs g _ "op_reqs ops"] Cons.prems(1) kr by auto
qed

lemma flush_accum_ok:
  assumes "routes_ok S"
  shows "reads_done S (flush_accum S) [] f \<and> held (rr_accum (flush_accum S)) = []"
proof -
  obtain A out where a: "FlushAll (rr_accum S, rr_out S) = (A, out)" by force
  have "accum_ok (rr_store S) (rr_accum S)" "sends_ok (rr_store S) (rr_out S)" using assms by (auto simp: routes_ok_def)
  from FlushAll_ok [OF this a] show ?thesis by (simp add: flush_accum_def a reads_done_def routes_ok_def sent_def)
qed

lemma reads_done_flush:
  assumes "reads_done S S' rs f" and "routes_ok S"
  shows "reads_done S (flush_accum S') rs f \<and> held (rr_accum (flush_accum S')) = []"
proof -
  have "routes_ok S'" using assms by (simp add: reads_done_def)
  from flush_accum_ok [OF this, of f] show ?thesis using reads_done_trans [OF assms(1), of "flush_accum S'" "[]"] by simp
qed

subsection \<open>Grouping\<close>

lemma group_reqs_ok:
  "mset (concat (map snd (group_reqs st rs))) = mset rs \<and> (\<forall>(k, qs)\<in>set (group_reqs st rs). \<forall>r\<in>set qs. rq_key (st r) = k) \<and>
   (group_reqs st rs = [] \<longleftrightarrow> rs = [])"
proof -
  have n: "slot_push k r gs \<noteq> []" for k :: bytes and r gs by (cases gs) (auto split: if_splits)
  have "mset (concat (map snd (foldl (\<lambda>g r. slot_push (rq_key (st r)) r g) gs rs))) = mset rs + mset (concat (map snd gs)) \<and>
    (\<forall>(k, qs)\<in>set (foldl (\<lambda>g r. slot_push (rq_key (st r)) r g) gs rs). \<forall>r\<in>set qs. rq_key (st r) = k) \<and>
    (foldl (\<lambda>g r. slot_push (rq_key (st r)) r g) gs rs = [] \<longleftrightarrow> rs = [] \<and> gs = [])"
    if "\<forall>(k, qs)\<in>set gs. \<forall>r\<in>set qs. rq_key (st r) = k" for gs
    using that
  proof (induction rs arbitrary: gs)
    case (Cons r rs)
    have "\<forall>(k, qs)\<in>set (slot_push (rq_key (st r)) r gs). \<forall>r\<in>set qs. rq_key (st r) = k"
      by (rule slot_push_all [OF Cons.prems refl])
    from Cons.IH [OF this] show ?case using n by (simp add: slot_push_mset)
  qed simp
  from this [of "[]"] show ?thesis by (simp add: group_reqs_def)
qed

lemma make_ops_ok:
  "make_ops cfg E v gs cache = (ops, cache') \<Longrightarrow> map (\<lambda>(v', op, reqs). (v', go_key op, reqs)) ops = map (\<lambda>(k, reqs). (v, k, reqs)) gs"
proof (induction cfg E v gs cache arbitrary: ops cache' rule: make_ops.induct)
  case (2 cfg E v key reqs gs cache)
  obtain op c1 where o: "get_op cfg E v key cache = (op, c1)" by force
  obtain ops1 c2 where m: "make_ops cfg E v gs c1 = (ops1, c2)" by force
  have "go_key op = key" using o by (auto simp: get_op_def Let_def split: option.splits if_splits prod.splits)
  then show ?case using 2(1) [OF o [symmetric] refl m] 2(2) o m by auto
qed simp

subsection \<open>Batches and their queues\<close>

text \<open>\<open>W v\<close> are the requests that wait in the queue of \<open>v\<close>, oldest first.\<close>

definition queues_hold :: "store \<Rightarrow> ReadQueues \<Rightarrow> (u16 \<Rightarrow> rid list) \<Rightarrow> bool" where
  "queues_hold st R W \<longleftrightarrow> (\<forall>v. waiting st (rd_vbs R v) (W v)) \<and> (\<forall>v. \<forall>r\<in>set (W v). rq_vbucket (st r) = v)"

lemma waiting_frame:
  assumes "waiting st q rs" and "\<And>x. x \<in> set rs \<Longrightarrow> rq_next (st' x) = rq_next (st x)"
  shows "waiting st' q rs"
  using assms rq_holds_frame [of st q _ _ st'] unfolding waiting_def by blast

lemma waiting_distinct: "waiting st q rs \<Longrightarrow> distinct rs"
  by (auto simp: waiting_def rq_holds_def)

lemma queues_hold_frame:
  assumes "queues_hold st R W" and "\<And>x. rq_next (st' x) = rq_next (st x)" and "\<And>x. rq_vbucket (st' x) = rq_vbucket (st x)"
  shows "queues_hold st' R W"
  using assms waiting_frame [of st _ _ st'] unfolding queues_hold_def by simp

lemma queues_hold_release:
  assumes "queues_hold st R W" shows "queues_hold st (releaseReadVBQueue cfg R v) W"
  using assms by (simp add: queues_hold_def waiting_def)

lemma take_reads_ok:
  assumes h: "queues_hold (rr_store S) (rr_queues S) W" and m: "0 < rc_maxBatch (rf_queue cfg)" and f: "length (W v) \<le> fuel"
  defines "n \<equiv> rc_maxBatch (rf_queue cfg)"
  shows "\<exists>st R. take_reads fuel cfg v S = Some (take n (W v), S\<lparr>rr_store := st, rr_queues := R\<rparr>) \<and> contents_eq (rr_store S) st \<and>
    queues_hold st R (W(v := drop n (W v)))"
proof -
  obtain ovf new where w: "rq_holds (rr_store S) (rd_vbs (rr_queues S) v) ovf new" "W v = ovf @ new"
    using h unfolding queues_hold_def waiting_def by blast
  have "length new \<le> fuel" using f w(2) by simp
  from collectRead_ok [OF w(1) m this] obtain st R ovf' new' where
    c: "collectRead fuel (rf_queue cfg) (rr_store S) (rr_queues S) v = Some (take n (ovf @ new), st, R)"
    "contents_eq (rr_store S) st" "rq_holds st (rd_vbs R v) ovf' new'" "ovf' @ new' = drop n (ovf @ new)"
    "\<And>w. w \<noteq> v \<Longrightarrow> rd_vbs R w = rd_vbs (rr_queues S) w" "\<And>x. x \<notin> set (ovf @ new) \<Longrightarrow> st x = rr_store S x"
    unfolding n_def by blast
  have "waiting st (rd_vbs R u) ((W(v := drop n (W v))) u)" for u
  proof (cases "u = v")
    case True
    then show ?thesis using c(3,4) w(2) unfolding waiting_def by (metis fun_upd_same)
  next
    case False
    have "rq_next (st x) = rq_next (rr_store S x)" if "x \<in> set (W u)" for x
    proof -
      have "x \<notin> set (W v)" using h that False unfolding queues_hold_def by metis
      then show ?thesis using c(6) [of x] w(2) by simp
    qed
    then show ?thesis
      using waiting_frame [of "rr_store S" "rd_vbs R u" "W u" st] h False c(5) [OF False] by (simp add: queues_hold_def)
  qed
  moreover have "rq_vbucket (st r) = u" if "r \<in> set ((W(v := drop n (W v))) u)" for u r
    using h that contents_eqD(3) [OF c(2)] in_set_dropD [of r n "W v"] by (auto simp: queues_hold_def split: if_splits)
  ultimately have "queues_hold st R (W(v := drop n (W v)))" unfolding queues_hold_def by blast
  then show ?thesis using c(1,2) w(2) by (auto simp: take_reads_def)
qed

text \<open>\<open>served n vs W\<close>: what readers that take a batch from each of \<open>vs\<close> in turn end up with, and what
  then waits.\<close>

fun served :: "nat \<Rightarrow> u16 list \<Rightarrow> (u16 \<Rightarrow> rid list) \<Rightarrow> rid list" where
  "served n [] W = []"
| "served n (v # vs) W = take n (W v) @ served n vs (W(v := drop n (W v)))"

fun left_over :: "nat \<Rightarrow> u16 list \<Rightarrow> (u16 \<Rightarrow> rid list) \<Rightarrow> u16 \<Rightarrow> rid list" where
  "left_over n [] W = W"
| "left_over n (v # vs) W = left_over n vs (W(v := drop n (W v)))"

lemma served_subset: "r \<in> set (served n vs W) \<Longrightarrow> \<exists>v. r \<in> set (W v)"
proof (induction n vs W rule: served.induct)
  case (2 n v vs W)
  then consider "r \<in> set (take n (W v))" | u where "r \<in> set ((W(v := drop n (W v))) u)" by fastforce
  then show ?case by cases (auto split: if_splits dest: in_set_takeD in_set_dropD)
qed simp

lemma served_distinct:
  "(\<And>v. distinct (W v)) \<Longrightarrow> (\<And>u v. u \<noteq> v \<Longrightarrow> set (W u) \<inter> set (W v) = {}) \<Longrightarrow> distinct (served n vs W)"
proof (induction n vs W rule: served.induct)
  case (2 n v vs W)
  let ?W = "W(v := drop n (W v))"
  have a: "distinct (?W u)" for u using 2(2) by simp
  have b: "set (?W u) \<inter> set (?W w) = {}" if "u \<noteq> w" for u w
    using 2(3) [OF that] set_drop_subset [of n "W v"] by auto
  have "set (take n (W v)) \<inter> set (served n vs ?W) = {}"
  proof -
    have False if t: "r \<in> set (take n (W v))" and v': "r \<in> set (served n vs ?W)" for r
    proof -
      obtain u where u: "r \<in> set (?W u)" using served_subset [OF v'] by blast
      have "r \<in> set (W v)" using in_set_takeD [OF t] .
      then have "u = v" using u 2(3) [of u v] by (auto split: if_splits)
      then have "r \<in> set (drop n (W v))" using u by simp
      then show False using t 2(2) [of v] set_take_disj_set_drop_if_distinct [of "W v" n n] by auto
    qed
    then show ?thesis by blast
  qed
  moreover have "distinct (served n vs ?W)" by (rule 2(1) [OF a b])
  ultimately show ?case using 2(2) [of v] by (simp del: fun_upd_apply)
qed simp

lemma queues_hold_served:
  assumes "queues_hold st R W" shows "distinct (served n vs W)"
proof (rule served_distinct)
  show "distinct (W v)" for v using assms waiting_distinct by (auto simp: queues_hold_def)
  show "set (W u) \<inter> set (W v) = {}" if "u \<noteq> v" for u v
    using assms that unfolding queues_hold_def disjoint_iff by metis
qed

subsection \<open>Calls\<close>

text \<open>The operations of a call ask, for each of \<open>rs\<close> exactly once, for its own key in its own vbucket.\<close>

definition call_for :: "store \<Rightarrow> key_reqs list \<Rightarrow> rid list \<Rightarrow> bool" where
  "call_for st ops rs \<longleftrightarrow> mset (op_reqs ops) = mset rs \<and>
     (\<forall>(v, op, reqs)\<in>set ops. \<forall>r\<in>set reqs. rq_vbucket (st r) = v \<and> rq_key (st r) = go_key op)"

lemma call_for_append: "call_for st ops rs \<Longrightarrow> call_for st ops' rs' \<Longrightarrow> call_for st (ops @ ops') (rs @ rs')"
  by (auto simp: call_for_def)

lemma call_for_contents: "contents_eq st st' \<Longrightarrow> call_for st' ops rs = call_for st ops rs"
  by (auto simp: call_for_def contents_eqD)

lemma mset_concat_map_perm:
  assumes "mset xs = mset ys" shows "mset (concat (map f xs)) = mset (concat (map f ys))"
proof -
  have "mset (concat (map f zs)) = \<Sum>\<^sub># (image_mset (\<lambda>z. mset (f z)) (mset zs))" for zs by (induction zs) auto
  then show ?thesis using assms by simp
qed

lemma call_for_perm: "mset ops' = mset ops \<Longrightarrow> call_for st ops' rs = call_for st ops rs"
proof -
  assume m: "mset ops' = mset ops"
  have "mset (op_reqs ops') = mset (op_reqs ops)"
    by (rule mset_concat_map_perm [OF m])
  then show ?thesis using mset_eq_setD [OF m] by (simp add: call_for_def)
qed

lemma make_ops_call:
  assumes o: "make_ops cfg E v gs cache = (ops, cache')" and g: "mset gs = mset (group_reqs st rs)"
    and v: "\<forall>r\<in>set rs. rq_vbucket (st r) = v"
  shows "call_for st ops rs \<and> (ops = [] \<longleftrightarrow> rs = [])"
proof -
  note G = group_reqs_ok [of st rs]
  have m: "map (\<lambda>(v', op, reqs). (v', go_key op, reqs)) ops = map (\<lambda>(k, reqs). (v, k, reqs)) gs" by (rule make_ops_ok [OF o])
  have "op_reqs ops = concat (map (\<lambda>(a, b, c). c) (map (\<lambda>(v', op, reqs). (v', go_key op, reqs)) ops))"
    by (rule arg_cong [of _ _ concat]) auto
  also have "\<dots> = concat (map snd gs)" unfolding m by (rule arg_cong [of _ _ concat]) auto
  finally have r: "mset (op_reqs ops) = mset (concat (map snd gs))" by simp
  also have "\<dots> = mset (concat (map snd (group_reqs st rs)))" by (rule mset_concat_map_perm [OF g])
  finally have mr: "mset (op_reqs ops) = mset rs" using G by simp
  have "rq_vbucket (st r) = w \<and> rq_key (st r) = go_key op" if i: "(w, op, reqs) \<in> set ops" and j: "r \<in> set reqs" for w op reqs r
  proof -
    have "(w, go_key op, reqs) \<in> set (map (\<lambda>(v', op, reqs). (v', go_key op, reqs)) ops)"
      unfolding set_map by (rule image_eqI [OF _ i]) simp
    then have "(w, go_key op, reqs) \<in> set (map (\<lambda>(k, reqs). (v, k, reqs)) gs)" unfolding m .
    then have "w = v" "(go_key op, reqs) \<in> set gs" by auto
    then have k: "w = v" "(go_key op, reqs) \<in> set (group_reqs st rs)" using mset_eq_setD [OF g] by simp_all
    have "r \<in> set (op_reqs ops)" using i j by auto
    then have "r \<in> set rs" unfolding mset_eq_setD [OF mr] .
    moreover have "rq_key (st r) = go_key op"
      using bspec [OF conjunct1 [OF conjunct2 [OF G]] k(2)] j by simp
    ultimately show ?thesis using v k(1) by simp
  qed
  then have "\<forall>(v, op, reqs)\<in>set ops. \<forall>r\<in>set reqs. rq_vbucket (st r) = v \<and> rq_key (st r) = go_key op" by blast
  moreover have "length ops = length (group_reqs st rs)"
    using arg_cong [OF m, of length] mset_eq_length [OF g] by simp
  then have "ops = [] \<longleftrightarrow> rs = []" using G by (cases ops; cases "group_reqs st rs") auto
  ultimately show ?thesis using mr unfolding call_for_def by blast
qed

lemma async_call_ok:
  assumes "queues_hold (rr_store S) (rr_queues S) W" and "0 < rc_maxBatch (rf_queue cfg)" and "\<And>v. length (W v) \<le> fuel"
  defines "n \<equiv> rc_maxBatch (rf_queue cfg)"
  shows "\<exists>S' ops. async_call fuel cfg E vs S = Some (length (served n vs W), ops, S') \<and> contents_eq (rr_store S) (rr_store S') \<and>
    queues_hold (rr_store S') (rr_queues S') (left_over n vs W) \<and> rr_accum S' = rr_accum S \<and> rr_out S' = rr_out S \<and>
    call_for (rr_store S) ops (served n vs W) \<and> (ops = [] \<longleftrightarrow> served n vs W = [])"
  using assms(1,3)
proof (induction vs arbitrary: S W)
  case Nil
  then show ?case by (simp add: call_for_def)
next
  case (Cons v vs)
  define W' where "W' = W(v := drop n (W v))"
  let ?b = "take n (W v)"
  obtain st R where t: "take_reads fuel cfg v S = Some (?b, S\<lparr>rr_store := st, rr_queues := R\<rparr>)" "contents_eq (rr_store S) st"
    "queues_hold st R W'"
    using take_reads_ok [OF Cons.prems(1) assms(2) Cons.prems(2)] unfolding n_def W'_def by blast
  have lw: "length (W' u) \<le> fuel" for u using Cons.prems(2) [of u] le_trans [OF diff_le_self Cons.prems(2) [of v]] by (simp add: W'_def)
  have vb: "\<forall>r\<in>set ?b. rq_vbucket (st r) = v"
    using Cons.prems(1) contents_eqD(3) [OF t(2)] by (auto simp: queues_hold_def dest: in_set_takeD)
  have sv: "served n (v # vs) W = ?b @ served n vs W'" "left_over n (v # vs) W = left_over n vs W'"
    by (simp_all add: W'_def del: fun_upd_apply)
  show ?case
  proof (cases "?b = []")
    case True
    let ?S = "S\<lparr>rr_store := st, rr_queues := R\<rparr>"
    obtain S' ops where I: "async_call fuel cfg E vs ?S = Some (length (served n vs W'), ops, S')" "contents_eq st (rr_store S')"
      "queues_hold (rr_store S') (rr_queues S') (left_over n vs W')" "rr_accum S' = rr_accum S" "rr_out S' = rr_out S"
      "call_for st ops (served n vs W')" "ops = [] \<longleftrightarrow> served n vs W' = []"
      using Cons.IH [of ?S W'] t(3) lw by auto
    have "async_call fuel cfg E (v # vs) S = Some (length (served n vs W'), ops, S')" using t(1) I(1) True by simp
    then show ?thesis
      unfolding sv True append_Nil call_for_contents [OF t(2), symmetric]
      using I(3-7) contents_eq_trans [OF t(2) I(2)] by blast
  next
    case False
    obtain o1 c1 where mk: "make_ops cfg E v (group_reqs st ?b) (rr_cache S) = (o1, c1)" by force
    have c: "call_for st o1 ?b" "o1 \<noteq> []" using make_ops_call [OF mk refl vb] False by auto
    let ?S = "release_reads cfg v (S\<lparr>rr_store := st, rr_queues := R, rr_cache := c1\<rparr>)"
    have "queues_hold (rr_store ?S) (rr_queues ?S) W'" using queues_hold_release [OF t(3)] by (simp add: release_reads_def)
    from Cons.IH [OF this lw] obtain S' ops where I: "async_call fuel cfg E vs ?S = Some (length (served n vs W'), ops, S')"
      "contents_eq st (rr_store S')" "queues_hold (rr_store S') (rr_queues S') (left_over n vs W')" "rr_accum S' = rr_accum S"
      "rr_out S' = rr_out S" "call_for st ops (served n vs W')"
      by (auto simp: release_reads_def)
    have "async_call fuel cfg E (v # vs) S = Some (length (?b @ served n vs W'), o1 @ ops, S')"
      using t(1) I(1) False mk by (simp add: Let_def del: fun_upd_apply)
    moreover have "(o1 @ ops = []) = (?b @ served n vs W' = [])" using c(2) False by simp
    ultimately show ?thesis
      unfolding sv call_for_contents [OF t(2), symmetric]
      using I(3-5) contents_eq_trans [OF t(2) I(2)] call_for_append [OF c(1) I(6)] by blast
  qed
qed

lemma multi_call_ok:
  assumes "queues_hold (rr_store S) (rr_queues S) W" and "0 < rc_maxBatch (rf_queue cfg)" and "\<And>v. length (W v) \<le> fuel"
  defines "n \<equiv> rc_maxBatch (rf_queue cfg)"
  shows "\<exists>S' ws ops. multi_call fuel cfg E vs S = Some (length (served n vs W), ws, ops, S') \<and>
    contents_eq (rr_store S) (rr_store S') \<and> queues_hold (rr_store S') (rr_queues S') (left_over n vs W) \<and>
    rr_accum S' = rr_accum S \<and> rr_out S' = rr_out S \<and> call_for (rr_store S) ops (served n vs W) \<and> (ws = [] \<longleftrightarrow> served n vs W = [])"
  using assms(1,3)
proof (induction vs arbitrary: S W)
  case Nil
  then show ?case by (simp add: call_for_def)
next
  case (Cons v vs)
  define W' where "W' = W(v := drop n (W v))"
  let ?b = "take n (W v)"
  obtain st R where t: "take_reads fuel cfg v S = Some (?b, S\<lparr>rr_store := st, rr_queues := R\<rparr>)" "contents_eq (rr_store S) st"
    "queues_hold st R W'"
    using take_reads_ok [OF Cons.prems(1) assms(2) Cons.prems(2)] unfolding n_def W'_def by blast
  have lw: "length (W' u) \<le> fuel" for u using Cons.prems(2) [of u] le_trans [OF diff_le_self Cons.prems(2) [of v]] by (simp add: W'_def)
  have vb: "\<forall>r\<in>set ?b. rq_vbucket (st r) = v"
    using Cons.prems(1) contents_eqD(3) [OF t(2)] by (auto simp: queues_hold_def dest: in_set_takeD)
  have sv: "served n (v # vs) W = ?b @ served n vs W'" "left_over n (v # vs) W = left_over n vs W'"
    by (simp_all add: W'_def del: fun_upd_apply)
  obtain o1 c1 where mk: "make_ops cfg E v (group_reqs st ?b) (rr_cache S) = (o1, c1)" by force
  have c: "call_for st o1 ?b" using make_ops_call [OF mk refl vb] by blast
  let ?S = "S\<lparr>rr_store := st, rr_queues := R, rr_cache := (if ?b = [] then rr_cache S else c1)\<rparr>"
  obtain S' ws ops where I: "multi_call fuel cfg E vs ?S = Some (length (served n vs W'), ws, ops, S')" "contents_eq st (rr_store S')"
    "queues_hold (rr_store S') (rr_queues S') (left_over n vs W')" "rr_accum S' = rr_accum S" "rr_out S' = rr_out S"
    "call_for st ops (served n vs W')" "ws = [] \<longleftrightarrow> served n vs W' = []"
    using Cons.IH [of ?S W'] t(3) lw by auto
  have "multi_call fuel cfg E (v # vs) S =
      Some (length (?b @ served n vs W'), if ?b = [] then ws else v # ws, if ?b = [] then ops else o1 @ ops, S')"
    using t(1) I(1) mk by (cases "?b = []") (auto simp: Let_def simp del: fun_upd_apply)
  moreover have "call_for st (if ?b = [] then ops else o1 @ ops) (?b @ served n vs W')"
    using I(6) call_for_append [OF c I(6)] by (cases "?b = []") auto
  moreover have "((if ?b = [] then ws else v # ws) = []) = (?b @ served n vs W' = [])"
    using I(7) by (cases "?b = []") auto
  ultimately show ?case
    unfolding sv call_for_contents [OF t(2), symmetric] using I(3-5) contents_eq_trans [OF t(2) I(2)] by blast
qed

subsection \<open>Answers\<close>

text \<open>What is relied on of the hash map and the storage engine: iterating a map visits each group once,
  a call completes each operation once, and the hints of an operation change how fast it is
  answered, not the answer.\<close>

definition read_env_ok :: "('m, 'mg) ReadEnv \<Rightarrow> bool" where
  "read_env_ok E \<longleftrightarrow> (\<forall>gs. mset (re_iter E gs) = mset gs) \<and> (\<forall>ops. mset (re_done E ops) = mset ops) \<and>
     (\<forall>v op. (case GetOp_doc (re_magma E) (re_state E) v op of (s, meta, val, _) \<Rightarrow> (s, meta, val)) =
        Get_doc (re_magma E) (re_state E) v (go_key op))"

lemma op_result_get:
  assumes "read_env_ok E" shows "op_result E v op = get_result E v (go_key op)"
proof -
  obtain s meta val p where g: "GetOp_doc (re_magma E) (re_state E) v op = (s, meta, val, p)" by (metis surj_pair)
  have "(case GetOp_doc (re_magma E) (re_state E) v op of (s, meta, val, _) \<Rightarrow> (s, meta, val)) =
      Get_doc (re_magma E) (re_state E) v (go_key op)"
    using assms unfolding read_env_ok_def by blast
  then have "Get_doc (re_magma E) (re_state E) v (go_key op) = (s, meta, val)" using g by simp
  then show ?thesis using g by (simp add: op_result_def get_result_def)
qed

text \<open>The answer a plain lookup would give a request.\<close>

definition due :: "('m, 'mg) ReadEnv \<Rightarrow> store \<Rightarrow> rid \<Rightarrow> Request \<Rightarrow> Request" where
  "due E st r = get_result E (rq_vbucket (st r)) (rq_key (st r))"

lemma call_due:
  assumes "read_env_ok E" and "call_for st ops rs" and "distinct rs"
  shows "reads_done S (foldl (OnDoc cfg E) S ops) (op_reqs ops) (due E st)"
proof (rule OnDocs_ok)
  show "distinct (op_reqs ops)"
    using mset_eq_imp_distinct_iff [of "op_reqs ops" rs] assms(2,3) unfolding call_for_def by blast
  show "op_result E v op = due E st r" if i: "(v, op, reqs) \<in> set ops" and j: "r \<in> set reqs" for v op reqs r
  proof -
    have "\<forall>r\<in>set reqs. rq_vbucket (st r) = v \<and> rq_key (st r) = go_key op"
      using assms(2) i unfolding call_for_def by blast
    then show ?thesis using j op_result_get [OF assms(1)] by (simp add: due_def)
  qed
qed

lemma reads_done_perm:
  assumes "reads_done S S' rs f" and "mset rs = mset rs'" shows "reads_done S S' rs' f"
  using assms mset_eq_setD [OF assms(2)] by (simp add: reads_done_def)

lemma run_ops_due:
  assumes "read_env_ok E" and "call_for (rr_store S) ops rs" and "distinct rs" and "routes_ok S"
  shows "reads_done S (run_ops cfg E ops S) rs (due E (rr_store S)) \<and> held (rr_accum (run_ops cfg E ops S)) = []"
proof -
  have m: "mset (re_done E ops) = mset ops" using assms(1) by (simp add: read_env_ok_def)
  have c: "call_for (rr_store S) (re_done E ops) rs" using assms(2) unfolding call_for_perm [OF m] .
  have "reads_done S (foldl (OnDoc cfg E) S (re_done E ops)) rs (due E (rr_store S))"
    by (rule reads_done_perm [OF call_due [OF assms(1) c assms(3)]]) (use c in \<open>simp add: call_for_def\<close>)
  from reads_done_flush [OF this assms(4)] show ?thesis by (simp add: run_ops_def)
qed

lemma run_jobs_due:
  assumes "read_env_ok E" and "call_for st (concat jobs) rs" and "distinct rs" and "routes_ok S" and "held (rr_accum S) = []"
  shows "reads_done S (foldl (run_job cfg E) S jobs) rs (due E st) \<and> held (rr_accum (foldl (run_job cfg E) S jobs)) = []"
proof -
  have d: "distinct (op_reqs (concat jobs))"
    using mset_eq_imp_distinct_iff [of "op_reqs (concat jobs)" rs] assms(2,3) unfolding call_for_def by blast
  have "reads_done S (foldl (run_job cfg E) S jobs) (op_reqs (concat jobs)) (due E st) \<and> held (rr_accum (foldl (run_job cfg E) S jobs)) = []"
    using d assms(2,4,5) unfolding call_for_def
  proof (induction jobs arbitrary: S rs)
    case Nil
    then show ?case by (simp add: reads_done_def)
  next
    case (Cons job jobs)
    have o: "op_reqs (concat (job # jobs)) = op_reqs job @ op_reqs (concat jobs)" by simp
    have ks: "\<forall>(v, op, reqs)\<in>set (concat (job # jobs)). \<forall>r\<in>set reqs. rq_vbucket (st r) = v \<and> rq_key (st r) = go_key op"
      using Cons.prems(2) by blast
    have "call_for st job (op_reqs job)" unfolding call_for_def using ks by simp
    then have j: "reads_done S (run_job cfg E S job) (op_reqs job) (due E st)" "held (rr_accum (run_job cfg E S job)) = []"
      using reads_done_flush [OF call_due [OF assms(1)] Cons.prems(3), of st job "op_reqs job" cfg] Cons.prems(1) o
      by (simp_all add: run_job_def)
    then have r: "routes_ok (run_job cfg E S job)" using Cons.prems(3) by (simp add: reads_done_def)
    have I: "reads_done (run_job cfg E S job) (foldl (run_job cfg E) (run_job cfg E S job) jobs) (op_reqs (concat jobs)) (due E st)"
      "held (rr_accum (foldl (run_job cfg E) (run_job cfg E S job) jobs)) = []"
      using Cons.IH [of "op_reqs (concat jobs)" "run_job cfg E S job"] Cons.prems(1) o ks r j(2) by simp_all
    have "set (op_reqs job) \<inter> set (op_reqs (concat jobs)) = {}" using Cons.prems(1) o by (metis distinct_append)
    from reads_done_trans [OF j(1) I(1) this] show ?case unfolding o using I(2) by simp
  qed
  then show ?thesis using reads_done_perm [of S _ "op_reqs (concat jobs)" "due E st" rs] assms(2) unfolding call_for_def by blast
qed

lemma fail_call_ok:
  assumes "call_for st ops rs" and "distinct rs" and "routes_ok S"
  shows "reads_done S (fail_call cfg E s ops S) rs (\<lambda>_. set_result s [] []) \<and> held (rr_accum (fail_call cfg E s ops S)) = []"
proof -
  have d: "distinct (op_reqs ops)"
    using mset_eq_imp_distinct_iff [of "op_reqs ops" rs] assms(1,2) unfolding call_for_def by blast
  have "reads_done S (foldl (\<lambda>S (v, op, reqs). completeGets cfg E v reqs s [] [] S) S ops) (op_reqs ops) (\<lambda>_. set_result s [] [])"
    using d
  proof (induction ops arbitrary: S)
    case Nil
    then show ?case by (simp add: reads_done_def)
  next
    case (Cons kr ops)
    obtain v op reqs where kr: "kr = (v, op, reqs)" by (metis surj_pair)
    let ?S = "completeGets cfg E v reqs s [] [] S"
    have "distinct reqs" "distinct (op_reqs ops)" "set reqs \<inter> set (op_reqs ops) = {}" using Cons.prems kr by auto
    from reads_done_trans [OF completeGets_ok [OF this(1)] Cons.IH [OF this(2)] this(3)] show ?case by (simp add: kr)
  qed
  then have "reads_done S (foldl (\<lambda>S (v, op, reqs). completeGets cfg E v reqs s [] [] S) S ops) rs (\<lambda>_. set_result s [] [])"
    by (rule reads_done_perm) (use assms(1) in \<open>simp add: call_for_def\<close>)
  from reads_done_flush [OF this assms(3)] show ?thesis by (simp add: fail_call_def)
qed

text \<open>Every request of \<open>rs\<close> got exactly one response, on its own loop or connection, with the result
  \<open>f\<close> gives it.\<close>

definition all_answered :: "'m Reader \<Rightarrow> 'm Reader \<Rightarrow> rid list \<Rightarrow> (rid \<Rightarrow> Request \<Rightarrow> Request) \<Rightarrow> bool" where
  "all_answered S S' rs f \<longleftrightarrow>
     mset (concat (map send_reqs (rr_out S'))) = mset rs + mset (concat (map send_reqs (rr_out S))) \<and>
     sends_ok (rr_store S') (rr_out S') \<and>
     (\<forall>r\<in>set rs. (rr_store S' r)\<lparr>rq_next := None\<rparr> = f r ((rr_store S r)\<lparr>rq_next := None\<rparr>))"

lemma set_result_next: "(set_result s m x q)\<lparr>rq_next := y\<rparr> = set_result s m x (q\<lparr>rq_next := y\<rparr>)"
  by (simp add: set_result_def Let_def)

lemma get_result_next: "(get_result E v k q)\<lparr>rq_next := y\<rparr> = get_result E v k (q\<lparr>rq_next := y\<rparr>)"
  by (simp add: get_result_def set_result_next split: prod.splits)

lemma contents_eq_fields:
  assumes "contents_eq st st'"
  shows "rq_conn (st' r) = rq_conn (st r)" "rq_evb (st' r) = rq_evb (st r)"
    "(st' r)\<lparr>rq_next := None\<rparr> = (st r)\<lparr>rq_next := None\<rparr>"
proof -
  show e: "(st' r)\<lparr>rq_next := None\<rparr> = (st r)\<lparr>rq_next := None\<rparr>" using assms by (simp add: contents_eq_def)
  show "rq_conn (st' r) = rq_conn (st r)" using arg_cong [OF e, of rq_conn] by simp
  show "rq_evb (st' r) = rq_evb (st r)" using arg_cong [OF e, of rq_evb] by simp
qed

lemma routes_ok_contents:
  assumes "contents_eq (rr_store S) (rr_store S1)" and "rr_accum S1 = rr_accum S" and "rr_out S1 = rr_out S" and "routes_ok S"
  shows "routes_ok S1"
proof -
  have f: "accum_ok (rr_store S1) A = accum_ok (rr_store S) A" "sends_ok (rr_store S1) out = sends_ok (rr_store S) out" for A out
    by (rule routes_frame; rule contents_eq_fields [OF assms(1)])+
  show ?thesis using assms(4) unfolding routes_ok_def assms(2,3) f .
qed

lemma all_answeredI:
  assumes c: "contents_eq (rr_store S) (rr_store S1)" and a: "rr_accum S1 = rr_accum S" "rr_out S1 = rr_out S"
    and r: "routes_ok S" and h: "held (rr_accum S) = []"
    and d: "reads_done S1 S2 rs f" and h2: "held (rr_accum S2) = []" and o: "rr_out S3 = rr_out S2" "rr_store S3 = rr_store S2"
    and f: "\<And>r q. r \<in> set rs \<Longrightarrow> (f r q)\<lparr>rq_next := None\<rparr> = g r (q\<lparr>rq_next := None\<rparr>)"
  shows "all_answered S S3 rs g"
proof -
  have "routes_ok S2" using routes_ok_contents [OF c a r] d by (simp add: reads_done_def)
  moreover have "sent S2 = mset rs + sent S1" using d by (simp add: reads_done_def)
  moreover have "rr_store S2 r = f r (rr_store S1 r)" if "r \<in> set rs" for r using d that by (simp add: reads_done_def)
  ultimately show ?thesis
    using h h2 f contents_eq_fields(3) [OF c] by (simp add: all_answered_def sent_def a o routes_ok_def)
qed

lemma single_result:
  "is_hit s \<Longrightarrow> (let q' = q\<lparr>rq_status := s, rq_resFlags := m_flags (decode_or_zero meta),
       rq_seqno := m_seqno (decode_or_zero meta), rq_resDatatype := m_datatype (decode_or_zero meta)\<rparr>
     in if val \<noteq> [] then q'\<lparr>rq_response := val\<rparr> else q') = set_result s meta val q"
  "\<not> is_hit s \<Longrightarrow> q\<lparr>rq_status := (if IsOkDocNotFound s then key_not_found else s)\<rparr> = set_result s meta val q"
  by (cases q; simp add: set_result_def Let_def)+

lemma read_single_done:
  "reads_done S (read_single E v r S) [r] (\<lambda>_. get_result E v (rq_key (rr_store S r))) \<and>
   rr_accum (read_single E v r S) = rr_accum S"
proof -
  obtain s meta val where g: "Get_doc (re_magma E) (re_state E) v (rq_key (rr_store S r)) = (s, meta, val)" by (metis surj_pair)
  let ?st = "set_req (rr_store S) r (set_result s meta val)"
  have st: "rr_store (read_single E v r S) = ?st" "rr_accum (read_single E v r S) = rr_accum S"
    "rr_queues (read_single E v r S) = rr_queues S" "rr_out (read_single E v r S) = rr_out S @ [Post (rq_evb (rr_store S r)) [r]]"
    using single_result [where s = s and meta = meta and val = val] by (cases "is_hit s"; simp add: read_single_def g Let_def set_req_def)+
  have f: "accum_ok ?st B = accum_ok (rr_store S) B" "sends_ok ?st o' = sends_ok (rr_store S) o'" for B o'
    by (rule routes_frame; simp add: set_req_def)+
  have "routes_ok (read_single E v r S)" if "routes_ok S"
    using that unfolding routes_ok_def st f by (simp add: sends_ok_def)
  then show ?thesis
    unfolding reads_done_def st sent_def by (auto simp: set_req_def get_result_def g)
qed

lemma due_contents: "contents_eq st st' \<Longrightarrow> due E st' = due E st"
  by (simp add: due_def fun_eq_iff contents_eqD)

lemma due_next: "(due E st r q)\<lparr>rq_next := None\<rparr> = due E st r (q\<lparr>rq_next := None\<rparr>)"
  by (simp add: due_def get_result_next)

lemma release_reads_simps [simp]:
  "rr_store (release_reads cfg v S) = rr_store S" "rr_out (release_reads cfg v S) = rr_out S"
  by (simp_all add: release_reads_def)

lemma release_all_simps [simp]:
  "rr_store (foldl (\<lambda>S v. release_reads cfg v S) S ws) = rr_store S" "rr_out (foldl (\<lambda>S v. release_reads cfg v S) S ws) = rr_out S"
  by (induction ws arbitrary: S) simp_all

lemma sync_reads_answered:
  assumes E: "read_env_ok E" and Q: "queues_hold (rr_store S) (rr_queues S) W" and n: "0 < rc_maxBatch (rf_queue cfg)"
    and f: "\<And>v. length (W v) \<le> fuel" and r: "routes_ok S" and h: "held (rr_accum S) = []" and na: "\<not> rf_asyncReads cfg"
  shows "\<exists>S'. executeReadMulti fuel cfg E as vs S = Some (length (served (rc_maxBatch (rf_queue cfg)) vs W), [], S') \<and>
    all_answered S S' (served (rc_maxBatch (rf_queue cfg)) vs W) (due E (rr_store S))"
proof -
  let ?sv = "served (rc_maxBatch (rf_queue cfg)) vs W"
  obtain S1 ws ops where m: "multi_call fuel cfg E vs S = Some (length ?sv, ws, ops, S1)" "contents_eq (rr_store S) (rr_store S1)"
    "rr_accum S1 = rr_accum S" "rr_out S1 = rr_out S" "call_for (rr_store S) ops ?sv" "ws = [] \<longleftrightarrow> ?sv = []"
    using multi_call_ok [OF Q n f, of E vs] by blast
  have r1: "routes_ok S1" by (rule routes_ok_contents [OF m(2-4) r])
  have c: "call_for (rr_store S1) ops ?sv" using m(5) unfolding call_for_contents [OF m(2)] .
  define S2 where "S2 = (if ws = [] then S1 else run_ops cfg E ops S1)"
  have d: "reads_done S1 S2 ?sv (due E (rr_store S))" "held (rr_accum S2) = []"
  proof -
    show "reads_done S1 S2 ?sv (due E (rr_store S))"
      using run_ops_due [OF E c queues_hold_served [OF Q] r1, of cfg] m(6) due_contents [OF m(2), of E]
      by (cases "ws = []") (simp_all add: S2_def reads_done_def)
    show "held (rr_accum S2) = []"
      using run_ops_due [OF E c queues_hold_served [OF Q] r1, of cfg] m(3) h by (simp add: S2_def)
  qed
  let ?S3 = "foldl (\<lambda>S v. release_reads cfg v S) S2 ws"
  have "all_answered S ?S3 ?sv (due E (rr_store S))"
    by (rule all_answeredI [OF m(2-4) r h d]) (simp_all add: due_next)
  moreover have "executeReadMulti fuel cfg E as vs S = Some (length ?sv, [], ?S3)"
    using na m(1) by (simp add: executeReadMulti_def S2_def Let_def)
  ultimately show ?thesis by blast
qed

lemma one_read_answered:
  assumes E: "read_env_ok E" and Q: "queues_hold (rr_store S) (rr_queues S) W" and n: "0 < rc_maxBatch (rf_queue cfg)"
    and f: "\<And>v. length (W v) \<le> fuel" and r: "routes_ok S" and h: "held (rr_accum S) = []" and na: "\<not> rf_asyncReads cfg"
  shows "\<exists>S'. executeRead fuel cfg E as v S = Some (length (take (rc_maxBatch (rf_queue cfg)) (W v)), [], S') \<and>
    all_answered S S' (take (rc_maxBatch (rf_queue cfg)) (W v)) (due E (rr_store S))"
proof -
  define b where "b = take (rc_maxBatch (rf_queue cfg)) (W v)"
  obtain st R where t: "take_reads fuel cfg v S = Some (b, S\<lparr>rr_store := st, rr_queues := R\<rparr>)" "contents_eq (rr_store S) st"
    using take_reads_ok [OF Q n f] unfolding b_def by blast
  let ?S1 = "S\<lparr>rr_store := st, rr_queues := R\<rparr>"
  have db: "distinct b" using Q waiting_distinct unfolding queues_hold_def b_def by (metis distinct_take)
  have vb: "\<forall>r\<in>set b. rq_vbucket (st r) = v"
    using Q contents_eqD(3) [OF t(2)] by (auto simp: queues_hold_def b_def dest: in_set_takeD)
  obtain ops cache where mk: "make_ops cfg E v (re_iter E (group_reqs st b)) (rr_cache S) = (ops, cache)" by force
  have c: "call_for st ops b" using make_ops_call [OF mk _ vb] E by (simp add: read_env_ok_def)
  define S2 where "S2 = (if b = [] then ?S1 else if length b = 1 \<and> \<not> rf_seqnoIndex cfg then read_single E v (hd b) ?S1
    else run_ops cfg E ops (?S1\<lparr>rr_cache := cache\<rparr>))"
  let ?S3 = "if b = [] then S2 else release_reads cfg v S2"
  have x: "executeRead fuel cfg E as v S = Some (length b, [], ?S3)"
    using na t(1) mk by (auto simp: executeRead_def S2_def Let_def)
  have S1: "contents_eq (rr_store S) (rr_store (?S1\<lparr>rr_cache := k\<rparr>))" "rr_accum (?S1\<lparr>rr_cache := k\<rparr>) = rr_accum S"
    "rr_out (?S1\<lparr>rr_cache := k\<rparr>) = rr_out S" for k using t(2) by simp_all
  have r1: "routes_ok (?S1\<lparr>rr_cache := k\<rparr>)" for k by (rule routes_ok_contents [OF S1 r])
  have du: "due E st = due E (rr_store S)" by (rule due_contents [OF t(2)])
  consider (none) "b = []" | (one) a where "b = [a]" "\<not> rf_seqnoIndex cfg" | (many) "b \<noteq> []" "\<not> (length b = 1 \<and> \<not> rf_seqnoIndex cfg)"
    by (cases "b = []"; cases "length b = 1 \<and> \<not> rf_seqnoIndex cfg") (auto simp: length_Suc_conv)
  then have "all_answered S ?S3 b (due E (rr_store S))"
  proof cases
    case none
    show ?thesis
      by (rule all_answeredI [of S ?S1, OF _ _ _ r h, where f = "due E (rr_store S)" and ?S2.0 = S2])
        (use none h t(2) in \<open>simp_all add: S2_def reads_done_def due_next\<close>)
  next
    case (one a)
    have d: "reads_done ?S1 S2 b (\<lambda>_. get_result E v (rq_key (st a)))" "rr_accum S2 = rr_accum S"
      using read_single_done [of ?S1 E v a] one by (simp_all add: S2_def)
    have g: "get_result E v (rq_key (st a)) = due E (rr_store S) a"
      using vb one(1) contents_eqD(1,3) [OF t(2)] by (simp add: due_def)
    show ?thesis
      by (rule all_answeredI [of S ?S1, OF _ _ _ r h d(1)]) (use t(2) one d(2) h g in \<open>simp_all add: due_next\<close>)
  next
    case many
    have d: "reads_done (?S1\<lparr>rr_cache := cache\<rparr>) S2 b (due E st)" "held (rr_accum S2) = []"
      using run_ops_due [OF E _ db r1, of cache ops cfg] c many by (auto simp: S2_def)
    show ?thesis
      by (rule all_answeredI [OF S1 r h d(1) [unfolded du] d(2)]) (use many in \<open>simp_all add: due_next\<close>)
  qed
  then show ?thesis using x unfolding b_def by blast
qed

text \<open>C8. Batching changes nothing in the answers: a reader that takes the next batch of one vbucket, or
  the next batches of several at once, merges requests for the same key and reads with hints, gives
  every request it took exactly one response, on the request's own loop or connection, and the
  response carries exactly what a plain lookup of that request alone would have returned.\<close>

theorem batched_reads_equal_gets:
  assumes "read_env_ok E" and "queues_hold (rr_store S) (rr_queues S) W" and "0 < rc_maxBatch (rf_queue cfg)"
    and "\<And>v. length (W v) \<le> fuel" and "routes_ok S" and "held (rr_accum S) = []" and "\<not> rf_asyncReads cfg"
  defines "n \<equiv> rc_maxBatch (rf_queue cfg)"
  shows "(\<exists>S'. executeRead fuel cfg E as v S = Some (length (take n (W v)), [], S') \<and>
      all_answered S S' (take n (W v)) (due E (rr_store S))) \<and>
    (\<exists>S'. executeReadMulti fuel cfg E as vs S = Some (length (served n vs W), [], S') \<and>
      all_answered S S' (served n vs W) (due E (rr_store S)))"
  using one_read_answered [OF assms(1-7)] sync_reads_answered [OF assms(1-7)] unfolding n_def by simp

lemma issue_retries:
  "issue cfg E (replicate k RetryLater @ as) ops S = issue cfg E as ops S"
  by (induction k) simp_all

text \<open>C37. Asynchronous reads: however often the engine asks to retry, once it accepts the call its jobs
  answer every request taken exactly once with what a plain lookup would return, however the call is
  divided into jobs, and if it refuses the call every request is answered exactly once with the
  engine's failure.\<close>

theorem async_reads_answered:
  fixes vs :: "u16 list"
  assumes "read_env_ok E" and "queues_hold (rr_store S) (rr_queues S) W" and "0 < rc_maxBatch (rf_queue cfg)"
    and "\<And>v. length (W v) \<le> fuel" and "routes_ok S" and "held (rr_accum S) = []" and "rf_asyncReads cfg"
  defines "sv \<equiv> served (rc_maxBatch (rf_queue cfg)) vs W"
  shows "(\<exists>c S'. executeReadMulti fuel cfg E (replicate k RetryLater @ [Accepted]) vs S = Some (length sv, c, S') \<and>
      (\<forall>jobs. mset (concat jobs) = mset c \<longrightarrow> all_answered S (foldl (run_job cfg E) S' jobs) sv (due E (rr_store S)))) \<and>
    (\<exists>S'. executeReadMulti fuel cfg E (replicate k RetryLater @ [Refused s]) vs S = Some (length sv, [], S') \<and>
      all_answered S S' sv (\<lambda>_. set_result s [] []))"
proof -
  obtain S1 ops where a: "async_call fuel cfg E vs S = Some (length sv, ops, S1)" "contents_eq (rr_store S) (rr_store S1)"
    "rr_accum S1 = rr_accum S" "rr_out S1 = rr_out S" "call_for (rr_store S) ops sv" "ops = [] \<longleftrightarrow> sv = []"
    using async_call_ok [OF assms(2-4), of E vs] unfolding sv_def by blast
  have r1: "routes_ok S1" by (rule routes_ok_contents [OF a(2-4) assms(5)])
  have h1: "held (rr_accum S1) = []" using a(3) assms(6) by simp
  have d: "distinct sv" unfolding sv_def by (rule queues_hold_served [OF assms(2)])
  have e: "executeReadMulti fuel cfg E as vs S =
      (if ops = [] then Some (length sv, [], S1) else map_option (\<lambda>(c, S). (length sv, c, S)) (issue cfg E as ops S1))" for as
    using assms(7) a(1) by (simp add: executeReadMulti_def submitReadsAsync_def)
  have "all_answered S (foldl (run_job cfg E) S1 jobs) sv (due E (rr_store S))" if "mset (concat jobs) = mset ops" for jobs
  proof -
    have c: "call_for (rr_store S) (concat jobs) sv" using a(5) unfolding call_for_perm [OF that] .
    show ?thesis
      by (rule all_answeredI [OF a(2-4) assms(5,6) run_jobs_due [OF assms(1) c d r1 h1, THEN conjunct1]
          run_jobs_due [OF assms(1) c d r1 h1, THEN conjunct2]]) (simp_all add: due_next)
  qed
  moreover have "executeReadMulti fuel cfg E (replicate k RetryLater @ [Accepted]) vs S = Some (length sv, ops, S1)"
    unfolding e issue_retries by simp
  moreover have "all_answered S (if ops = [] then S1 else fail_call cfg E s ops S1) sv (\<lambda>_. set_result s [] [])"
  proof (cases "ops = []")
    case True
    then have "sv = []" using a(6) by simp
    then show ?thesis
      using True r1 a(4) by (simp add: all_answered_def routes_ok_def)
  next
    case False
    show ?thesis
      by (rule all_answeredI [OF a(2-4) assms(5,6) fail_call_ok [OF a(5) d r1, THEN conjunct1] fail_call_ok [OF a(5) d r1, THEN conjunct2]])
        (use False in \<open>simp_all add: set_result_next\<close>)
  qed
  moreover have "executeReadMulti fuel cfg E (replicate k RetryLater @ [Refused s]) vs S =
      Some (length sv, [], if ops = [] then S1 else fail_call cfg E s ops S1)"
    unfolding e issue_retries by simp
  ultimately show ?thesis by blast
qed

text \<open>An engine that holds one document, under the key \<open>[1]\<close>, and two requests waiting in vbucket 7.\<close>

definition sample_env :: "((u64, SeqEntry) alist, unit) ReadEnv" where
  "sample_env = \<lparr>re_f14 = alist_f14, re_hash = (\<lambda>_ _. 0), re_alloc = (\<lambda>r. r),
     re_magma = \<lparr>Get_doc = (\<lambda>_ v k. if k = [1] then (status_ok, encode zero_meta, [42]) else (key_not_found, [], [])),
       GetOp_doc = (\<lambda>_ v op. if go_key op = [1] then (status_ok, encode zero_meta, [42], 0) else (key_not_found, [], [], 0))\<rparr>,
     re_state = (), re_iter = rev, re_done = rev\<rparr>"

definition sample_reads :: "(u64, SeqEntry) alist Reader" where
  "sample_reads = \<lparr>rr_store = (\<lambda>r. new_request\<lparr>rq_vbucket := 7, rq_key := [of_nat r], rq_evb := Some 3, rq_next := (if r = 2 then Some 1 else None)\<rparr>),
     rr_queues = \<lparr>rd_vbs = (\<lambda>v. if v = 7 then empty_read_queue\<lparr>rd_list := Some 2, rd_owners := 1, rd_depth := 2\<rparr> else empty_read_queue),
       rd_tasks = []\<rparr>, rr_cache = None, rr_accum = \<lparr>da_direct = [], da_groups = []\<rparr>, rr_out = []\<rparr>"

definition sample_cfg :: "bool \<Rightarrow> ReaderCfg" where
  "sample_cfg a = \<lparr>rf_queue = \<lparr>rc_maxBatch = 8, rc_maxOwners = 1\<rparr>, rf_seqnoIndex = False, rf_valuePtr = False,
     rf_directSend = False, rf_dispatchBatch = 4, rf_asyncReads = a\<rparr>"

lemma sample_reads_ok:
  "read_env_ok sample_env" "routes_ok sample_reads" "held (rr_accum sample_reads) = []"
  "queues_hold (rr_store sample_reads) (rr_queues sample_reads) (\<lambda>v. if v = 7 then [1, 2] else [])"
proof -
  show "read_env_ok sample_env" by (auto simp: read_env_ok_def sample_env_def)
  show "routes_ok sample_reads" "held (rr_accum sample_reads) = []"
    by (simp_all add: routes_ok_def sample_reads_def accum_ok_def sends_ok_def held_def)
  have "rq_holds (rr_store sample_reads) (rd_vbs (rr_queues sample_reads) v) [] (if v = 7 then [1, 2] else [])" for v
    by (simp add: rq_holds_def sample_reads_def empty_read_queue_def)
  then have "waiting (rr_store sample_reads) (rd_vbs (rr_queues sample_reads) v) (if v = 7 then [1, 2] else [])" for v
    unfolding waiting_def by (intro exI [of _ "[]"] exI [of _ "if v = 7 then [1, 2] else []"]) simp
  then show "queues_hold (rr_store sample_reads) (rr_queues sample_reads) (\<lambda>v. if v = 7 then [1, 2] else [])"
    by (auto simp: queues_hold_def) (auto simp: sample_reads_def)
qed

theorem batched_reads_equal_gets_witness:
  "\<exists>S'. executeRead 2 (sample_cfg False) sample_env [] 7 sample_reads = Some (2, [], S') \<and>
    all_answered sample_reads S' [1, 2] (due sample_env (rr_store sample_reads))"
  using batched_reads_equal_gets [OF sample_reads_ok(1,4), of "sample_cfg False" 2 "[]" 7] sample_reads_ok(2,3)
  by (auto simp: sample_cfg_def numeral_2_eq_2)

theorem async_reads_answered_witness:
  "\<exists>S'. executeReadMulti 2 (sample_cfg True) sample_env [RetryLater, Refused key_not_found] [7] sample_reads = Some (2, [], S') \<and>
    all_answered sample_reads S' [1, 2] (\<lambda>_. set_result key_not_found [] [])"
  using async_reads_answered [OF sample_reads_ok(1,4), where cfg = "sample_cfg True" and fuel = 2 and vs = "[7]" and k = 1 and s = key_not_found] sample_reads_ok(2,3)
  by (auto simp: sample_cfg_def numeral_2_eq_2)

end
