(* ===== verification/Conn_Send.thy ===== *)
theory Conn_Send
  imports Request_Queues "HOL-Library.Multiset"
begin

text \<open>
  How a connection sends (\<^verbatim>\<open>server/connection.cc\<close> and \<^verbatim>\<open>connection.h\<close>: the coalesced response
  buffer and its flushes, the buffers handed to the socket, the responses readers write themselves
  with \<^verbatim>\<open>--direct-send\<close>, the spill of a short write, closing, and the release of requests).
  Every operation here runs with the send lock held or on the connection's loop, so it is one step;
  the threads that compete for the lock are in the theory of the send hand-over. What the socket
  library and the kernel answer is an argument: whether a write handed to the library completes
  inside the call, how much of a direct send the kernel takes, whether a lock attempt succeeds, what
  other senders leave while the lock is held. The counters of the loops (a connection's reservation,
  its place in the loop's list) are in the theory of the loops.
\<close>

subsection \<open>State\<close>

text \<open>Closures posted to a loop.\<close>

datatype post = FinishSpilled "rid list" | DropCount int | DeleteConn

text \<open>\<open>cn_wire\<close> is what the socket library and the kernel have sent, \<open>cn_unsent\<close> what is left of each
  write the library has not completed. Buffers kept for reuse are only counted, and the two lock-free
  chains of requests are lists, head first.\<close>

record Connection =
  cn_store :: store
  cn_closing :: bool
  cn_deleted :: bool
  cn_migrating :: bool
  cn_checkPending :: bool
  cn_migrateCb :: bool
  cn_drainWatch :: bool
  cn_readCB :: bool
  cn_readPaused :: bool
  cn_stageFull :: bool
  cn_resumeTimer :: bool
  cn_flushScheduled :: bool
  cn_flushTimer :: bool
  cn_flushCb :: bool
  cn_evb :: "nat option"
  cn_owner :: "nat option"
  cn_outstanding :: int
  cn_sendClosed :: bool
  cn_spillPosted :: bool
  cn_spill :: bytes
  cn_follyWrites :: int
  cn_returned :: "rid list"
  cn_sendPending :: "rid list"
  cn_pending :: bytes
  cn_inflight :: "bytes list"
  cn_spare :: nat
  cn_reqPool :: "rid list"
  cn_holds :: "nat \<Rightarrow> int"
  cn_posts :: "(nat option \<times> post) list"
  cn_wire :: bytes
  cn_unsent :: "bytes list"

record SendCfg =
  sc_directSend :: bool
  sc_flushDelayUs :: int
  sc_flushBytes :: nat

text \<open>The answers of the environment to one operation: what \<open>sendmsg\<close> returns, how a write handed to the
  library goes, which lock attempts succeed and what other senders have left at each look.\<close>

datatype send_res = SentBytes nat | WouldBlock | Broken

datatype write_res = Later | Now | Fails

record SendEnv =
  se_sendmsg :: "send_res list"
  se_spillWrite :: write_res
  se_pendingWrite :: write_res
  se_locks :: bool
  se_relocks :: bool
  se_arrivals :: "rid list list"
  se_releaseLocks :: "nat \<Rightarrow> bool"

definition kMaxPooledReqs :: nat where "kMaxPooledReqs = 256"

definition kMaxPerSend :: nat where "kMaxPerSend = 256"

subsection \<open>Requests that are done\<close>

definition releaseRequest :: "rid \<Rightarrow> Connection \<Rightarrow> Connection" where
  "releaseRequest r c =
     (if length (cn_reqPool c) < kMaxPooledReqs
      then c\<lparr>cn_store := set_req (cn_store c) r req_reset, cn_reqPool := cn_reqPool c @ [r]\<rparr> else c)"

definition scheduleMigrateCheck :: "Connection \<Rightarrow> Connection" where
  "scheduleMigrateCheck c =
     (if cn_checkPending c \<or> \<not> cn_migrating c \<or> cn_evb c = None then c
      else c\<lparr>cn_checkPending := True, cn_migrateCb := True\<rparr>)"

definition onDrained :: "Connection \<Rightarrow> Connection" where
  "onDrained c =
     (if cn_closing c then c\<lparr>cn_deleted := True\<rparr>
      else if cn_migrating c then scheduleMigrateCheck c else c)"

text \<open>Lowering the count on the loop; off the loop it never reaches zero while someone waits for that.\<close>

definition drop_count :: "int \<Rightarrow> Connection \<Rightarrow> Connection" where
  "drop_count k c =
     (let v = cn_outstanding c; c = c\<lparr>cn_outstanding := v - k\<rparr> in if v = k then onDrained c else c)"

definition releaseOutstanding :: "bool \<Rightarrow> int \<Rightarrow> nat option \<Rightarrow> Connection \<Rightarrow> Connection" where
  "releaseOutstanding locks k evb c =
     (if locks \<and> \<not> cn_sendClosed c \<and> \<not> cn_drainWatch c then c\<lparr>cn_outstanding := cn_outstanding c - k\<rparr>
      else let v = cn_outstanding c; d = (if k > 0 \<and> v > 1 then min k (v - 1) else 0);
               c = c\<lparr>cn_outstanding := v - d\<rparr>
           in if k - d > 0 then c\<lparr>cn_posts := cn_posts c @ [(evb, DropCount (k - d))]\<rparr> else c)"

definition finishDirect :: "bool \<Rightarrow> rid list \<Rightarrow> Connection \<Rightarrow> Connection" where
  "finishDirect locks reqs c =
     (let evb = rq_evb (cn_store c (hd reqs));
          c = c\<lparr>cn_store := foldl (\<lambda>st r. set_req st r req_reset) (cn_store c) reqs,
                cn_returned := rev reqs @ cn_returned c\<rparr>
      in releaseOutstanding locks (int (length reqs)) evb c)"

definition finishBatch :: "bool \<Rightarrow> rid list \<Rightarrow> bool \<Rightarrow> Connection \<Rightarrow> Connection" where
  "finishBatch locks reqs post c =
     (if \<not> post then finishDirect locks reqs c
      else c\<lparr>cn_posts := cn_posts c @ [(rq_evb (cn_store c (hd reqs)), FinishSpilled reqs)]\<rparr>)"

subsection \<open>Responses written by readers\<close>

text \<open>Header and flags of one response, and its slices in the order they are gathered.\<close>

definition direct_hdr :: "Request \<Rightarrow> bytes" where
  "direct_hdr q =
     (let ok = IsOK (rq_status q);
          h = (if ok
               then \<lparr>magic = kResponseMagic, opcode = opcode_val OpGet, keyLen = 0, extrasLen = 4,
                     dataType = rq_resDatatype q, specific = status_val Success,
                     bodyLen = of_nat (4 + length (rq_response q)), opaque = rq_opaque q, cas = rq_seqno q\<rparr>
               else \<lparr>magic = kResponseMagic, opcode = rq_opcode q, keyLen = 0, extrasLen = 0, dataType = 0,
                     specific = status_val KeyNotFound, bodyLen = 0, opaque = rq_opaque q, cas = 0\<rparr>)
      in hdr_bytes (hton h) @ (if ok then flagsNBO (rq_resFlags q) else []))"

definition direct_iov :: "Request \<Rightarrow> bytes list" where
  "direct_iov q = direct_hdr q # (if IsOK (rq_status q) \<and> rq_response q \<noteq> [] then [rq_response q] else [])"

text \<open>What is left of the slices after \<open>skip\<close> bytes.\<close>

fun skip_iov :: "nat \<Rightarrow> bytes list \<Rightarrow> bytes" where
  "skip_iov skip [] = []"
| "skip_iov skip (v # vs) = (if skip \<ge> length v then skip_iov (skip - length v) vs else drop skip v @ skip_iov 0 vs)"

definition writeDirectLocked :: "send_res \<Rightarrow> rid list \<Rightarrow> Connection \<Rightarrow> bool \<times> Connection" where
  "writeDirectLocked rc reqs c =
     (let iov = concat (map (\<lambda>r. direct_iov (cn_store c r)) reqs); total_len = length (concat iov)
      in if cn_sendClosed c then (False, c)
         else let direct = (cn_spill c = [] \<and> cn_follyWrites c = 0);
                  n = (case rc of SentBytes n \<Rightarrow> n | WouldBlock \<Rightarrow> 0 | Broken \<Rightarrow> total_len);
                  sent = (if direct then n else 0);
                  c = (case rc of SentBytes n \<Rightarrow> if direct then c\<lparr>cn_wire := cn_wire c @ take n (concat iov)\<rparr> else c | _ \<Rightarrow> c)
              in if sent < total_len
                 then let post = (\<not> cn_spillPosted c)
                      in (post, c\<lparr>cn_spill := cn_spill c @ skip_iov sent iov, cn_spillPosted := True\<rparr>)
                 else (False, c))"

function write_chunks :: "send_res list \<Rightarrow> rid list \<Rightarrow> Connection \<Rightarrow> (rid list \<times> bool) list \<times> send_res list \<times> Connection" where
  "write_chunks rcs [] c = ([], rcs, c)"
| "write_chunks rcs (r # rs) c =
     (let chunk = take kMaxPerSend (r # rs);
          (rc, rcs) = (case rcs of [] \<Rightarrow> (WouldBlock, []) | x # xs \<Rightarrow> (x, xs));
          (post, c) = writeDirectLocked rc chunk c;
          (chunks, rcs, c) = write_chunks rcs (drop kMaxPerSend (r # rs)) c
      in ((chunk, post) # chunks, rcs, c))"
  by pat_completeness auto
termination
  by (relation "measure (\<lambda>(rcs, rs, c). length rs)") (simp_all add: kMaxPerSend_def)

text \<open>The rounds of the sender that holds the lock: after each it unlocks, and goes on when others left
  responses meanwhile and the lock can be had again.\<close>

fun held_rounds :: "rid list list \<Rightarrow> send_res list \<Rightarrow> rid list \<Rightarrow> Connection \<Rightarrow> (rid list \<times> bool) list \<times> Connection" where
  "held_rounds [] rcs rs c =
     (let (chunks, rcs, c) = write_chunks rcs (rs @ cn_sendPending c) (c\<lparr>cn_sendPending := []\<rparr>) in (chunks, c))"
| "held_rounds (a # as) rcs rs c =
     (let (chunks, rcs, c) = write_chunks rcs (rs @ cn_sendPending c) (c\<lparr>cn_sendPending := []\<rparr>)
      in if a = [] then (chunks, c)
         else let (chunks', c) = held_rounds as rcs [] (c\<lparr>cn_sendPending := a\<rparr>) in (chunks @ chunks', c))"

definition sendHeld :: "SendEnv \<Rightarrow> rid list \<Rightarrow> Connection \<Rightarrow> Connection" where
  "sendHeld env reqs c =
     (let (chunks, c) = held_rounds (se_arrivals env) (se_sendmsg env) reqs c
      in foldl (\<lambda>c (i, reqs, post). finishBatch (se_releaseLocks env i) reqs post c) c (enumerate 0 chunks))"

definition drainPendingSends :: "SendEnv \<Rightarrow> Connection \<Rightarrow> Connection" where
  "drainPendingSends env c =
     (if cn_sendPending c = [] then c else if se_locks env then sendHeld env [] c else c)"

definition sendDirect :: "SendEnv \<Rightarrow> rid list \<Rightarrow> Connection \<Rightarrow> Connection" where
  "sendDirect env reqs c =
     (if se_locks env then sendHeld env reqs c
      else let evb = rq_evb (cn_store c (hd reqs));
               c = c\<lparr>cn_outstanding := cn_outstanding c + 1, cn_sendPending := reqs @ cn_sendPending c\<rparr>;
               c = (if se_relocks env then sendHeld env [] c else c)
           in releaseOutstanding (se_releaseLocks env 0) 1 evb c)"

subsection \<open>Closing\<close>

text \<open>The loop's own lists and counters are left out; see the theory of the loops.\<close>

definition destroy :: "SendEnv \<Rightarrow> Connection \<Rightarrow> Connection" where
  "destroy env c =
     (if cn_closing c then c
      else let evb = cn_evb c;
               c = c\<lparr>cn_closing := True, cn_flushCb := False, cn_migrateCb := False, cn_resumeTimer := False,
                     cn_readPaused := False, cn_migrating := False, cn_flushScheduled := False, cn_owner := None,
                     cn_sendClosed := True, cn_spill := []\<rparr>;
               c = drainPendingSends env c;
               c = c\<lparr>cn_readCB := False\<rparr>
           in if cn_outstanding c = 0 \<and> evb \<noteq> None then c\<lparr>cn_posts := cn_posts c @ [(evb, DeleteConn)]\<rparr> else c)"

subsection \<open>Writes handed to the socket library\<close>

definition writeSuccess :: "Connection \<Rightarrow> Connection" where
  "writeSuccess c =
     (let c = c\<lparr>cn_follyWrites := cn_follyWrites c - 1\<rparr>;
          c = (case cn_inflight c of
                 [] \<Rightarrow> c
               | b # bs \<Rightarrow> c\<lparr>cn_inflight := bs, cn_spare := (if cn_spare c < 2 then cn_spare c + 1 else cn_spare c)\<rparr>)
      in if cn_migrating c \<and> cn_inflight c = [] then scheduleMigrateCheck c else c)"

definition writeErr :: "SendEnv \<Rightarrow> Connection \<Rightarrow> Connection" where
  "writeErr env c = destroy env (c\<lparr>cn_follyWrites := cn_follyWrites c - 1, cn_inflight := tl (cn_inflight c)\<rparr>)"

text \<open>The library sends writes in the order they are made. One made while nothing is unsent may complete
  or fail inside the call; on a closed socket it fails.\<close>

definition socket_write :: "SendEnv \<Rightarrow> write_res \<Rightarrow> bytes \<Rightarrow> Connection \<Rightarrow> Connection" where
  "socket_write env res buf c =
     (if cn_closing c \<or> res = Fails then writeErr env c
      else if res = Now \<and> cn_unsent c = [] then writeSuccess (c\<lparr>cn_wire := cn_wire c @ buf\<rparr>)
      else c\<lparr>cn_unsent := cn_unsent c @ [buf]\<rparr>)"

text \<open>Moving a buffer to the ones in flight; a fresh one is made when none is kept for reuse.\<close>

definition new_inflight :: "bytes \<Rightarrow> Connection \<Rightarrow> Connection" where
  "new_inflight b c = c\<lparr>cn_spare := cn_spare c - 1, cn_inflight := cn_inflight c @ [b], cn_follyWrites := cn_follyWrites c + 1\<rparr>"

definition writeOwned :: "SendEnv \<Rightarrow> write_res \<Rightarrow> bytes \<Rightarrow> Connection \<Rightarrow> Connection" where
  "writeOwned env res src c = socket_write env res src (new_inflight src c)"

definition write_spill :: "SendEnv \<Rightarrow> Connection \<Rightarrow> Connection" where
  "write_spill env c =
     (if cn_spill c \<noteq> [] then writeOwned env (se_spillWrite env) (cn_spill c) (c\<lparr>cn_spill := []\<rparr>) else c)"

definition flushPendingImpl :: "SendCfg \<Rightarrow> SendEnv \<Rightarrow> Connection \<Rightarrow> Connection" where
  "flushPendingImpl cfg env c =
     (if cn_closing c then c
      else let c = (if sc_directSend cfg then write_spill env (c\<lparr>cn_spillPosted := False\<rparr>) else c)
           in if cn_pending c = [] then c
              else writeOwned env (se_pendingWrite env) (cn_pending c) (c\<lparr>cn_pending := []\<rparr>))"

definition flushPending :: "SendCfg \<Rightarrow> SendEnv \<Rightarrow> Connection \<Rightarrow> Connection" where
  "flushPending cfg env c =
     (let c = flushPendingImpl cfg env c in if sc_directSend cfg then drainPendingSends env c else c)"

definition writeChainLocked :: "SendCfg \<Rightarrow> SendEnv \<Rightarrow> bytes \<Rightarrow> Connection \<Rightarrow> Connection" where
  "writeChainLocked cfg env buf c =
     (let c = (if sc_directSend cfg then write_spill env c else c);
          c = socket_write env (se_pendingWrite env) buf (new_inflight [] c)
      in if sc_directSend cfg then drainPendingSends env c else c)"

definition scheduleFlush :: "SendCfg \<Rightarrow> SendEnv \<Rightarrow> Connection \<Rightarrow> Connection" where
  "scheduleFlush cfg env c =
     (if cn_closing c then c
      else if cn_flushScheduled c
      then if cn_flushTimer c \<and> length (cn_pending c) \<ge> sc_flushBytes cfg
           then flushPending cfg env (c\<lparr>cn_flushTimer := False, cn_flushScheduled := False\<rparr>) else c
      else if sc_flushDelayUs cfg > 0 \<and> length (cn_pending c) < sc_flushBytes cfg
      then c\<lparr>cn_flushScheduled := True, cn_flushTimer := True\<rparr>
      else c\<lparr>cn_flushScheduled := True, cn_flushCb := True\<rparr>)"

definition flushTimeoutExpired :: "SendCfg \<Rightarrow> SendEnv \<Rightarrow> Connection \<Rightarrow> Connection" where
  "flushTimeoutExpired cfg env c = flushPending cfg env (c\<lparr>cn_flushTimer := False, cn_flushScheduled := False\<rparr>)"

definition flushLoopCallback :: "SendCfg \<Rightarrow> SendEnv \<Rightarrow> Connection \<Rightarrow> Connection" where
  "flushLoopCallback cfg env c = flushPending cfg env (c\<lparr>cn_flushCb := False, cn_flushScheduled := False\<rparr>)"

subsection \<open>Responses sent on the loop\<close>

definition get_reply :: "Request \<Rightarrow> bytes \<Rightarrow> bytes" where
  "get_reply q out =
     (if \<not> IsOK (rq_status q) then appendEmptyResponse out (rq_opcode q) KeyNotFound (rq_opaque q) 0
      else appendGetResponse out (rq_opaque q) (rq_seqno q) (rq_resFlags q)
             (if rq_response q = [] then None else Some (rq_response q)) (length (rq_response q)) (rq_resDatatype q))"

definition sendGetResponse :: "SendCfg \<Rightarrow> SendEnv \<Rightarrow> rid \<Rightarrow> Connection \<Rightarrow> Connection" where
  "sendGetResponse cfg env r c =
     (let q = cn_store c r;
          c = (if cn_closing c then c else scheduleFlush cfg env (c\<lparr>cn_pending := get_reply q (cn_pending c)\<rparr>))
      in drop_count 1 (releaseRequest r c))"

definition write_reply :: "Request \<Rightarrow> bytes \<Rightarrow> bytes" where
  "write_reply q out =
     appendEmptyResponse out (rq_opcode q) (if IsOK (rq_status q) then Success else InternalError) (rq_opaque q) (rq_seqno q)"

definition sendWriteResponse :: "SendCfg \<Rightarrow> SendEnv \<Rightarrow> rid \<Rightarrow> Connection \<Rightarrow> Connection" where
  "sendWriteResponse cfg env r c =
     (let q = cn_store c r; iot = rq_ioOwner q;
          c = (if cn_closing c then c else scheduleFlush cfg env (c\<lparr>cn_pending := write_reply q (cn_pending c)\<rparr>));
          c = releaseRequest r c;
          c = (case iot of Some t \<Rightarrow> c\<lparr>cn_holds := (cn_holds c)(t := cn_holds c t - 1)\<rparr> | None \<Rightarrow> c)
      in drop_count 1 c)"

text \<open>Running a posted closure.\<close>

fun run_post :: "SendCfg \<Rightarrow> SendEnv \<Rightarrow> post \<Rightarrow> Connection \<Rightarrow> Connection" where
  "run_post cfg env (FinishSpilled batch) c =
     drop_count (int (length batch)) (foldl (\<lambda>c r. releaseRequest r c) (flushPending cfg env c) batch)"
| "run_post cfg env (DropCount k) c = drop_count k c"
| "run_post cfg env DeleteConn c = c\<lparr>cn_deleted := True\<rparr>"

subsection \<open>Frames\<close>

definition get_frame :: "Request \<Rightarrow> bytes" where
  "get_frame q = concat (direct_iov q)"

definition write_frame :: "Request \<Rightarrow> bytes" where
  "write_frame q = write_reply q []"

lemma appendEmptyResponse_eq:
  "appendEmptyResponse out opc st opq cs = out @ hdr_bytes (hton (resp_hdr opc st opq cs 0 0 0))"
  using appendResponse_eq [of None 0 None 0 None 0] by (simp add: appendEmptyResponse_def section_ok_def)

lemma appendGetResponse_eq:
  assumes "section_ok x n"
  shows "appendGetResponse out opq cs f x n dt =
    out @ hdr_bytes (hton (resp_hdr (opcode_val OpGet) Success opq cs 4 0 n\<lparr>dataType := dt\<rparr>)) @ flagsNBO f @ section_bytes x"
proof -
  have "section_ok (Some (flagsNBO f)) 4" "section_ok (None :: bytes option) 0"
    by (simp_all add: section_ok_def flagsNBO_def)
  note app = appendResponse_eq [OF this assms]
  show ?thesis
    by (simp add: appendGetResponse_def Let_def app list_update_append list_update_dataType
        kHeaderSize_def hton_def resp_hdr_def)
qed

text \<open>A reader gathers exactly the bytes the loop would append.\<close>

lemma get_reply_eq: "get_reply q out = out @ get_frame q"
proof (cases "IsOK (rq_status q)")
  case True
  have "section_ok (if rq_response q = [] then None else Some (rq_response q)) (length (rq_response q))"
    by (simp add: section_ok_def)
  from appendGetResponse_eq [OF this] show ?thesis using True
    by (simp add: get_reply_def get_frame_def direct_iov_def direct_hdr_def resp_hdr_def Let_def)
next
  case False
  then show ?thesis
    by (simp add: get_reply_def get_frame_def direct_iov_def direct_hdr_def resp_hdr_def Let_def appendEmptyResponse_eq)
qed

lemma write_reply_eq: "write_reply q out = out @ write_frame q"
  by (simp add: write_reply_def write_frame_def appendEmptyResponse_eq)

lemma skip_iov_eq: "skip_iov n iov = drop n (concat iov)"
  by (induction n iov rule: skip_iov.induct) auto

definition frames :: "store \<Rightarrow> rid list \<Rightarrow> bytes list" where
  "frames st rs = map (\<lambda>r. get_frame (st r)) rs"

lemma frames_append [simp]: "frames st (rs @ rs') = frames st rs @ frames st rs'"
  by (simp add: frames_def)

lemma frames_Nil [simp]: "frames st [] = []"
  by (simp add: frames_def)

lemma frames_cong: "(\<And>r. r \<in> set rs \<Longrightarrow> st' r = st r) \<Longrightarrow> frames st' rs = frames st rs"
  by (simp add: frames_def)

subsection \<open>What each step does to the output\<close>

text \<open>Everything sent or promised to be sent before anything new, in order.\<close>

definition stream :: "Connection \<Rightarrow> bytes" where
  "stream c = cn_wire c @ concat (cn_unsent c) @ cn_spill c"

fun posted_batch :: "nat option \<times> post \<Rightarrow> rid list" where
  "posted_batch (e, FinishSpilled b) = b"
| "posted_batch (e, p) = []"

fun finishes_spill :: "nat option \<times> post \<Rightarrow> bool" where
  "finishes_spill (e, FinishSpilled b) = True"
| "finishes_spill (e, p) = False"

definition live :: "Connection \<Rightarrow> rid list" where
  "live c = cn_sendPending c @ concat (map posted_batch (cn_posts c))"

definition env_ok :: "SendEnv \<Rightarrow> bool" where
  "env_ok env \<longleftrightarrow> se_spillWrite env \<noteq> Fails \<and> se_pendingWrite env \<noteq> Fails \<and> Broken \<notin> set (se_sendmsg env)"

lemma writeSuccess_fields [simp]:
  "cn_store (writeSuccess c) = cn_store c" "cn_closing (writeSuccess c) = cn_closing c"
  "cn_sendClosed (writeSuccess c) = cn_sendClosed c" "cn_spillPosted (writeSuccess c) = cn_spillPosted c"
  "cn_spill (writeSuccess c) = cn_spill c" "cn_pending (writeSuccess c) = cn_pending c"
  "cn_sendPending (writeSuccess c) = cn_sendPending c" "cn_posts (writeSuccess c) = cn_posts c"
  "cn_flushScheduled (writeSuccess c) = cn_flushScheduled c" "cn_flushTimer (writeSuccess c) = cn_flushTimer c"
  "cn_flushCb (writeSuccess c) = cn_flushCb c" "cn_wire (writeSuccess c) = cn_wire c"
  "cn_unsent (writeSuccess c) = cn_unsent c" "cn_follyWrites (writeSuccess c) = cn_follyWrites c - 1"
  "cn_inflight (writeSuccess c) = tl (cn_inflight c)"
  by (auto simp: writeSuccess_def Let_def scheduleMigrateCheck_def split: list.splits)

lemma set_req_at [simp]: "set_req st r f x = (if x = r then f (st r) else st x)"
  by (simp add: set_req_def)

text \<open>The parts of a connection that handing a buffer to the socket leaves alone.\<close>

definition rest :: "Connection \<Rightarrow> Connection" where
  "rest c = c\<lparr>cn_wire := [], cn_unsent := [], cn_follyWrites := 0, cn_inflight := [], cn_spare := 0, cn_checkPending := False,
     cn_migrateCb := False\<rparr>"

lemma rest_fields:
  assumes "rest c = rest c'"
  shows "cn_store c = cn_store c'" "cn_closing c = cn_closing c'" "cn_sendClosed c = cn_sendClosed c'"
    "cn_spillPosted c = cn_spillPosted c'" "cn_spill c = cn_spill c'" "cn_pending c = cn_pending c'"
    "cn_sendPending c = cn_sendPending c'" "cn_posts c = cn_posts c'" "cn_flushScheduled c = cn_flushScheduled c'"
    "cn_flushTimer c = cn_flushTimer c'" "cn_flushCb c = cn_flushCb c'"
  using arg_cong [OF assms, of cn_store] arg_cong [OF assms, of cn_closing] arg_cong [OF assms, of cn_sendClosed]
    arg_cong [OF assms, of cn_spillPosted] arg_cong [OF assms, of cn_spill] arg_cong [OF assms, of cn_pending]
    arg_cong [OF assms, of cn_sendPending] arg_cong [OF assms, of cn_posts] arg_cong [OF assms, of cn_flushScheduled]
    arg_cong [OF assms, of cn_flushTimer] arg_cong [OF assms, of cn_flushCb]
  by (simp_all add: rest_def)

lemma rest_updates [simp]:
  "rest (c\<lparr>cn_wire := x\<rparr>) = rest c" "rest (c\<lparr>cn_unsent := u\<rparr>) = rest c" "rest (new_inflight b c) = rest c"
  by (simp_all add: rest_def new_inflight_def)

lemma rest_writeSuccess [simp]: "rest (writeSuccess c) = rest c"
  by (auto simp: writeSuccess_def Let_def scheduleMigrateCheck_def rest_def split: list.splits)

definition counted :: "Connection \<Rightarrow> bool" where
  "counted c \<longleftrightarrow> cn_follyWrites c = int (length (cn_unsent c)) \<and> length (cn_inflight c) = length (cn_unsent c)"

lemma socket_write_ok:
  fixes env buf b
  assumes "\<not> cn_closing c" and "res \<noteq> Fails" and "counted c"
  defines "c' \<equiv> socket_write env res buf (new_inflight b c)"
  shows "rest c' = rest c" and "cn_wire c' @ concat (cn_unsent c') = cn_wire c @ concat (cn_unsent c) @ buf" and "counted c'"
proof -
  have cl: "\<not> cn_closing (new_inflight b c)" and u: "cn_unsent (new_inflight b c) = cn_unsent c"
    and w: "cn_wire (new_inflight b c) = cn_wire c"
    using assms(1) by (simp_all add: new_inflight_def)
  have c': "c' = (if res = Now \<and> cn_unsent c = [] then writeSuccess ((new_inflight b c)\<lparr>cn_wire := cn_wire c @ buf\<rparr>)
      else (new_inflight b c)\<lparr>cn_unsent := cn_unsent c @ [buf]\<rparr>)"
    using cl assms(2) by (simp add: c'_def socket_write_def u w)
  show "rest c' = rest c" by (simp add: c')
  show "cn_wire c' @ concat (cn_unsent c') = cn_wire c @ concat (cn_unsent c) @ buf"
    by (simp add: c' u w)
  show "counted c'"
    using assms(3) by (auto simp: c' counted_def new_inflight_def)
qed

lemma write_spill_ok:
  assumes "\<not> cn_closing c" and "env_ok env" and "counted c"
  defines "c' \<equiv> write_spill env c"
  shows "rest c' = rest (c\<lparr>cn_spill := []\<rparr>)" and "stream c' = stream c" and "counted c'"
proof -
  have "\<not> cn_closing (c\<lparr>cn_spill := []\<rparr>)" "se_spillWrite env \<noteq> Fails" "counted (c\<lparr>cn_spill := []\<rparr>)"
    using assms(1-3) by (simp_all add: env_ok_def counted_def)
  note S = socket_write_ok [OF this, where env = env and buf = "cn_spill c" and b = "cn_spill c"]
  note f = rest_fields [OF S(1)]
  show "rest c' = rest (c\<lparr>cn_spill := []\<rparr>)"
  proof (cases "cn_spill c = []")
    case True
    have e: "c\<lparr>cn_spill := []\<rparr> = c" using True by (cases c) simp
    show ?thesis unfolding e using True by (simp add: c'_def write_spill_def)
  qed (use S(1) in \<open>simp add: c'_def write_spill_def writeOwned_def\<close>)
  show "stream c' = stream c"
    using S(2) f(5) by (simp add: c'_def write_spill_def writeOwned_def stream_def)
  show "counted c'" using S(3) assms(3) by (simp add: c'_def write_spill_def writeOwned_def)
qed

lemma flushPendingImpl_ok:
  assumes "\<not> cn_closing c" and "env_ok env" and "counted c" and "sc_directSend cfg \<or> cn_spill c = []"
  defines "c' \<equiv> flushPendingImpl cfg env c"
  shows "rest c' = rest (if sc_directSend cfg then c\<lparr>cn_spill := [], cn_spillPosted := False, cn_pending := []\<rparr>
      else c\<lparr>cn_pending := []\<rparr>)"
    and "stream c' = stream c @ cn_pending c" and "counted c'"
proof -
  define d where "d = (if sc_directSend cfg then write_spill env (c\<lparr>cn_spillPosted := False\<rparr>) else c)"
  have W: "\<not> cn_closing (c\<lparr>cn_spillPosted := False\<rparr>)" "counted (c\<lparr>cn_spillPosted := False\<rparr>)"
    using assms(1,3) by (simp_all add: counted_def)
  note S = write_spill_ok [OF W(1) assms(2) W(2)]
  have r: "rest d = rest (if sc_directSend cfg then c\<lparr>cn_spillPosted := False, cn_spill := []\<rparr> else c)"
    using S(1) by (simp add: d_def)
  have st: "stream d = stream c" using S(2) by (simp add: d_def stream_def)
  have cd: "counted d" using S(3) assms(3) by (simp add: d_def)
  note f = rest_fields [OF r]
  have sp: "cn_spill d = []" and p: "cn_pending d = cn_pending c" and cl: "\<not> cn_closing d"
    using f(2,5,6) assms(1,4) by (cases "sc_directSend cfg"; simp)+
  have N: "\<not> cn_closing (d\<lparr>cn_pending := []\<rparr>)" "se_pendingWrite env \<noteq> Fails" "counted (d\<lparr>cn_pending := []\<rparr>)"
    using cl assms(2) cd by (simp_all add: env_ok_def counted_def)
  note T = socket_write_ok [OF N, where env = env and buf = "cn_pending c" and b = "cn_pending c"]
  have c': "c' = (if cn_pending c = [] then d else writeOwned env (se_pendingWrite env) (cn_pending c) (d\<lparr>cn_pending := []\<rparr>))"
    using assms(1) p by (simp add: c'_def flushPendingImpl_def d_def)
  have upd: "rest (d\<lparr>cn_pending := []\<rparr>) = rest (if sc_directSend cfg then c\<lparr>cn_spill := [], cn_spillPosted := False, cn_pending := []\<rparr>
      else c\<lparr>cn_pending := []\<rparr>)"
    using r by (cases c; cases d; simp add: rest_def split: if_splits)
  show "rest c' = rest (if sc_directSend cfg then c\<lparr>cn_spill := [], cn_spillPosted := False, cn_pending := []\<rparr>
      else c\<lparr>cn_pending := []\<rparr>)"
  proof (cases "cn_pending c = []")
    case True
    have "d\<lparr>cn_pending := []\<rparr> = d" using True p by (cases d) simp
    from upd [unfolded this] show ?thesis using c' True by simp
  next
    case False
    then show ?thesis using upd c' T(1) by (simp add: writeOwned_def)
  qed
  show "counted c'" using c' T(3) cd by (simp add: writeOwned_def)
  show "stream c' = stream c @ cn_pending c"
    using c' T(2) rest_fields(5) [OF T(1)] sp st by (simp add: stream_def writeOwned_def)
qed

text \<open>The parts a direct send leaves alone.\<close>

definition apart_from_spill :: "Connection \<Rightarrow> Connection" where
  "apart_from_spill c = c\<lparr>cn_wire := [], cn_spill := [], cn_spillPosted := False\<rparr>"

lemma apart_fields:
  assumes "apart_from_spill c = apart_from_spill c'"
  shows "cn_store c = cn_store c'" "cn_closing c = cn_closing c'" "cn_sendClosed c = cn_sendClosed c'"
    "cn_pending c = cn_pending c'" "cn_sendPending c = cn_sendPending c'" "cn_posts c = cn_posts c'"
    "cn_flushScheduled c = cn_flushScheduled c'" "cn_flushTimer c = cn_flushTimer c'" "cn_flushCb c = cn_flushCb c'"
    "counted c = counted c'" "cn_unsent c = cn_unsent c'"
  using arg_cong [OF assms, of cn_store] arg_cong [OF assms, of cn_closing] arg_cong [OF assms, of cn_sendClosed]
    arg_cong [OF assms, of cn_pending] arg_cong [OF assms, of cn_sendPending] arg_cong [OF assms, of cn_posts]
    arg_cong [OF assms, of cn_flushScheduled] arg_cong [OF assms, of cn_flushTimer] arg_cong [OF assms, of cn_flushCb]
    arg_cong [OF assms, of counted] arg_cong [OF assms, of cn_unsent]
  by (simp_all add: apart_from_spill_def counted_def)

definition spill_flagged :: "Connection \<Rightarrow> bool" where
  "spill_flagged c \<longleftrightarrow> (cn_spill c \<noteq> [] \<longrightarrow> cn_spillPosted c)"

lemma concat_iov: "concat (concat (map (\<lambda>r. direct_iov (st r)) rs)) = concat (frames st rs)"
  by (induction rs) (simp_all add: frames_def get_frame_def)

lemma writeDirectLocked_ok:
  assumes "writeDirectLocked rc reqs c = (post, c')" and "\<not> cn_sendClosed c" and "rc \<noteq> Broken" and "counted c"
    and "spill_flagged c"
  shows "apart_from_spill c' = apart_from_spill c \<and> stream c' = stream c @ concat (frames (cn_store c) reqs) \<and>
    spill_flagged c' \<and> (cn_spillPosted c' \<longrightarrow> cn_spillPosted c \<or> post)"
proof -
  have u: "cn_follyWrites c = 0 \<longleftrightarrow> cn_unsent c = []" using assms(4) by (simp add: counted_def)
  define B where "B = concat (frames (cn_store c) reqs)"
  define d where "d = (cn_spill c = [] \<and> cn_unsent c = [])"
  have "writeDirectLocked rc reqs c =
      (let sent = (if d then (case rc of SentBytes n \<Rightarrow> n | WouldBlock \<Rightarrow> 0 | Broken \<Rightarrow> length B) else 0);
           c = (case rc of SentBytes n \<Rightarrow> if d then c\<lparr>cn_wire := cn_wire c @ take n B\<rparr> else c | _ \<Rightarrow> c)
       in if sent < length B
          then (\<not> cn_spillPosted c, c\<lparr>cn_spill := cn_spill c @ drop sent B, cn_spillPosted := True\<rparr>) else (False, c))"
    unfolding writeDirectLocked_def Let_def concat_iov skip_iov_eq u B_def d_def using assms(2) by simp
  then have w: "(post, c') = \<dots>" unfolding assms(1) .
  have "stream c = cn_wire c \<and> cn_spill c = [] \<and> cn_unsent c = []" if d using that by (simp add: d_def stream_def)
  then show ?thesis unfolding B_def [symmetric] using w assms(3,5)
    by (cases rc; cases d) (auto simp: Let_def apart_from_spill_def stream_def spill_flagged_def split: if_splits)
qed

lemma write_chunks_ok:
  assumes "write_chunks rcs rs c = (chunks, rcs', c')" and "\<not> cn_sendClosed c" and "Broken \<notin> set rcs" and "counted c"
    and "spill_flagged c"
  shows "apart_from_spill c' = apart_from_spill c \<and> stream c' = stream c @ concat (frames (cn_store c) rs) \<and>
    spill_flagged c' \<and> (cn_spillPosted c' \<longrightarrow> cn_spillPosted c \<or> True \<in> set (map snd chunks)) \<and>
    concat (map fst chunks) = rs \<and> Broken \<notin> set rcs'"
  using assms
proof (induction rcs rs c arbitrary: chunks rcs' c' rule: write_chunks.induct)
  case (2 rcs r rs c)
  obtain rc rcs1 where rc: "(case rcs of [] \<Rightarrow> (WouldBlock, []) | x # xs \<Rightarrow> (x, xs)) = (rc, rcs1)" by force
  have b: "rc \<noteq> Broken" "Broken \<notin> set rcs1" using rc "2.prems"(3) by (auto split: list.splits)
  obtain post c1 where w: "writeDirectLocked rc (take kMaxPerSend (r # rs)) c = (post, c1)" by force
  note W = writeDirectLocked_ok [OF w "2.prems"(2) b(1) "2.prems"(4,5)]
  obtain chunks1 rcs2 c2 where n: "write_chunks rcs1 (drop kMaxPerSend (r # rs)) c1 = (chunks1, rcs2, c2)"
    by (metis prod_cases3)
  have e: "chunks = (take kMaxPerSend (r # rs), post) # chunks1" "rcs' = rcs2" "c' = c2"
    using "2.prems"(1) by (simp_all add: rc w n Let_def del: take_Cons drop_Cons)
  note f = apart_fields [OF W [THEN conjunct1]]
  have pre: "\<not> cn_sendClosed c1" "counted c1" "spill_flagged c1" using W f "2.prems"(2,4) by auto
  note I = "2.IH" [OF refl rc [symmetric] refl w [symmetric] refl n pre(1) b(2) pre(2,3)]
  have fr: "concat (frames (cn_store c) (take kMaxPerSend (r # rs))) @ concat (frames (cn_store c) (drop kMaxPerSend (r # rs)))
      = concat (frames (cn_store c) (r # rs))"
    by (metis append_take_drop_id concat_append frames_append)
  show ?case using I W f(1) fr e by auto
qed simp

lemma held_rounds_ok:
  assumes "held_rounds as rcs rs c = (chunks, c')" and "\<not> cn_sendClosed c" and "Broken \<notin> set rcs" and "counted c"
    and "spill_flagged c"
  defines "sent \<equiv> rs @ cn_sendPending c @ concat (takeWhile (\<lambda>a. a \<noteq> []) as)"
  shows "apart_from_spill c' = apart_from_spill (c\<lparr>cn_sendPending := []\<rparr>) \<and> stream c' = stream c @ concat (frames (cn_store c) sent) \<and>
    spill_flagged c' \<and> (cn_spillPosted c' \<longrightarrow> cn_spillPosted c \<or> True \<in> set (map snd chunks)) \<and>
    concat (map fst chunks) = sent"
  using assms(1-5) unfolding sent_def
proof (induction as rcs rs c arbitrary: chunks c' rule: held_rounds.induct)
  case (1 rcs rs c)
  obtain chunks1 rcs1 c1 where w: "write_chunks rcs (rs @ cn_sendPending c) (c\<lparr>cn_sendPending := []\<rparr>) = (chunks1, rcs1, c1)"
    by (metis prod_cases3)
  have pre: "\<not> cn_sendClosed (c\<lparr>cn_sendPending := []\<rparr>)" "counted (c\<lparr>cn_sendPending := []\<rparr>)" "spill_flagged (c\<lparr>cn_sendPending := []\<rparr>)"
    using "1.prems" by (simp_all add: counted_def spill_flagged_def)
  have s: "stream (c\<lparr>cn_sendPending := []\<rparr>) = stream c" by (simp add: stream_def)
  show ?case using write_chunks_ok [OF w pre(1) "1.prems"(3) pre(2,3)] "1.prems"(1) w s by auto
next
  case (2 a as rcs rs c)
  obtain chunks1 rcs1 c1 where w: "write_chunks rcs (rs @ cn_sendPending c) (c\<lparr>cn_sendPending := []\<rparr>) = (chunks1, rcs1, c1)"
    by (metis prod_cases3)
  have pre: "\<not> cn_sendClosed (c\<lparr>cn_sendPending := []\<rparr>)" "counted (c\<lparr>cn_sendPending := []\<rparr>)" "spill_flagged (c\<lparr>cn_sendPending := []\<rparr>)"
    using "2.prems" by (simp_all add: counted_def spill_flagged_def)
  have s: "stream (c\<lparr>cn_sendPending := []\<rparr>) = stream c" by (simp add: stream_def)
  note W = write_chunks_ok [OF w pre(1) "2.prems"(3) pre(2,3)]
  show ?case
  proof (cases "a = []")
    case True
    then show ?thesis using W "2.prems"(1) w s by auto
  next
    case False
    obtain chunks2 c2 where h: "held_rounds as rcs1 [] (c1\<lparr>cn_sendPending := a\<rparr>) = (chunks2, c2)" by force
    note f = apart_fields [OF W [THEN conjunct1]]
    have pre1: "\<not> cn_sendClosed (c1\<lparr>cn_sendPending := a\<rparr>)" "counted (c1\<lparr>cn_sendPending := a\<rparr>)"
      "spill_flagged (c1\<lparr>cn_sendPending := a\<rparr>)" "Broken \<notin> set rcs1"
      using W f(3,10) "2.prems"(2,4) by (simp_all add: counted_def spill_flagged_def)
    note I = "2.IH" [OF w [symmetric] refl refl False h pre1(1,4,2,3)]
    have s1: "stream (c1\<lparr>cn_sendPending := a\<rparr>) = stream c1" by (simp add: stream_def)
    have a1: "apart_from_spill (c1\<lparr>cn_sendPending := a, cn_sendPending := []\<rparr>) = apart_from_spill (c\<lparr>cn_sendPending := []\<rparr>)"
      using W [THEN conjunct1] by (cases c; cases c1) (simp add: apart_from_spill_def)
    have e: "chunks = chunks1 @ chunks2" "c' = c2" using "2.prems"(1) w h False by simp_all
    show ?thesis using I W a1 s s1 e False f(1) by auto
  qed
qed

text \<open>The parts that finishing requests leaves alone.\<close>

definition outside :: "Connection \<Rightarrow> Connection" where
  "outside c = c\<lparr>cn_store := (\<lambda>_. new_request), cn_returned := [], cn_outstanding := 0, cn_posts := [], cn_reqPool := [],
     cn_holds := (\<lambda>_. 0), cn_checkPending := False, cn_migrateCb := False, cn_deleted := False\<rparr>"

lemma outside_fields:
  assumes "outside c = outside c'"
  shows "cn_closing c = cn_closing c'" "cn_sendClosed c = cn_sendClosed c'" "cn_pending c = cn_pending c'"
    "cn_sendPending c = cn_sendPending c'" "cn_flushScheduled c = cn_flushScheduled c'" "cn_flushTimer c = cn_flushTimer c'"
    "cn_flushCb c = cn_flushCb c'" "counted c = counted c'" "stream c = stream c'" "cn_spill c = cn_spill c'"
    "cn_spillPosted c = cn_spillPosted c'"
  using arg_cong [OF assms, of cn_closing] arg_cong [OF assms, of cn_sendClosed] arg_cong [OF assms, of cn_pending]
    arg_cong [OF assms, of cn_sendPending] arg_cong [OF assms, of cn_flushScheduled] arg_cong [OF assms, of cn_flushTimer]
    arg_cong [OF assms, of cn_flushCb] arg_cong [OF assms, of counted] arg_cong [OF assms, of stream]
    arg_cong [OF assms, of cn_spill] arg_cong [OF assms, of cn_spillPosted]
  by (simp_all add: outside_def counted_def stream_def)

lemma outside_updates [simp]:
  "outside (c\<lparr>cn_posts := x\<rparr>) = outside c" "outside (c\<lparr>cn_outstanding := n\<rparr>) = outside c"
  "outside (c\<lparr>cn_store := st, cn_returned := rs\<rparr>) = outside c" "outside (scheduleMigrateCheck c) = outside c"
  "outside (c\<lparr>cn_deleted := d\<rparr>) = outside c" "outside (c\<lparr>cn_holds := h\<rparr>) = outside c"
  "outside (releaseRequest r c) = outside c"
  by (simp_all add: outside_def scheduleMigrateCheck_def releaseRequest_def)

lemma outside_drop_count [simp]: "outside (drop_count k c) = outside c"
  by (simp add: drop_count_def onDrained_def Let_def)

lemma outside_release [simp]: "outside (releaseOutstanding b k e c) = outside c"
  by (simp add: releaseOutstanding_def Let_def)

lemma drop_count_rest [simp]: "cn_store (drop_count k c) = cn_store c" "cn_posts (drop_count k c) = cn_posts c"
  by (simp_all add: drop_count_def onDrained_def scheduleMigrateCheck_def Let_def)

lemma releaseRequest_posts [simp]: "cn_posts (releaseRequest r c) = cn_posts c"
  by (simp add: releaseRequest_def)

lemma releaseRequest_store [simp]: "x \<noteq> r \<Longrightarrow> cn_store (releaseRequest r c) x = cn_store c x"
  by (simp add: releaseRequest_def)

lemma release_store [simp]: "cn_store (releaseOutstanding b k e c) = cn_store c"
  by (simp add: releaseOutstanding_def Let_def)

lemma release_posts:
  "\<exists>ps. cn_posts (releaseOutstanding b k e c) = cn_posts c @ ps \<and> concat (map posted_batch ps) = []"
  by (auto simp: releaseOutstanding_def Let_def)

lemma reset_others: "r \<notin> set rs \<Longrightarrow> foldl (\<lambda>st r. set_req st r req_reset) st rs r = st r"
  by (induction rs arbitrary: st) auto

lemma finishBatch_ok:
  assumes "c' = finishBatch b reqs post c"
  shows "outside c' = outside c" and "r \<notin> set reqs \<Longrightarrow> cn_store c' r = cn_store c r"
    and "\<exists>ps. cn_posts c' = cn_posts c @ ps \<and> mset (concat (map posted_batch ps)) \<subseteq># mset reqs \<and> (post \<longrightarrow> list_ex finishes_spill ps)"
proof -
  show "outside c' = outside c" by (simp add: assms finishBatch_def finishDirect_def Let_def)
  show "cn_store c' r = cn_store c r" if "r \<notin> set reqs"
    using that by (simp add: assms finishBatch_def finishDirect_def Let_def reset_others)
  show "\<exists>ps. cn_posts c' = cn_posts c @ ps \<and> mset (concat (map posted_batch ps)) \<subseteq># mset reqs \<and> (post \<longrightarrow> list_ex finishes_spill ps)"
  proof (cases post)
    case False
    define d where "d = c\<lparr>cn_store := foldl (\<lambda>st r. set_req st r req_reset) (cn_store c) reqs, cn_returned := rev reqs @ cn_returned c\<rparr>"
    have d: "cn_posts d = cn_posts c" "c' = releaseOutstanding b (int (length reqs)) (rq_evb (cn_store c (hd reqs))) d"
      using False by (simp_all add: assms finishBatch_def finishDirect_def Let_def d_def)
    obtain ps where ps: "cn_posts c' = cn_posts c @ ps" "concat (map posted_batch ps) = []"
      using release_posts [of b "int (length reqs)" "rq_evb (cn_store c (hd reqs))" d] unfolding d by blast
    have "mset (concat (map posted_batch ps)) \<subseteq># mset reqs" unfolding ps(2) by simp
    then show ?thesis using False ps(1) by blast
  qed (simp add: assms finishBatch_def)
qed

definition finish_chunks :: "(nat \<Rightarrow> bool) \<Rightarrow> nat \<Rightarrow> (rid list \<times> bool) list \<Rightarrow> Connection \<Rightarrow> Connection" where
  "finish_chunks got n chunks c = foldl (\<lambda>c (i, reqs, post). finishBatch (got i) reqs post c) c (enumerate n chunks)"

lemma finish_chunks_ok:
  fixes got n
  defines "F \<equiv> \<lambda>chunks n c. finish_chunks got n chunks c"
  shows "outside (F chunks n c) = outside c \<and> (\<forall>r. r \<notin> set (concat (map fst chunks)) \<longrightarrow> cn_store (F chunks n c) r = cn_store c r) \<and>
    (\<exists>ps. cn_posts (F chunks n c) = cn_posts c @ ps \<and> mset (concat (map posted_batch ps)) \<subseteq># mset (concat (map fst chunks)) \<and>
      (True \<in> set (map snd chunks) \<longrightarrow> list_ex finishes_spill ps))"
proof (induction chunks arbitrary: n c)
  case Nil
  then show ?case by (simp add: F_def finish_chunks_def)
next
  case (Cons ch chunks)
  obtain reqs post where ch: "ch = (reqs, post)" by force
  define c1 where "c1 = finishBatch (got n) reqs post c"
  have F: "F (ch # chunks) n c = F chunks (Suc n) c1" by (simp add: F_def finish_chunks_def ch c1_def)
  note B = finishBatch_ok [OF c1_def]
  obtain ps where ps: "cn_posts c1 = cn_posts c @ ps" "mset (concat (map posted_batch ps)) \<subseteq># mset reqs" "post \<longrightarrow> list_ex finishes_spill ps"
    using B(3) by blast
  obtain qs where qs: "cn_posts (F chunks (Suc n) c1) = cn_posts c1 @ qs"
      "mset (concat (map posted_batch qs)) \<subseteq># mset (concat (map fst chunks))" "True \<in> set (map snd chunks) \<longrightarrow> list_ex finishes_spill qs"
    using Cons.IH [of "Suc n" c1] by blast
  have "mset (concat (map posted_batch (ps @ qs))) \<subseteq># mset (concat (map fst (ch # chunks)))"
    using subset_mset.add_mono [OF ps(2) qs(2)] by (simp add: ch)
  moreover have "True \<in> set (map snd (ch # chunks)) \<longrightarrow> list_ex finishes_spill (ps @ qs)"
    using ps(3) qs(3) by (auto simp: ch)
  moreover have "cn_posts (F (ch # chunks) n c) = cn_posts c @ ps @ qs" unfolding F qs(1) ps(1) by simp
  moreover have "outside (F (ch # chunks) n c) = outside c" unfolding F using Cons.IH [of "Suc n" c1] B(1) by simp
  moreover have "cn_store (F (ch # chunks) n c) r = cn_store c r" if "r \<notin> set (concat (map fst (ch # chunks)))" for r
    unfolding F using Cons.IH [of "Suc n" c1] B(2) [of r] that by (simp add: ch)
  ultimately show ?case by blast
qed

subsection \<open>The invariant of an open connection\<close>

text \<open>Frames with who sent them: the loop through the coalesced buffer, the loop directly, a reader.\<close>

datatype origin = ByLoop | ByChain | ByReader

definition sel :: "origin \<Rightarrow> (origin \<times> bytes) list \<Rightarrow> bytes list" where
  "sel w X = map snd (filter (\<lambda>x. fst x = w) X)"

lemma sel_simps [simp]:
  "sel w [] = []" "sel w (X @ Y) = sel w X @ sel w Y" "sel w (map (Pair w') fs) = (if w = w' then fs else [])"
  "sel w ((w', f) # X) = (if w = w' then f # sel w X else sel w X)"
  by (auto simp: sel_def filter_map comp_def)

definition left :: "Connection \<Rightarrow> bytes list" where
  "left c = frames (cn_store c) (cn_sendPending c)"

text \<open>A flush is on its way for what is spilled; the timer and the loop callback are never both armed.\<close>

definition spill_ok :: "Connection \<Rightarrow> bool" where
  "spill_ok c \<longleftrightarrow> spill_flagged c \<and> (cn_spillPosted c \<longrightarrow> list_ex finishes_spill (cn_posts c))"

definition flush_ok :: "Connection \<Rightarrow> bool" where
  "flush_ok c \<longleftrightarrow> (cn_flushScheduled c \<longleftrightarrow> cn_flushTimer c \<or> cn_flushCb c) \<and> \<not> (cn_flushTimer c \<and> cn_flushCb c)"

definition send_inv :: "SendCfg \<Rightarrow> (origin \<times> bytes) list \<Rightarrow> bytes list \<Rightarrow> Connection \<Rightarrow> bool" where
  "send_inv cfg H W c \<longleftrightarrow> \<not> cn_closing c \<and> \<not> cn_sendClosed c \<and> counted c \<and> spill_ok c \<and> flush_ok c \<and> distinct (live c) \<and>
     (sc_directSend cfg \<or> cn_spill c = [] \<and> cn_sendPending c = [] \<and> \<not> cn_spillPosted c) \<and>
     stream c = concat (map snd H) \<and> cn_pending c = concat W"

lemma mset_sub_distinct:
  assumes "mset xs \<subseteq># mset ys" and "distinct ys"
  shows "distinct xs" and "set xs \<subseteq> set ys"
proof -
  have "count (mset xs) a \<le> count (mset ys) a" for a by (rule mset_subset_eq_count [OF assms(1)])
  moreover have "count (mset ys) a = (if a \<in> set ys then 1 else 0)" for a
    using assms(2) by (simp add: distinct_count_atmost_1)
  ultimately have c: "count (mset xs) a \<le> (if a \<in> set ys then 1 else 0)" for a by metis
  have "count (mset xs) a = (if a \<in> set xs then 1 else 0)" for a
  proof (cases "a \<in> set xs")
    case True
    then show ?thesis using le_antisym [of "count (mset xs) a" 1] c [of a] by (cases "a \<in> set ys") (simp_all add: Suc_le_eq)
  qed (simp add: count_eq_zero_iff)
  then show "distinct xs" by (simp add: distinct_count_atmost_1)
  show "set xs \<subseteq> set ys" using assms(1) by (metis set_mset_mono set_mset_mset)
qed

lemma sendHeld_inv:
  assumes inv: "send_inv cfg H W c" and ds: "sc_directSend cfg" and "Broken \<notin> set (se_sendmsg env)"
  defines "seen \<equiv> concat (takeWhile (\<lambda>a. a \<noteq> []) (se_arrivals env))"
  assumes d: "distinct (reqs @ live c @ seen)"
  defines "S \<equiv> reqs @ cn_sendPending c @ seen" and "c' \<equiv> sendHeld env reqs c"
  shows "send_inv cfg (H @ map (Pair ByReader) (frames (cn_store c) S)) W c' \<and> cn_sendPending c' = [] \<and>
    (\<forall>r. r \<notin> set S \<longrightarrow> cn_store c' r = cn_store c r) \<and> set (live c') \<subseteq> set (live c) \<union> set S \<and>
    cn_flushScheduled c' = cn_flushScheduled c"
proof -
  obtain chunks c1 where h: "held_rounds (se_arrivals env) (se_sendmsg env) reqs c = (chunks, c1)" by force
  have I: "\<not> cn_sendClosed c" "counted c" "spill_flagged c" "\<not> cn_closing c" "spill_ok c" "flush_ok c"
      "stream c = concat (map snd H)" "cn_pending c = concat W"
    using inv by (simp_all add: send_inv_def spill_ok_def)
  have R: "apart_from_spill c1 = apart_from_spill (c\<lparr>cn_sendPending := []\<rparr>)" "stream c1 = stream c @ concat (frames (cn_store c) S)"
      "spill_flagged c1" "cn_spillPosted c1 \<longrightarrow> cn_spillPosted c \<or> True \<in> set (map snd chunks)" "concat (map fst chunks) = S"
    using held_rounds_ok [OF h I(1) assms(3) I(2,3)] unfolding S_def seen_def by blast+
  note f = apart_fields [OF R(1), simplified]
  have c': "c' = finish_chunks (se_releaseLocks env) 0 chunks c1"
    by (simp add: c'_def sendHeld_def h finish_chunks_def)
  note P = finish_chunks_ok [where got = "se_releaseLocks env" and chunks = chunks and n = 0 and c = c1, folded c', unfolded R(5)]
  note g = outside_fields [OF P [THEN conjunct1]]
  obtain ps where ps: "cn_posts c' = cn_posts c @ ps" "mset (concat (map posted_batch ps)) \<subseteq># mset S"
      "True \<in> set (map snd chunks) \<longrightarrow> list_ex finishes_spill ps"
    using P f(6) by auto
  have dS: "distinct S" "distinct (concat (map posted_batch (cn_posts c)))" "set S \<inter> set (concat (map posted_batch (cn_posts c))) = {}"
    using d unfolding live_def S_def by auto
  note B = mset_sub_distinct [OF ps(2) dS(1)]
  have sp: "cn_sendPending c' = []" using g(4) f(5) by simp
  have lv: "live c' = concat (map posted_batch (cn_posts c)) @ concat (map posted_batch ps)" by (simp add: live_def sp ps(1))
  have dl: "distinct (live c')" unfolding lv distinct_append using B dS(2,3) by blast
  have "set (live c') \<subseteq> set (live c) \<union> set S" unfolding lv using B(2) by (auto simp: live_def)
  moreover have "\<forall>r. r \<notin> set S \<longrightarrow> cn_store c' r = cn_store c r" using P f(1) by simp
  moreover have "cn_flushScheduled c' = cn_flushScheduled c" using g(5) f(7) by simp
  moreover have "spill_ok c'"
    using R(3,4) ps(1,3) g(10,11) I(5) by (auto simp: spill_ok_def spill_flagged_def)
  moreover have "flush_ok c'" using I(6) g(5-7) f(7-9) by (simp add: flush_ok_def)
  moreover have "stream c' = concat (map snd (H @ map (Pair ByReader) (frames (cn_store c) S)))"
    using g(9) R(2) I(7) by (simp add: comp_def)
  ultimately show ?thesis
    using sp ds dl g(1-3,8) f(2-4,10) I(1,2,4,8) by (simp add: send_inv_def counted_def)
qed

subsection \<open>Moving waiting frames on\<close>

text \<open>A step that only moves frames on: what leaves the waiting lists enters the output.\<close>

definition moved :: "SendCfg \<Rightarrow> Connection \<Rightarrow> Connection \<Rightarrow> bool" where
  "moved cfg c c' \<longleftrightarrow> (\<forall>H W. send_inv cfg H W c \<longrightarrow>
     (\<exists>X W'. send_inv cfg (H @ X) W' c' \<and> W = sel ByLoop X @ W' \<and> sel ByChain X = [] \<and>
        mset (sel ByReader X) + mset (left c') = mset (left c)) \<and>
     (\<forall>r. r \<notin> set (live c) \<longrightarrow> cn_store c' r = cn_store c r) \<and> set (live c') \<subseteq> set (live c))"

lemma movedE:
  assumes "moved cfg c c'" and "send_inv cfg H W c"
  obtains X W' where "send_inv cfg (H @ X) W' c'" "W = sel ByLoop X @ W'" "sel ByChain X = []"
    "mset (sel ByReader X) + mset (left c') = mset (left c)" "\<And>r. r \<notin> set (live c) \<Longrightarrow> cn_store c' r = cn_store c r"
    "set (live c') \<subseteq> set (live c)"
  using assms unfolding moved_def by blast

lemma moved_trans:
  assumes "moved cfg c c1" and "moved cfg c1 c2"
  shows "moved cfg c c2"
proof -
  have "(\<exists>X W'. send_inv cfg (H @ X) W' c2 \<and> W = sel ByLoop X @ W' \<and> sel ByChain X = [] \<and>
        mset (sel ByReader X) + mset (left c2) = mset (left c)) \<and>
     (\<forall>r. r \<notin> set (live c) \<longrightarrow> cn_store c2 r = cn_store c r) \<and> set (live c2) \<subseteq> set (live c)" if i: "send_inv cfg H W c" for H W
  proof -
    obtain X W1 where x: "send_inv cfg (H @ X) W1 c1" "W = sel ByLoop X @ W1" "sel ByChain X = []"
      "mset (sel ByReader X) + mset (left c1) = mset (left c)" "\<And>r. r \<notin> set (live c) \<Longrightarrow> cn_store c1 r = cn_store c r"
      "set (live c1) \<subseteq> set (live c)" using movedE [OF assms(1) i] by blast
    obtain Y W2 where y: "send_inv cfg ((H @ X) @ Y) W2 c2" "W1 = sel ByLoop Y @ W2" "sel ByChain Y = []"
      "mset (sel ByReader Y) + mset (left c2) = mset (left c1)" "\<And>r. r \<notin> set (live c1) \<Longrightarrow> cn_store c2 r = cn_store c1 r"
      "set (live c2) \<subseteq> set (live c1)" using movedE [OF assms(2) x(1)] by blast
    have "send_inv cfg (H @ X @ Y) W2 c2" "W = sel ByLoop (X @ Y) @ W2" "sel ByChain (X @ Y) = []"
      "mset (sel ByReader (X @ Y)) + mset (left c2) = mset (left c)"
      using x y by (simp_all add: add.assoc)
    moreover have "cn_store c2 r = cn_store c r" if "r \<notin> set (live c)" for r
      using that x(5,6) y(5) by (metis subsetD)
    ultimately show ?thesis using x(6) y(6) by blast
  qed
  then show ?thesis by (simp add: moved_def)
qed

lemma moved_refl: "moved cfg c c"
  unfolding moved_def by (metis append.right_neutral append_Nil mset.simps(1) add_0 order_refl sel_simps(1))

lemma drain_moved:
  assumes "sc_directSend cfg" and "env_ok env" and "se_arrivals env = []"
  shows "moved cfg c (drainPendingSends env c)"
proof (cases "cn_sendPending c = [] \<or> \<not> se_locks env")
  case True
  then show ?thesis by (auto simp: drainPendingSends_def moved_refl)
next
  case False
  then have d: "drainPendingSends env c = sendHeld env [] c" by (simp add: drainPendingSends_def)
  have b: "Broken \<notin> set (se_sendmsg env)" using assms(2) by (simp add: env_ok_def)
  have "(\<exists>X W'. send_inv cfg (H @ X) W' (sendHeld env [] c) \<and> W = sel ByLoop X @ W' \<and> sel ByChain X = [] \<and>
        mset (sel ByReader X) + mset (left (sendHeld env [] c)) = mset (left c)) \<and>
     (\<forall>r. r \<notin> set (live c) \<longrightarrow> cn_store (sendHeld env [] c) r = cn_store c r) \<and> set (live (sendHeld env [] c)) \<subseteq> set (live c)"
    if i: "send_inv cfg H W c" for H W
  proof -
    have dl: "distinct ([] @ live c @ concat (takeWhile (\<lambda>a. a \<noteq> []) (se_arrivals env)))"
      using i assms(3) by (simp add: send_inv_def)
    note P = sendHeld_inv [OF i assms(1) b dl, simplified assms(3), simplified]
    have sub: "set (cn_sendPending c) \<subseteq> set (live c)" by (simp add: live_def)
    have "send_inv cfg (H @ map (Pair ByReader) (left c)) W (sendHeld env [] c)" "left (sendHeld env [] c) = []"
      using P by (simp_all add: left_def)
    then have "\<exists>X W'. send_inv cfg (H @ X) W' (sendHeld env [] c) \<and> W = sel ByLoop X @ W' \<and> sel ByChain X = [] \<and>
        mset (sel ByReader X) + mset (left (sendHeld env [] c)) = mset (left c)"
      by (intro exI [of _ "map (Pair ByReader) (left c)"] exI [of _ W]) simp
    then show ?thesis using P sub by (metis (no_types, lifting) Un_absorb2 subset_iff)
  qed
  then show ?thesis unfolding d moved_def by blast
qed

lemma drain_pending [simp]:
  assumes "send_inv cfg H W c" and "sc_directSend cfg" and "env_ok env" and "se_arrivals env = []"
  shows "cn_pending (drainPendingSends env c) = cn_pending c" and "cn_flushScheduled (drainPendingSends env c) = cn_flushScheduled c"
proof -
  have dl: "distinct ([] @ live c @ concat (takeWhile (\<lambda>a. a \<noteq> []) (se_arrivals env)))"
    using assms(1,4) by (simp add: send_inv_def)
  have b: "Broken \<notin> set (se_sendmsg env)" using assms(3) by (simp add: env_ok_def)
  note P = sendHeld_inv [OF assms(1,2) b dl]
  show "cn_pending (drainPendingSends env c) = cn_pending c" "cn_flushScheduled (drainPendingSends env c) = cn_flushScheduled c"
    using P assms(1) by (auto simp: drainPendingSends_def send_inv_def)
qed

lemma movedI_same:
  assumes "\<And>H W. send_inv cfg H W c \<Longrightarrow> send_inv cfg H W c'" and "cn_store c' = cn_store c"
    and "cn_sendPending c' = cn_sendPending c" and "cn_posts c' = cn_posts c"
  shows "moved cfg c c'"
proof -
  have l: "left c' = left c" "live c' = live c" using assms(2-4) by (simp_all add: left_def live_def)
  have "\<exists>X W'. send_inv cfg (H @ X) W' c' \<and> W = sel ByLoop X @ W' \<and> sel ByChain X = [] \<and>
      mset (sel ByReader X) + mset (left c') = mset (left c)" if "send_inv cfg H W c" for H W
    using assms(1) [OF that] l by (intro exI [of _ "[]"] exI [of _ W]) simp
  then show ?thesis unfolding moved_def l by (intro allI impI conjI; (blast | simp add: assms(2)))
qed

text \<open>A flush needs no other flush on its way for what is spilled.\<close>

definition before_flush :: "SendCfg \<Rightarrow> (origin \<times> bytes) list \<Rightarrow> bytes list \<Rightarrow> Connection \<Rightarrow> bool" where
  "before_flush cfg H W c \<longleftrightarrow> \<not> cn_closing c \<and> \<not> cn_sendClosed c \<and> counted c \<and> flush_ok c \<and> distinct (live c) \<and>
     (sc_directSend cfg \<or> cn_spill c = [] \<and> cn_sendPending c = [] \<and> \<not> cn_spillPosted c) \<and>
     stream c = concat (map snd H) \<and> cn_pending c = concat W"

lemma flushImpl_inv:
  assumes "env_ok env" and i: "before_flush cfg H W c"
  defines "c' \<equiv> flushPendingImpl cfg env c"
  shows "send_inv cfg (H @ map (Pair ByLoop) W) [] c'" and "cn_store c' = cn_store c" and "cn_sendPending c' = cn_sendPending c"
    and "cn_posts c' = cn_posts c" and "cn_flushScheduled c' = cn_flushScheduled c"
proof -
  have I: "\<not> cn_closing c" "counted c" "sc_directSend cfg \<or> cn_spill c = []" using i by (auto simp: before_flush_def)
  note F = flushPendingImpl_ok [OF I(1) assms(1) I(2,3), folded c'_def]
  note f = rest_fields [OF F(1)]
  show g: "cn_store c' = cn_store c" "cn_sendPending c' = cn_sendPending c" "cn_posts c' = cn_posts c"
      "cn_flushScheduled c' = cn_flushScheduled c"
    using f(1,7-9) by (cases "sc_directSend cfg"; simp)+
  have h: "cn_closing c' = cn_closing c" "cn_sendClosed c' = cn_sendClosed c" "cn_pending c' = []"
      "cn_flushTimer c' = cn_flushTimer c" "cn_flushCb c' = cn_flushCb c" "cn_spill c' = []" "\<not> cn_spillPosted c'"
    using f(2-6,10,11) i by (cases "sc_directSend cfg"; simp add: before_flush_def)+
  show "send_inv cfg (H @ map (Pair ByLoop) W) [] c'"
    using i F(2,3) g h by (auto simp: before_flush_def send_inv_def spill_ok_def spill_flagged_def flush_ok_def live_def comp_def)
qed

lemma before_flushI: "send_inv cfg H W c \<Longrightarrow> before_flush cfg H W c"
  by (simp add: send_inv_def before_flush_def)

lemma flushPending_inv:
  assumes "env_ok env" and "se_arrivals env = []" and i: "before_flush cfg H W c"
  defines "c' \<equiv> flushPending cfg env c"
  shows "(\<exists>X. send_inv cfg (H @ X) [] c' \<and> W = sel ByLoop X \<and> sel ByChain X = [] \<and>
      mset (sel ByReader X) + mset (left c') = mset (left c)) \<and> (\<forall>r. r \<notin> set (live c) \<longrightarrow> cn_store c' r = cn_store c r) \<and>
      set (live c') \<subseteq> set (live c)"
proof -
  define d where "d = flushPendingImpl cfg env c"
  note F = flushImpl_inv [OF assms(1) i, folded d_def]
  have e: "left d = left c" "live d = live c" using F(2-4) by (simp_all add: left_def live_def)
  have c': "c' = (if sc_directSend cfg then drainPendingSends env d else d)" by (simp add: c'_def d_def flushPending_def)
  have m: "moved cfg d c'" using drain_moved [OF _ assms(1,2)] moved_refl c' by simp
  obtain X W' where x: "send_inv cfg ((H @ map (Pair ByLoop) W) @ X) W' c'" "[] = sel ByLoop X @ W'" "sel ByChain X = []"
      "mset (sel ByReader X) + mset (left c') = mset (left d)" "\<And>r. r \<notin> set (live d) \<Longrightarrow> cn_store c' r = cn_store d r"
      "set (live c') \<subseteq> set (live d)"
    using movedE [OF m F(1)] by blast
  let ?X = "map (Pair ByLoop) W @ X"
  have "send_inv cfg (H @ ?X) [] c'" "W = sel ByLoop ?X" "sel ByChain ?X = []" "mset (sel ByReader ?X) + mset (left c') = mset (left c)"
    using x(1-4) by (simp_all add: e)
  then show ?thesis using x(5,6) F(2) unfolding e by metis
qed

lemma flushPending_moved:
  assumes "env_ok env" and "se_arrivals env = []"
  shows "moved cfg c (flushPending cfg env c)"
  unfolding moved_def using flushPending_inv [OF assms before_flushI] by (metis append_Nil2)

lemma flushPending_pending:
  assumes "env_ok env" and "se_arrivals env = []" and "before_flush cfg H W c"
  shows "cn_pending (flushPending cfg env c) = []"
  using flushPending_inv [OF assms] by (auto simp: send_inv_def)

lemma unschedule_moved:
  "cn_flushTimer c \<Longrightarrow> moved cfg c (c\<lparr>cn_flushTimer := False, cn_flushScheduled := False\<rparr>)"
  "cn_flushCb c \<Longrightarrow> moved cfg c (c\<lparr>cn_flushCb := False, cn_flushScheduled := False\<rparr>)"
  by (rule movedI_same; auto simp: send_inv_def spill_ok_def spill_flagged_def flush_ok_def live_def counted_def stream_def)+

lemma schedule_moved:
  "\<not> cn_flushScheduled c \<Longrightarrow> moved cfg c (c\<lparr>cn_flushScheduled := True, cn_flushTimer := True\<rparr>)"
  "\<not> cn_flushScheduled c \<Longrightarrow> moved cfg c (c\<lparr>cn_flushScheduled := True, cn_flushCb := True\<rparr>)"
  by (rule movedI_same; auto simp: send_inv_def spill_ok_def spill_flagged_def flush_ok_def live_def counted_def stream_def)+

lemma scheduleFlush_moved:
  assumes "env_ok env" and "se_arrivals env = []"
  shows "moved cfg c (scheduleFlush cfg env c)"
  using moved_trans [OF unschedule_moved(1) flushPending_moved [OF assms]] schedule_moved moved_refl
  by (auto simp: scheduleFlush_def)

definition armed :: "Connection \<Rightarrow> bool" where
  "armed c \<longleftrightarrow> (cn_pending c \<noteq> [] \<longrightarrow> cn_flushScheduled c)"

lemma scheduleFlush_armed:
  assumes "env_ok env" and "se_arrivals env = []" and "send_inv cfg H W c"
  shows "armed (scheduleFlush cfg env c)"
proof -
  have "\<not> cn_closing c" using assms(3) by (simp add: send_inv_def)
  moreover have "cn_pending (flushPending cfg env (c\<lparr>cn_flushTimer := False, cn_flushScheduled := False\<rparr>)) = []" if "cn_flushTimer c"
    using flushPending_pending [OF assms(1,2) before_flushI] movedE [OF unschedule_moved(1) [OF that] assms(3)] by metis
  ultimately show ?thesis by (auto simp: scheduleFlush_def armed_def)
qed

subsection \<open>Any sequence of events\<close>

text \<open>The loop answers a request or a bootstrap command, a reader sends, a timer or callback fires, a
  posted closure runs, the library sends some bytes of its oldest write or completes it.\<close>

datatype send_event =
    GetReply SendEnv rid
  | WriteReply SendEnv rid
  | ChainReply SendEnv bytes
  | ReaderSend SendEnv "rid list"
  | TimerFires SendEnv
  | CallbackFires SendEnv
  | PostRuns SendEnv
  | Emits nat
  | Completes

fun send_step :: "SendCfg \<Rightarrow> send_event \<Rightarrow> Connection \<Rightarrow> Connection" where
  "send_step cfg (GetReply env r) c = sendGetResponse cfg env r c"
| "send_step cfg (WriteReply env r) c = sendWriteResponse cfg env r c"
| "send_step cfg (ChainReply env b) c = writeChainLocked cfg env b c"
| "send_step cfg (ReaderSend env reqs) c = sendDirect env reqs c"
| "send_step cfg (TimerFires env) c = (if cn_flushTimer c then flushTimeoutExpired cfg env c else c)"
| "send_step cfg (CallbackFires env) c = (if cn_flushCb c then flushLoopCallback cfg env c else c)"
| "send_step cfg (PostRuns env) c =
     (case cn_posts c of [] \<Rightarrow> c | (e, p) # ps \<Rightarrow> run_post cfg env p (c\<lparr>cn_posts := ps\<rparr>))"
| "send_step cfg (Emits n) c =
     (case cn_unsent c of [] \<Rightarrow> c | u # us \<Rightarrow> c\<lparr>cn_wire := cn_wire c @ take n u, cn_unsent := drop n u # us\<rparr>)"
| "send_step cfg Completes c =
     (case cn_unsent c of [] # us \<Rightarrow> writeSuccess (c\<lparr>cn_unsent := us\<rparr>) | _ \<Rightarrow> c)"

definition seen :: "SendEnv \<Rightarrow> rid list" where
  "seen env = (if se_locks env \<or> se_relocks env then concat (takeWhile (\<lambda>a. a \<noteq> []) (se_arrivals env)) else [])"

text \<open>The frames an event submits.\<close>

fun event_frames :: "send_event \<Rightarrow> Connection \<Rightarrow> (origin \<times> bytes) list" where
  "event_frames (GetReply env r) c = [(ByLoop, get_frame (cn_store c r))]"
| "event_frames (WriteReply env r) c = [(ByLoop, write_frame (cn_store c r))]"
| "event_frames (ChainReply env b) c = [(ByChain, b)]"
| "event_frames (ReaderSend env reqs) c = map (Pair ByReader) (frames (cn_store c) (reqs @ seen env))"
| "event_frames _ c = []"

text \<open>The socket does not fail, and a request answered is not one the connection already holds. Only a
  sending reader sees what other senders leave while it holds the lock.\<close>

definition calm :: "SendEnv \<Rightarrow> bool" where
  "calm env \<longleftrightarrow> env_ok env \<and> se_arrivals env = []"

fun event_ok :: "SendCfg \<Rightarrow> send_event \<Rightarrow> Connection \<Rightarrow> bool" where
  "event_ok cfg (GetReply env r) c \<longleftrightarrow> calm env \<and> r \<notin> set (live c)"
| "event_ok cfg (WriteReply env r) c \<longleftrightarrow> calm env \<and> r \<notin> set (live c)"
| "event_ok cfg (ChainReply env b) c \<longleftrightarrow> calm env"
| "event_ok cfg (ReaderSend env reqs) c \<longleftrightarrow> sc_directSend cfg \<and> env_ok env \<and> reqs \<noteq> [] \<and> distinct (reqs @ live c @ seen env)"
| "event_ok cfg (TimerFires env) c \<longleftrightarrow> calm env"
| "event_ok cfg (CallbackFires env) c \<longleftrightarrow> calm env"
| "event_ok cfg (PostRuns env) c \<longleftrightarrow> calm env"
| "event_ok cfg _ c \<longleftrightarrow> True"

fun send_run :: "SendCfg \<Rightarrow> send_event list \<Rightarrow> (origin \<times> bytes) list \<times> Connection \<Rightarrow> (origin \<times> bytes) list \<times> Connection" where
  "send_run cfg [] s = s"
| "send_run cfg (e # es) s = send_run cfg es (fst s @ event_frames e (snd s), send_step cfg e (snd s))"

fun run_ok :: "SendCfg \<Rightarrow> send_event list \<Rightarrow> Connection \<Rightarrow> bool" where
  "run_ok cfg [] c \<longleftrightarrow> True"
| "run_ok cfg (e # es) c \<longleftrightarrow> event_ok cfg e c \<and> run_ok cfg es (send_step cfg e c)"

text \<open>The frames submitted are exactly the ones sent, waiting to be flushed or left to another sender.\<close>

definition tracked :: "SendCfg \<Rightarrow> (origin \<times> bytes) list \<Rightarrow> Connection \<Rightarrow> bool" where
  "tracked cfg subs c \<longleftrightarrow> (\<exists>H W. send_inv cfg H W c \<and> sel ByLoop H @ W = sel ByLoop subs \<and> sel ByChain H = sel ByChain subs \<and>
     mset (sel ByReader H) + mset (left c) = mset (sel ByReader subs))"

lemma tracked_moved:
  assumes "tracked cfg subs c" and "moved cfg c c'"
  shows "tracked cfg subs c'"
proof -
  obtain H W where t: "send_inv cfg H W c" "sel ByLoop H @ W = sel ByLoop subs" "sel ByChain H = sel ByChain subs"
      "mset (sel ByReader H) + mset (left c) = mset (sel ByReader subs)"
    using assms(1) by (auto simp: tracked_def)
  obtain X W' where "send_inv cfg (H @ X) W' c'" "W = sel ByLoop X @ W'" "sel ByChain X = []"
      "mset (sel ByReader X) + mset (left c') = mset (left c)"
    using movedE [OF assms(2) t(1)] by metis
  moreover from this have "mset (sel ByReader (H @ X)) + mset (left c') = mset (sel ByReader subs)"
    using t(4) by (simp add: add.assoc)
  ultimately show ?thesis unfolding tracked_def using t(2,3)
    by (intro exI [of _ "H @ X"] exI [of _ W']) simp
qed

lemma tracked_finish:
  assumes t: "tracked cfg subs c" and o: "outside c' = outside c" and p: "cn_posts c' = cn_posts c @ ps"
    and b: "concat (map posted_batch ps) = []" and st: "\<And>r. r \<in> set (cn_sendPending c) \<Longrightarrow> cn_store c' r = cn_store c r"
  shows "tracked cfg subs c'"
proof -
  note f = outside_fields [OF o]
  have l: "left c' = left c" using st f(4) by (simp add: left_def frames_def)
  have v: "live c' = live c" using p b f(4) unfolding live_def map_append concat_append by simp
  have "send_inv cfg H W c'" if "send_inv cfg H W c" for H W
    using that f p unfolding send_inv_def v by (auto simp: spill_ok_def spill_flagged_def flush_ok_def)
  then show ?thesis using t unfolding tracked_def l by blast
qed

lemma tracked_inv: "tracked cfg subs c \<Longrightarrow> \<exists>H W. send_inv cfg H W c"
  by (auto simp: tracked_def)

lemma tracked_append:
  assumes "tracked cfg subs c"
  shows "tracked cfg (subs @ [(ByLoop, f)]) (c\<lparr>cn_pending := cn_pending c @ f\<rparr>)" (is "tracked _ _ ?c")
proof -
  have l: "left ?c = left c" by (simp add: left_def)
  have "send_inv cfg H (W @ [f]) ?c" if "send_inv cfg H W c" for H W
    using that by (simp add: send_inv_def spill_ok_def spill_flagged_def flush_ok_def live_def counted_def stream_def)
  moreover obtain H W where "send_inv cfg H W c" "sel ByLoop H @ W = sel ByLoop subs" "sel ByChain H = sel ByChain subs"
      "mset (sel ByReader H) + mset (left c) = mset (sel ByReader subs)"
    using assms by (auto simp: tracked_def)
  ultimately show ?thesis unfolding tracked_def l by (intro exI [of _ H] exI [of _ "W @ [f]"]) simp
qed

lemma reply_tracked:
  fixes f
  assumes "tracked cfg subs c" and "calm env" and r: "r \<notin> set (live c)"
  defines "d \<equiv> scheduleFlush cfg env (c\<lparr>cn_pending := cn_pending c @ f\<rparr>)"
  assumes o: "outside c' = outside d" and p: "cn_posts c' = cn_posts d" and st: "\<And>x. x \<noteq> r \<Longrightarrow> cn_store c' x = cn_store d x"
  shows "tracked cfg (subs @ [(ByLoop, f)]) c' \<and> armed c'"
proof -
  let ?b = "c\<lparr>cn_pending := cn_pending c @ f\<rparr>"
  have env: "env_ok env" "se_arrivals env = []" using assms(2) by (simp_all add: calm_def)
  note T = tracked_append [OF assms(1), of f]
  note M = scheduleFlush_moved [OF env, where cfg = cfg and c = ?b, folded d_def]
  obtain H W where i: "send_inv cfg H W ?b" using tracked_inv [OF T] by blast
  have "set (live d) \<subseteq> set (live ?b)" using movedE [OF M i] by blast
  then have "x \<noteq> r" if "x \<in> set (cn_sendPending d)" for x using r that by (auto simp: live_def)
  then have "tracked cfg (subs @ [(ByLoop, f)]) c'"
    by (intro tracked_finish [OF tracked_moved [OF T M] o, of "[]"]) (simp_all add: p st)
  moreover have "armed d" by (rule scheduleFlush_armed [OF env i, folded d_def])
  ultimately show ?thesis using outside_fields(3,5) [OF o] by (simp add: armed_def)
qed

lemma outside_armed: "outside c' = outside c \<Longrightarrow> armed c \<Longrightarrow> armed c'"
  using outside_fields(3,5) [of c' c] by (simp add: armed_def)

lemma chain_inv:
  fixes b
  assumes i: "send_inv cfg H W c" and env: "env_ok env"
  defines "d \<equiv> (if sc_directSend cfg then write_spill env c else c)"
  defines "c' \<equiv> socket_write env (se_pendingWrite env) b (new_inflight [] d)"
  shows "send_inv cfg (H @ [(ByChain, b)]) W c'" and "left c' = left c" and "cn_pending c' = cn_pending c"
    and "cn_flushScheduled c' = cn_flushScheduled c"
proof -
  have I: "\<not> cn_closing c" "counted c" "sc_directSend cfg \<or> cn_spill c = []" using i by (auto simp: send_inv_def)
  note S = write_spill_ok [OF I(1) env I(2)]
  have dr: "rest d = rest (c\<lparr>cn_spill := []\<rparr>)"
  proof (cases "sc_directSend cfg")
    case False
    then have "c\<lparr>cn_spill := []\<rparr> = c" using I(3) by (cases c) simp
    then show ?thesis unfolding d_def using False by presburger
  qed (use S(1) in \<open>simp add: d_def\<close>)
  have ds: "stream d = stream c" "counted d" using S(2,3) I(2) by (simp_all add: d_def)
  note f = rest_fields [OF dr]
  have N: "\<not> cn_closing d" "se_pendingWrite env \<noteq> Fails" using f(2) I(1) env by (simp_all add: env_ok_def)
  note T = socket_write_ok [OF N ds(2), where env = env and buf = b and b = "[]", folded c'_def]
  note g = rest_fields [OF T(1)]
  have "stream c' = stream c @ b" using T(2) ds(1) f(5) g(5) by (simp add: stream_def)
  then show "send_inv cfg (H @ [(ByChain, b)]) W c'"
    using i f g T(3) by (auto simp: send_inv_def spill_ok_def spill_flagged_def flush_ok_def live_def)
  show "left c' = left c" "cn_pending c' = cn_pending c" "cn_flushScheduled c' = cn_flushScheduled c"
    using f g by (simp_all add: left_def)
qed

lemma chain_tracked:
  assumes "tracked cfg subs c" and "armed c" and "calm env"
  shows "tracked cfg (subs @ [(ByChain, b)]) (writeChainLocked cfg env b c) \<and> armed (writeChainLocked cfg env b c)"
proof -
  have env: "env_ok env" "se_arrivals env = []" using assms(3) by (simp_all add: calm_def)
  obtain H W where t: "send_inv cfg H W c" "sel ByLoop H @ W = sel ByLoop subs" "sel ByChain H = sel ByChain subs"
      "mset (sel ByReader H) + mset (left c) = mset (sel ByReader subs)"
    using assms(1) by (auto simp: tracked_def)
  define d where "d = socket_write env (se_pendingWrite env) b (new_inflight [] (if sc_directSend cfg then write_spill env c else c))"
  note C = chain_inv [OF t(1) env(1), of b, folded d_def]
  have T: "tracked cfg (subs @ [(ByChain, b)]) d"
    unfolding tracked_def using C(1,2) t(2-4) by (intro exI [of _ "H @ [(ByChain, b)]"] exI [of _ W]) simp
  have w: "writeChainLocked cfg env b c = (if sc_directSend cfg then drainPendingSends env d else d)"
    by (simp add: writeChainLocked_def d_def Let_def)
  have "moved cfg d (writeChainLocked cfg env b c)" unfolding w using drain_moved [OF _ env] moved_refl by simp
  moreover have "armed (writeChainLocked cfg env b c)"
    unfolding w using drain_pending [OF C(1) _ env] C(3,4) assms(2) by (simp add: armed_def)
  ultimately show ?thesis using tracked_moved [OF T] by blast
qed

lemma held_tracked:
  assumes t: "tracked cfg subs c" and ds: "sc_directSend cfg" and env: "env_ok env"
    and d: "distinct (reqs @ live c @ concat (takeWhile (\<lambda>a. a \<noteq> []) (se_arrivals env)))" (is "distinct (_ @ _ @ ?seen)")
    and "armed c"
  shows "tracked cfg (subs @ map (Pair ByReader) (frames (cn_store c) (reqs @ ?seen))) (sendHeld env reqs c) \<and>
    armed (sendHeld env reqs c)"
proof -
  obtain H W where t: "send_inv cfg H W c" "sel ByLoop H @ W = sel ByLoop subs" "sel ByChain H = sel ByChain subs"
      "mset (sel ByReader H) + mset (left c) = mset (sel ByReader subs)"
    using t by (auto simp: tracked_def)
  have b: "Broken \<notin> set (se_sendmsg env)" using env by (simp add: env_ok_def)
  note P = sendHeld_inv [OF t(1) ds b d]
  let ?X = "map (Pair ByReader) (frames (cn_store c) (reqs @ cn_sendPending c @ ?seen))"
  have "mset (sel ByReader (H @ ?X)) = mset (sel ByReader H) + mset (left c) + mset (frames (cn_store c) (reqs @ ?seen))"
    by (simp add: left_def)
  then have "tracked cfg (subs @ map (Pair ByReader) (frames (cn_store c) (reqs @ ?seen))) (sendHeld env reqs c)"
    unfolding tracked_def using P t(2-4) by (intro exI [of _ "H @ ?X"] exI [of _ W]) (simp add: left_def)
  moreover have "armed (sendHeld env reqs c)" using P t(1) assms(5) by (simp add: armed_def send_inv_def)
  ultimately show ?thesis by blast
qed

lemma push_tracked:
  assumes t: "tracked cfg subs c" and ds: "sc_directSend cfg" and d: "distinct (reqs @ live c)" and "armed c"
  defines "c' \<equiv> c\<lparr>cn_outstanding := cn_outstanding c + 1, cn_sendPending := reqs @ cn_sendPending c\<rparr>"
  shows "tracked cfg (subs @ map (Pair ByReader) (frames (cn_store c) reqs)) c' \<and> armed c'"
proof -
  have i: "send_inv cfg H W c'" if "send_inv cfg H W c" for H W
    using that d ds by (auto simp: c'_def send_inv_def spill_ok_def spill_flagged_def flush_ok_def live_def counted_def stream_def)
  have l: "left c' = frames (cn_store c) reqs @ left c" by (simp add: c'_def left_def)
  obtain H W where "send_inv cfg H W c" "sel ByLoop H @ W = sel ByLoop subs" "sel ByChain H = sel ByChain subs"
      "mset (sel ByReader H) + mset (left c) = mset (sel ByReader subs)"
    using t by (auto simp: tracked_def)
  then have "tracked cfg (subs @ map (Pair ByReader) (frames (cn_store c) reqs)) c'"
    unfolding tracked_def l using i by (intro exI [of _ H] exI [of _ W]) simp
  then show ?thesis using assms(4) by (simp add: c'_def armed_def)
qed

lemma release_tracked:
  assumes "tracked cfg subs c" and "armed c"
  shows "tracked cfg subs (releaseOutstanding b k e c) \<and> armed (releaseOutstanding b k e c)"
proof -
  obtain ps where "cn_posts (releaseOutstanding b k e c) = cn_posts c @ ps" "concat (map posted_batch ps) = []"
    using release_posts [of b k e c] by blast
  then show ?thesis using tracked_finish [OF assms(1) outside_release] outside_armed [OF outside_release assms(2)] by simp
qed

lemma reader_tracked:
  assumes t: "tracked cfg subs c" and a: "armed c" and ok: "event_ok cfg (ReaderSend env reqs) c"
  shows "tracked cfg (subs @ event_frames (ReaderSend env reqs) c) (sendDirect env reqs c) \<and> armed (sendDirect env reqs c)"
proof (cases "se_locks env")
  case True
  then show ?thesis using held_tracked [OF t, of env reqs] a ok by (simp add: sendDirect_def seen_def)
next
  case False
  define c1 where "c1 = c\<lparr>cn_outstanding := cn_outstanding c + 1, cn_sendPending := reqs @ cn_sendPending c\<rparr>"
  define e where "e = rq_evb (cn_store c (hd reqs))"
  have p: "tracked cfg (subs @ map (Pair ByReader) (frames (cn_store c) reqs)) c1 \<and> armed c1"
    unfolding c1_def by (rule push_tracked [OF t _ _ a]) (use ok in auto)
  have s: "sendDirect env reqs c = releaseOutstanding (se_releaseLocks env 0) 1 e (if se_relocks env then sendHeld env [] c1 else c1)"
    using False by (simp add: sendDirect_def c1_def e_def Let_def)
  show ?thesis
  proof (cases "se_relocks env")
    case True
    have "distinct ([] @ live c1 @ concat (takeWhile (\<lambda>a. a \<noteq> []) (se_arrivals env)))"
      using ok True by (auto simp: live_def c1_def seen_def)
    from held_tracked [OF p [THEN conjunct1] _ _ this p [THEN conjunct2]] have h:
      "tracked cfg (subs @ event_frames (ReaderSend env reqs) c) (sendHeld env [] c1) \<and> armed (sendHeld env [] c1)"
      using ok True by (simp add: seen_def c1_def)
    show ?thesis unfolding s using True release_tracked [OF h [THEN conjunct1] h [THEN conjunct2]] by simp
  next
    case nr: False
    then show ?thesis
      unfolding s using release_tracked [OF p [THEN conjunct1] p [THEN conjunct2]] False by (simp add: seen_def)
  qed
qed

lemma run_post_tracked:
  assumes t: "tracked cfg subs c" and a: "armed c" and env: "calm env" and p: "cn_posts c = (e, p) # ps"
  shows "tracked cfg subs (run_post cfg env p (c\<lparr>cn_posts := ps\<rparr>)) \<and> armed (run_post cfg env p (c\<lparr>cn_posts := ps\<rparr>))"
proof (cases "\<exists>batch. p = FinishSpilled batch")
  case False
  let ?d = "c\<lparr>cn_posts := ps\<rparr>"
  have f: "posted_batch (e, p) = []" "\<not> finishes_spill (e, p)" using False by (cases p; simp)+
  have lv: "live ?d = live c" "left ?d = left c" using f(1) p by (simp_all add: live_def left_def)
  have "send_inv cfg H W ?d" if "send_inv cfg H W c" for H W
    using that f(2) p unfolding send_inv_def lv
    by (auto simp: spill_ok_def spill_flagged_def flush_ok_def counted_def stream_def)
  then have td: "tracked cfg subs ?d" using t unfolding tracked_def lv by blast
  have r: "outside (run_post cfg env p ?d) = outside ?d" "cn_posts (run_post cfg env p ?d) = cn_posts ?d @ []"
      "cn_store (run_post cfg env p ?d) = cn_store ?d"
    using False by (cases p; simp)+
  have "tracked cfg subs (run_post cfg env p ?d)" by (rule tracked_finish [OF td r(1,2)]) (simp_all only: r(3) list.map concat.simps)
  moreover have "armed (run_post cfg env p ?d)" by (rule outside_armed [OF r(1)]) (use a in \<open>simp add: armed_def\<close>)
  ultimately show ?thesis ..
next
  case True
  then obtain batch where b: "p = FinishSpilled batch" by blast
  let ?d = "c\<lparr>cn_posts := ps\<rparr>" and ?F = "flushPending cfg env (c\<lparr>cn_posts := ps\<rparr>)"
  have env': "env_ok env" "se_arrivals env = []" using env by (simp_all add: calm_def)
  obtain H W where t: "send_inv cfg H W c" "sel ByLoop H @ W = sel ByLoop subs" "sel ByChain H = sel ByChain subs"
      "mset (sel ByReader H) + mset (left c) = mset (sel ByReader subs)"
    using t by (auto simp: tracked_def)
  have lv: "distinct (live ?d)" "set batch \<inter> set (live ?d) = {}" and lf: "left ?d = left c"
    using t(1) p b by (auto simp: send_inv_def live_def left_def)
  have bf: "before_flush cfg H W ?d"
    using t(1) lv(1) by (auto simp: send_inv_def before_flush_def flush_ok_def counted_def stream_def)
  obtain X where x: "send_inv cfg (H @ X) [] ?F" "W = sel ByLoop X" "sel ByChain X = []"
      "mset (sel ByReader X) + mset (left ?F) = mset (left ?d)" and lF: "set (live ?F) \<subseteq> set (live ?d)"
    using flushPending_inv [OF env' bf] by blast
  have tF: "tracked cfg subs ?F"
    unfolding tracked_def using x t(2-4) lf by (intro exI [of _ "H @ X"] exI [of _ "[]"]) (simp add: add.assoc)
  have rel: "outside (foldl (\<lambda>c r. releaseRequest r c) d rs) = outside d \<and> cn_posts (foldl (\<lambda>c r. releaseRequest r c) d rs) = cn_posts d \<and>
      (\<forall>x. x \<notin> set rs \<longrightarrow> cn_store (foldl (\<lambda>c r. releaseRequest r c) d rs) x = cn_store d x)" for d rs
    by (induction rs arbitrary: d) (auto simp: releaseRequest_def outside_def)
  let ?R = "drop_count (int (length batch)) (foldl (\<lambda>c r. releaseRequest r c) ?F batch)"
  have o: "outside ?R = outside ?F" "cn_posts ?R = cn_posts ?F @ []" using rel by simp_all
  have st: "cn_store ?R x = cn_store ?F x" if "x \<in> set (cn_sendPending ?F)" for x
  proof -
    have "x \<in> set (live ?F)" using that by (simp add: live_def)
    then have "x \<notin> set batch" using lF lv(2) by blast
    then show ?thesis using rel by simp
  qed
  have r: "run_post cfg env p ?d = ?R" by (simp add: b)
  have "tracked cfg subs ?R" by (rule tracked_finish [OF tF o _ st]) simp_all
  moreover have "armed ?R" using outside_armed [OF o(1)] x(1) by (simp add: armed_def send_inv_def)
  ultimately show ?thesis unfolding r ..
qed

lemma socket_tracked:
  assumes t: "tracked cfg subs c" and a: "armed c"
  shows "tracked cfg subs (send_step cfg (Emits n) c) \<and> armed (send_step cfg (Emits n) c)"
    and "tracked cfg subs (send_step cfg Completes c) \<and> armed (send_step cfg Completes c)"
proof -
  have td: "take n u @ drop n u @ xs = u @ xs" for u xs :: bytes by (metis append.assoc append_take_drop_id)
  have E: "moved cfg c (send_step cfg (Emits n) c)"
  proof (rule movedI_same)
    show "send_inv cfg H W (send_step cfg (Emits n) c)" if "send_inv cfg H W c" for H W
      using that by (cases "cn_unsent c")
        (simp_all add: send_inv_def spill_ok_def spill_flagged_def flush_ok_def live_def counted_def stream_def td)
  qed (simp_all split: list.splits)
  have C: "moved cfg c (send_step cfg Completes c)"
  proof (rule movedI_same)
    show "send_inv cfg H W (send_step cfg Completes c)" if "send_inv cfg H W c" for H W
      using that by (auto simp: send_inv_def spill_ok_def spill_flagged_def flush_ok_def live_def counted_def stream_def split: list.splits)
  qed (simp_all split: list.splits)
  show "tracked cfg subs (send_step cfg (Emits n) c) \<and> armed (send_step cfg (Emits n) c)"
    using tracked_moved [OF t E] a by (simp add: armed_def split: list.splits)
  show "tracked cfg subs (send_step cfg Completes c) \<and> armed (send_step cfg Completes c)"
    using tracked_moved [OF t C] a by (simp add: armed_def split: list.splits)
qed

lemma flush_event_tracked:
  assumes t: "tracked cfg subs c" and env: "calm env" and m: "moved cfg c d"
  shows "tracked cfg subs (flushPending cfg env d) \<and> armed (flushPending cfg env d)"
proof -
  have env': "env_ok env" "se_arrivals env = []" using env by (simp_all add: calm_def)
  note T = tracked_moved [OF t m]
  obtain H W where "send_inv cfg H W d" using tracked_inv [OF T] by blast
  from flushPending_pending [OF env' before_flushI [OF this]] show ?thesis
    using tracked_moved [OF T flushPending_moved [OF env']] by (simp add: armed_def)
qed

lemma send_step_tracked:
  assumes t: "tracked cfg subs c" and a: "armed c" and ok: "event_ok cfg ev c"
  shows "tracked cfg (subs @ event_frames ev c) (send_step cfg ev c) \<and> armed (send_step cfg ev c)"
proof (cases ev)
  case (GetReply env r)
  have "\<not> cn_closing c" using t by (auto simp: tracked_def send_inv_def)
  then have "send_step cfg ev c = drop_count 1 (releaseRequest r (scheduleFlush cfg env (c\<lparr>cn_pending := cn_pending c @ get_frame (cn_store c r)\<rparr>)))"
    by (simp add: GetReply sendGetResponse_def get_reply_eq Let_def)
  moreover have "tracked cfg (subs @ [(ByLoop, get_frame (cn_store c r))]) (drop_count 1 (releaseRequest r d)) \<and>
      armed (drop_count 1 (releaseRequest r d))" if "d = scheduleFlush cfg env (c\<lparr>cn_pending := cn_pending c @ get_frame (cn_store c r)\<rparr>)" for d
    by (rule reply_tracked [OF t, of env r]) (use ok GetReply that in simp_all)
  ultimately show ?thesis by (simp add: GetReply)
next
  case (WriteReply env r)
  have "\<not> cn_closing c" using t by (auto simp: tracked_def send_inv_def)
  then have "\<exists>h. send_step cfg ev c =
      drop_count 1 ((releaseRequest r (scheduleFlush cfg env (c\<lparr>cn_pending := cn_pending c @ write_frame (cn_store c r)\<rparr>)))\<lparr>cn_holds := h\<rparr>)"
  proof (cases "rq_ioOwner (cn_store c r)")
    case None
    let ?d = "releaseRequest r (scheduleFlush cfg env (c\<lparr>cn_pending := cn_pending c @ write_frame (cn_store c r)\<rparr>))"
    have "?d\<lparr>cn_holds := cn_holds ?d\<rparr> = ?d" by simp
    then show ?thesis using \<open>\<not> cn_closing c\<close> None
      by (intro exI [of _ "cn_holds ?d"]) (simp add: WriteReply sendWriteResponse_def write_reply_eq Let_def)
  qed (auto simp: \<open>\<not> cn_closing c\<close> WriteReply sendWriteResponse_def write_reply_eq Let_def)
  moreover have "tracked cfg (subs @ [(ByLoop, write_frame (cn_store c r))]) (drop_count 1 ((releaseRequest r d)\<lparr>cn_holds := h\<rparr>)) \<and>
      armed (drop_count 1 ((releaseRequest r d)\<lparr>cn_holds := h\<rparr>))"
    if "d = scheduleFlush cfg env (c\<lparr>cn_pending := cn_pending c @ write_frame (cn_store c r)\<rparr>)" for d h
    by (rule reply_tracked [OF t, of env r]) (use ok WriteReply that in simp_all)
  ultimately show ?thesis by (auto simp: WriteReply)
next
  case (ChainReply env b)
  then show ?thesis using chain_tracked [OF t a] ok by simp
next
  case (ReaderSend env reqs)
  then show ?thesis using reader_tracked [OF t a] ok by simp
next
  case (TimerFires env)
  then show ?thesis using t a ok flush_event_tracked [OF t _ unschedule_moved(1)] by (simp add: flushTimeoutExpired_def)
next
  case (CallbackFires env)
  then show ?thesis using t a ok flush_event_tracked [OF t _ unschedule_moved(2)] by (simp add: flushLoopCallback_def)
next
  case (PostRuns env)
  then show ?thesis using t a ok run_post_tracked [OF t a] by (auto split: list.splits)
qed (use socket_tracked [OF t a] in simp_all)

lemma send_run_tracked:
  assumes "tracked cfg subs c" and "armed c" and "run_ok cfg es c" and "send_run cfg es (subs, c) = (subs', c')"
  shows "tracked cfg subs' c' \<and> armed c'"
  using assms
proof (induction es arbitrary: subs c)
  case (Cons e es)
  then show ?case using send_step_tracked [of cfg subs c e] by auto
qed simp

definition new_connection :: "store \<Rightarrow> nat \<Rightarrow> Connection" where
  "new_connection st evb = \<lparr>cn_store = st, cn_closing = False, cn_deleted = False, cn_migrating = False, cn_checkPending = False,
     cn_migrateCb = False, cn_drainWatch = False, cn_readCB = False, cn_readPaused = False, cn_stageFull = False,
     cn_resumeTimer = False, cn_flushScheduled = False, cn_flushTimer = False, cn_flushCb = False, cn_evb = Some evb,
     cn_owner = None, cn_outstanding = 0, cn_sendClosed = False, cn_spillPosted = False, cn_spill = [], cn_follyWrites = 0,
     cn_returned = [], cn_sendPending = [], cn_pending = [], cn_inflight = [], cn_spare = 0, cn_reqPool = [],
     cn_holds = (\<lambda>_. 0), cn_posts = [], cn_wire = [], cn_unsent = []\<rparr>"

lemma new_tracked: "tracked cfg [] (new_connection st e)" "armed (new_connection st e)"
proof -
  have "send_inv cfg [] [] (new_connection st e)"
    by (simp add: new_connection_def send_inv_def spill_ok_def spill_flagged_def flush_ok_def live_def counted_def stream_def)
  then show "tracked cfg [] (new_connection st e)"
    unfolding tracked_def by (intro exI [of _ "[]"]) (simp add: left_def new_connection_def)
  show "armed (new_connection st e)" by (simp add: armed_def new_connection_def)
qed


definition quiet_env :: "send_res list \<Rightarrow> SendEnv" where
  "quiet_env rcs = \<lparr>se_sendmsg = rcs, se_spillWrite = Now, se_pendingWrite = Later, se_locks = True, se_relocks = False,
     se_arrivals = [], se_releaseLocks = (\<lambda>_. True)\<rparr>"

text \<open>A response of the loop, a reader's response of which the kernel takes ten bytes, a bootstrap
  answer behind the spill, and the flush.\<close>

definition sample_events :: "send_event list" where
  "sample_events = [GetReply (quiet_env []) 2, ReaderSend (quiet_env [SentBytes 10]) [1], ChainReply (quiet_env []) [7],
     CallbackFires (quiet_env []), PostRuns (quiet_env []), Emits 30, Completes]"

end
