(* ===== verification/Conn_Requests.thy ===== *)
theory Conn_Requests
  imports Conn_Send Read_Queue Doc_Cache
begin

text \<open>
  How a connection reads requests and answers them (\<^verbatim>\<open>server/connection.cc\<close>: the framing in
  \<open>parseAndDispatch\<close>, the run of cached GETs in \<open>serveCachedGets\<close>, the handlers, the pools of requests,
  and the back-pressure that stops reading; \<^verbatim>\<open>server/engine.h\<close>: the write tokens). One state holds the
  connection, what its loop thread keeps for itself and the parts of the bucket the handlers touch.
  Memory the handlers may reach past the bytes of a request is not modelled: an access outside the
  request's body or outside the arrays indexed by vbucket makes the result \<open>None\<close>. The prefetching of
  cache lines for coming requests has no effect on results and is left out, as are the counters of
  the stats page.
\<close>

subsection \<open>State\<close>

datatype Algorithm = SHA512 | SHA256 | SHA1

text \<open>The cryptographic library.\<close>

record Crypto =
  cy_HMAC :: "Algorithm \<Rightarrow> bytes \<Rightarrow> bytes \<Rightarrow> bytes"
  cy_PBKDF2 :: "Algorithm \<Rightarrow> bytes \<Rightarrow> bytes \<Rightarrow> nat \<Rightarrow> bytes"
  cy_base64 :: "bytes \<Rightarrow> bytes"

record EndpointCfg =
  ec_send :: SendCfg
  ec_read :: ReadCfg
  ec_hash :: hashfn
  ec_durable :: bool
  ec_memLimit :: nat
  ec_sizeofRequest :: nat
  ec_numShards :: nat
  ec_echoValue :: "bytes option"
  ec_clusterConfig :: bytes
  ec_errorMap :: bytes
  ec_self :: nat
  ec_crypto :: Crypto

record 'm Endpoint =
  ep_conn :: Connection
  ep_readBuf :: bytes
  ep_scramNonce :: bytes
  ep_scramPassword :: bytes
  ep_scramAuth :: bytes
  ep_recycled :: "rid option"
  ep_staging :: Staging
  ep_queues :: WriteQueues
  ep_reads :: ReadQueues
  ep_cache :: "'m Cache option"
  ep_free :: "nat \<Rightarrow> FreePool"
  ep_limited :: bool
  ep_tokens :: int
  ep_pausedConns :: int

text \<open>What the environment supplies to one request: how many bytes lie contiguously at the front of the
  read buffer, the answers of the socket, where the allocators put a request, a cache entry and a
  response, what a fresh buffer holds, the capacity of the body's buffer, and the random suffix.\<close>

record RequestEnv =
  rv_front :: nat
  rv_send :: SendEnv
  rv_request :: rid
  rv_entry :: addr
  rv_buffer :: "nat \<Rightarrow> bytes"
  rv_bodyCap :: nat
  rv_nonce :: bytes

definition kInlineData :: nat where "kInlineData = 128"
definition kMaxVBuckets :: nat where "kMaxVBuckets = 1024"
definition kScratch :: nat where "kScratch = 4096"
definition kOpaqueOffset :: nat where "kOpaqueOffset = 12"

definition on_conn :: "(Connection \<Rightarrow> Connection) \<Rightarrow> 'm Endpoint \<Rightarrow> 'm Endpoint" where
  "on_conn f S = S\<lparr>ep_conn := f (ep_conn S)\<rparr>"

definition upd_req :: "rid \<Rightarrow> (Request \<Rightarrow> Request) \<Rightarrow> 'm Endpoint \<Rightarrow> 'm Endpoint" where
  "upd_req r f = on_conn (\<lambda>c. c\<lparr>cn_store := set_req (cn_store c) r f\<rparr>)"

definition req_of :: "'m Endpoint \<Rightarrow> rid \<Rightarrow> Request" where
  "req_of S r = cn_store (ep_conn S) r"

subsection \<open>Write admission\<close>

definition TakeWriteToken :: "'m Endpoint \<Rightarrow> bool \<times> 'm Endpoint" where
  "TakeWriteToken S = (if \<not> ep_limited S then (True, S) else (ep_tokens S > 0, S\<lparr>ep_tokens := ep_tokens S - 1\<rparr>))"

definition HasWriteTokens :: "'m Endpoint \<Rightarrow> bool" where
  "HasWriteTokens S \<longleftrightarrow> \<not> ep_limited S \<or> ep_tokens S > 0"

definition RefillWriteTokens :: "int \<Rightarrow> int \<Rightarrow> 'm Endpoint \<Rightarrow> 'm Endpoint" where
  "RefillWriteTokens n cap S = S\<lparr>ep_tokens := min (ep_tokens S + n) cap\<rparr>"

definition SetWriteLimited :: "bool \<Rightarrow> 'm Endpoint \<Rightarrow> 'm Endpoint" where
  "SetWriteLimited v S = S\<lparr>ep_limited := v\<rparr>"

definition WriteQueueHasRoom :: "EndpointCfg \<Rightarrow> 'm Endpoint \<Rightarrow> bool" where
  "WriteQueueHasRoom cfg S \<longleftrightarrow> HasWriteTokens S \<and> wq_queuedBytes (ep_queues S) < ec_memLimit cfg - ec_memLimit cfg div 8"

text \<open>Staging into the array indexed by vbucket, and queueing a read in the array of read queues.\<close>

definition stage :: "EndpointCfg \<Rightarrow> rid \<Rightarrow> 'm Endpoint \<Rightarrow> (bool \<times> 'm Endpoint) option" where
  "stage cfg r S =
     (let (ok, st, t) = StageWrite (ec_sizeofRequest cfg) (ec_memLimit cfg) (ep_queues S) (cn_store (ep_conn S)) (ep_staging S) r
      in if ok \<and> unat (rq_vbucket (req_of S r)) \<ge> kMaxVBuckets then None
         else Some (ok, (on_conn (\<lambda>c. c\<lparr>cn_store := st\<rparr>) S)\<lparr>ep_staging := t\<rparr>))"

definition flush_staged :: "'m Endpoint \<Rightarrow> 'm Endpoint" where
  "flush_staged S =
     (let (st, q, t) = FlushStaged (cn_store (ep_conn S)) (ep_queues S) (ep_staging S)
      in (on_conn (\<lambda>c. c\<lparr>cn_store := st\<rparr>) S)\<lparr>ep_queues := q, ep_staging := t\<rparr>)"

definition enqueue_read :: "EndpointCfg \<Rightarrow> rid \<Rightarrow> 'm Endpoint \<Rightarrow> 'm Endpoint option" where
  "enqueue_read cfg r S =
     (if unat (rq_vbucket (req_of S r)) \<ge> kMaxVBuckets then None
      else let (st, R) = EnqueueRead (ec_read cfg) (cn_store (ep_conn S)) (ep_reads S) r
           in Some ((on_conn (\<lambda>c. c\<lparr>cn_store := st\<rparr>) S)\<lparr>ep_reads := R\<rparr>))"

subsection \<open>Requests from the pools\<close>

text \<open>Requests finished by readers go to the connection's pool while it has room; the rest are freed.\<close>

definition take_returned :: "Connection \<Rightarrow> Connection" where
  "take_returned c =
     foldl (\<lambda>c r. let c = c\<lparr>cn_store := set_next (cn_store c) r None\<rparr>
                 in if length (cn_reqPool c) < kMaxPooledReqs then c\<lparr>cn_reqPool := cn_reqPool c @ [r]\<rparr> else c)
       (c\<lparr>cn_returned := []\<rparr>) (cn_returned c)"

definition acquireRequest :: "RequestEnv \<Rightarrow> 'm Endpoint \<Rightarrow> rid \<times> 'm Endpoint" where
  "acquireRequest env S =
     (let c = ep_conn S; c = (if cn_reqPool c = [] \<and> cn_returned c \<noteq> [] then take_returned c else c)
      in if cn_reqPool c \<noteq> [] then (last (cn_reqPool c), S\<lparr>ep_conn := c\<lparr>cn_reqPool := butlast (cn_reqPool c)\<rparr>\<rparr>)
         else (rv_request env, S\<lparr>ep_conn := c\<lparr>cn_store := (cn_store c)(rv_request env := new_request)\<rparr>\<rparr>))"

definition acquireRequest_vb :: "EndpointCfg \<Rightarrow> RequestEnv \<Rightarrow> u16 \<Rightarrow> 'm Endpoint \<Rightarrow> rid \<times> 'm Endpoint" where
  "acquireRequest_vb cfg env v S =
     (let shard = unat v mod ec_numShards cfg;
          S = (if ep_recycled S = None
               then let (h, p) = TakeRequests (cn_store (ep_conn S)) (ep_free S shard)
                    in S\<lparr>ep_recycled := h, ep_free := (ep_free S)(shard := p)\<rparr>
               else S)
      in case ep_recycled S of
           Some r \<Rightarrow> (r, upd_req r (\<lambda>q. q\<lparr>rq_next := None\<rparr>) (S\<lparr>ep_recycled := rq_next (req_of S r)\<rparr>))
         | None \<Rightarrow> acquireRequest env S)"

subsection \<open>Bootstrap commands\<close>

definition ascii :: "string \<Rightarrow> bytes" where
  "ascii s = map of_char s"

definition respond :: "EndpointCfg \<Rightarrow> RequestEnv \<Rightarrow> McbpHeader \<Rightarrow> McbpStatus \<Rightarrow> bytes \<Rightarrow> 'm Endpoint \<Rightarrow> 'm Endpoint" where
  "respond cfg env h status val =
     on_conn (writeChainLocked (ec_send cfg) (rv_send env)
       (buildResponse (rv_buffer env) (opcode h) status (opaque h) 0 None 0 None 0 (Some val) (length val)))"

definition respond_empty :: "EndpointCfg \<Rightarrow> RequestEnv \<Rightarrow> McbpHeader \<Rightarrow> McbpStatus \<Rightarrow> 'm Endpoint \<Rightarrow> 'm Endpoint" where
  "respond_empty cfg env h status =
     on_conn (writeChainLocked (ec_send cfg) (rv_send env) (buildEmptyResponse (rv_buffer env) (opcode h) status (opaque h) 0))"

definition echoed :: "u16 list" where
  "echoed = [0x04, 0x07, 0x08, 0x0b, 0x0c, 0x0e, 0x0a]"

fun hello_features :: "bytes \<Rightarrow> bytes" where
  "hello_features (a # b # fs) =
     (let feat = bswap 2 (le_word [a, b] :: u16)
      in (if feat \<in> set echoed then bytes_le 2 (bswap 2 feat) else []) @ hello_features fs)"
| "hello_features _ = []"

definition handleHello :: "EndpointCfg \<Rightarrow> RequestEnv \<Rightarrow> McbpHeader \<Rightarrow> bytes option \<Rightarrow> 'm Endpoint \<Rightarrow> 'm Endpoint" where
  "handleHello cfg env h body =
     respond cfg env h Success
       (case body of
          Some b \<Rightarrow> if unat (bodyLen h) > unat (keyLen h)
                    then hello_features (take (unat (bodyLen h) - unat (keyLen h)) (drop (unat (keyLen h)) b)) else []
        | None \<Rightarrow> [])"

definition handleSaslListMechs :: "EndpointCfg \<Rightarrow> RequestEnv \<Rightarrow> McbpHeader \<Rightarrow> 'm Endpoint \<Rightarrow> 'm Endpoint" where
  "handleSaslListMechs cfg env h = respond cfg env h Success (ascii ''SCRAM-SHA512 SCRAM-SHA256 SCRAM-SHA1 PLAIN'')"

text \<open>\<open>std::string::find\<close>.\<close>

fun find_sub :: "bytes \<Rightarrow> bytes \<Rightarrow> nat option" where
  "find_sub pat [] = (if pat = [] then Some 0 else None)"
| "find_sub pat (x # xs) =
     (if take (length pat) (x # xs) = pat then Some 0 else map_option Suc (find_sub pat xs))"

definition getScramAlgo :: "bytes \<Rightarrow> Algorithm" where
  "getScramAlgo mech =
     (if find_sub (ascii ''512'') mech \<noteq> None then SHA512
      else if find_sub (ascii ''256'') mech \<noteq> None then SHA256 else SHA1)"

definition kSalt :: bytes where "kSalt = ascii ''magmakvserversalt''"
definition kIterations :: nat where "kIterations = 4096"

definition kScram :: "Crypto \<Rightarrow> Algorithm \<Rightarrow> bytes" where
  "kScram cy algo = cy_PBKDF2 cy algo (ascii ''password'') kSalt kIterations"

text \<open>The mechanism and the data of an authentication command.\<close>

definition sasl_parts :: "McbpHeader \<Rightarrow> bytes option \<Rightarrow> (bytes \<times> bytes) option" where
  "sasl_parts h body =
     (case body of
        None \<Rightarrow> Some ([], [])
      | Some b \<Rightarrow> let k = unat (keyLen h); n = unat (bodyLen h)
                  in if k > length b then None else Some (take k b, if n > k then take (n - k) (drop k b) else []))"

definition handleSaslAuth :: "EndpointCfg \<Rightarrow> RequestEnv \<Rightarrow> McbpHeader \<Rightarrow> bytes option \<Rightarrow> 'm Endpoint \<Rightarrow> 'm Endpoint option" where
  "handleSaslAuth cfg env h body S =
     (case sasl_parts h body of
        None \<Rightarrow> None
      | Some (mech, authData) \<Rightarrow>
          if mech = ascii ''PLAIN'' then Some (respond_empty cfg env h Success S)
          else let clientFirstBare = (case find_sub (ascii ''n='') authData of Some p \<Rightarrow> drop p authData | None \<Rightarrow> []);
                   clientNonce = (case find_sub (ascii ''r='') clientFirstBare of Some p \<Rightarrow> drop (p + 2) clientFirstBare | None \<Rightarrow> []);
                   nonce = clientNonce @ rv_nonce env;
                   S = S\<lparr>ep_scramNonce := nonce, ep_scramPassword := kScram (ec_crypto cfg) (getScramAlgo mech)\<rparr>;
                   serverFirst = ascii ''r='' @ nonce @ ascii '',s='' @ cy_base64 (ec_crypto cfg) kSalt @ ascii '',i='' @
                     ascii (show_nat kIterations);
                   S = S\<lparr>ep_scramAuth := clientFirstBare @ ascii '','' @ serverFirst @ ascii '',''\<rparr>
               in Some (respond cfg env h AuthContinue serverFirst S))"

definition handleSaslStep :: "EndpointCfg \<Rightarrow> RequestEnv \<Rightarrow> McbpHeader \<Rightarrow> bytes option \<Rightarrow> 'm Endpoint \<Rightarrow> 'm Endpoint option" where
  "handleSaslStep cfg env h body S =
     (case sasl_parts h body of
        None \<Rightarrow> None
      | Some (mech, authData) \<Rightarrow>
          let withoutProof = (case find_sub (ascii '',p='') authData of Some p \<Rightarrow> take p authData | None \<Rightarrow> authData);
              algo = getScramAlgo mech; cy = ec_crypto cfg;
              serverKey = cy_HMAC cy algo (ep_scramPassword S) (ascii ''Server Key'');
              serverSignature = cy_HMAC cy algo serverKey (ep_scramAuth S @ withoutProof)
          in Some (respond cfg env h Success (ascii ''v='' @ cy_base64 cy serverSignature) S))"

definition handleSelectBucket :: "EndpointCfg \<Rightarrow> RequestEnv \<Rightarrow> McbpHeader \<Rightarrow> 'm Endpoint \<Rightarrow> 'm Endpoint" where
  "handleSelectBucket cfg env h = respond_empty cfg env h Success"

definition handleGetClusterConfig :: "EndpointCfg \<Rightarrow> RequestEnv \<Rightarrow> McbpHeader \<Rightarrow> 'm Endpoint \<Rightarrow> 'm Endpoint" where
  "handleGetClusterConfig cfg env h = respond cfg env h Success (ec_clusterConfig cfg)"

definition handleGetErrorMap :: "EndpointCfg \<Rightarrow> RequestEnv \<Rightarrow> McbpHeader \<Rightarrow> 'm Endpoint \<Rightarrow> 'm Endpoint" where
  "handleGetErrorMap cfg env h = respond cfg env h Success (ec_errorMap cfg)"

definition handleNoop :: "EndpointCfg \<Rightarrow> RequestEnv \<Rightarrow> McbpHeader \<Rightarrow> 'm Endpoint \<Rightarrow> 'm Endpoint" where
  "handleNoop cfg env h = respond_empty cfg env h Success"

definition sendUnknownCommand :: "EndpointCfg \<Rightarrow> RequestEnv \<Rightarrow> McbpHeader \<Rightarrow> 'm Endpoint \<Rightarrow> 'm Endpoint" where
  "sendUnknownCommand cfg env h = respond_empty cfg env h UnknownCommand"

subsection \<open>SET, DELETE and GET\<close>

text \<open>\<open>n\<close> bytes at offset \<open>p\<close> of a body.\<close>

definition slice_at :: "bytes \<Rightarrow> nat \<Rightarrow> nat \<Rightarrow> bytes option" where
  "slice_at b p n = (if p + n \<le> length b then Some (take n (drop p b)) else None)"

definition be32 :: "bytes \<Rightarrow> nat \<Rightarrow> u32" where
  "be32 b p = bswap 4 (le_word (take 4 (drop p b)))"

definition fill_header :: "McbpHeader \<Rightarrow> Request \<Rightarrow> Request" where
  "fill_header h q = q\<lparr>rq_opcode := opcode h, rq_vbucket := specific h, rq_opaque := opaque h, rq_cas := cas h\<rparr>"

definition fill_set :: "McbpHeader \<Rightarrow> bytes option \<Rightarrow> Request \<Rightarrow> Request option" where
  "fill_set h body q =
     (let q = (fill_header h q)\<lparr>rq_datatype := dataType h\<rparr>
      in case body of
           None \<Rightarrow> Some q
         | Some b \<Rightarrow>
             let e = unat (extrasLen h); k = unat (keyLen h);
                 n = unat (bodyLen h - ucast (extrasLen h) - ucast (keyLen h));
                 q = (if length b \<le> kInlineData then q else q\<lparr>rq_dataBuf := Some b\<rparr>)
             in case (slice_at b e k, slice_at b (e + k) n) of
                  (Some key, Some val) \<Rightarrow>
                    Some (q\<lparr>rq_flags := (if e \<ge> 4 then be32 b 0 else rq_flags q),
                            rq_expiry := (if e \<ge> 8 then be32 b 4 else rq_expiry q), rq_key := key, rq_value := val\<rparr>)
                | _ \<Rightarrow> None)"

definition fill_key :: "McbpHeader \<Rightarrow> bool \<Rightarrow> bytes option \<Rightarrow> Request \<Rightarrow> Request option" where
  "fill_key h inline_ok body q =
     (case body of
        None \<Rightarrow> Some q
      | Some b \<Rightarrow>
          let q = (if inline_ok \<and> length b \<le> kInlineData then q else q\<lparr>rq_dataBuf := Some b\<rparr>)
          in case slice_at b (unat (extrasLen h)) (unat (keyLen h)) of
               Some key \<Rightarrow> Some (q\<lparr>rq_key := key\<rparr>) | None \<Rightarrow> None)"

definition cache_write :: "EndpointCfg \<Rightarrow> RequestEnv \<Rightarrow> Request \<Rightarrow> 'm Endpoint \<Rightarrow> 'm Endpoint" where
  "cache_write cfg env q S =
     S\<lparr>ep_cache := map_option (\<lambda>c.
         if rq_dataBuf q \<noteq> None
         then PutShared (ec_hash cfg) c (rv_entry env) (rq_vbucket q) (rq_key q) (rq_value q) (rv_bodyCap env) (rq_flags q)
                (rq_expiry q) (rq_datatype q) False
         else Put (ec_hash cfg) c (rv_entry env) (rq_vbucket q) (rq_key q) (rq_value q) (rq_flags q) (rq_expiry q)
                (rq_datatype q) False) (ep_cache S)\<rparr>"

definition cache_delete :: "EndpointCfg \<Rightarrow> RequestEnv \<Rightarrow> Request \<Rightarrow> 'm Endpoint \<Rightarrow> 'm Endpoint" where
  "cache_delete cfg env q S =
     S\<lparr>ep_cache := map_option (\<lambda>c. Put (ec_hash cfg) c (rv_entry env) (rq_vbucket q) (rq_key q) [] 0 0 0 True) (ep_cache S)\<rparr>"

definition cache_erase :: "EndpointCfg \<Rightarrow> Request \<Rightarrow> 'm Endpoint \<Rightarrow> 'm Endpoint" where
  "cache_erase cfg q S = S\<lparr>ep_cache := map_option (\<lambda>c. Erase (ec_hash cfg) c (rq_vbucket q) (rq_key q)) (ep_cache S)\<rparr>"

definition tmpfail :: Status where
  "tmpfail = \<lparr>IsOK = False, IsOkDocNotFound = False\<rparr>"

definition reply_empty :: "McbpHeader \<Rightarrow> McbpStatus \<Rightarrow> Connection \<Rightarrow> Connection" where
  "reply_empty h status c = c\<lparr>cn_pending := appendEmptyResponse (cn_pending c) (opcode h) status (opaque h) 0\<rparr>"

text \<open>Queueing a write and answering it, as \<open>handleSet\<close> and \<open>handleDelete\<close> both do. Only a refused SET
  stops the reading.\<close>

definition submit_write :: "EndpointCfg \<Rightarrow> RequestEnv \<Rightarrow> McbpHeader \<Rightarrow> rid \<Rightarrow> bool \<Rightarrow> 'm Endpoint \<Rightarrow> 'm Endpoint option" where
  "submit_write cfg env h r stops S =
     (let q = req_of S r
      in if ec_durable cfg
         then let c = ep_conn S;
                  S = upd_req r (\<lambda>q. q\<lparr>rq_conn := Some (ec_self cfg), rq_evb := cn_evb c, rq_ioOwner := cn_owner c\<rparr>) S;
                  S = on_conn (\<lambda>c. c\<lparr>cn_outstanding := cn_outstanding c + 1,
                        cn_holds := (case cn_owner c of Some t \<Rightarrow> (cn_holds c)(t := cn_holds c t + 1) | None \<Rightarrow> cn_holds c)\<rparr>) S
              in case stage cfg r S of
                   None \<Rightarrow> None
                 | Some (True, S) \<Rightarrow> Some S
                 | Some (False, S) \<Rightarrow>
                     let S = cache_erase cfg q S; S = upd_req r (\<lambda>q. q\<lparr>rq_status := tmpfail\<rparr>) S
                     in Some (on_conn (sendWriteResponse (ec_send cfg) (rv_send env) r) S)
         else case stage cfg r S of
                None \<Rightarrow> None
              | Some (True, S) \<Rightarrow> Some (on_conn (reply_empty h Success) S)
              | Some (False, S) \<Rightarrow>
                  let S = cache_erase cfg q (on_conn (reply_empty h TmpFail) S);
                      S = on_conn (releaseRequest r) S
                  in Some (if stops then on_conn (\<lambda>c. c\<lparr>cn_stageFull := True\<rparr>) S else S))"

definition handleSet :: "EndpointCfg \<Rightarrow> RequestEnv \<Rightarrow> McbpHeader \<Rightarrow> bytes option \<Rightarrow> 'm Endpoint \<Rightarrow> 'm Endpoint option" where
  "handleSet cfg env h body S =
     (let (r, S) = acquireRequest_vb cfg env (specific h) S
      in case fill_set h body (req_of S r) of
           None \<Rightarrow> None
         | Some q \<Rightarrow> submit_write cfg env h r True (cache_write cfg env q (upd_req r (\<lambda>_. q) S)))"

definition handleDelete :: "EndpointCfg \<Rightarrow> RequestEnv \<Rightarrow> McbpHeader \<Rightarrow> bytes option \<Rightarrow> 'm Endpoint \<Rightarrow> 'm Endpoint option" where
  "handleDelete cfg env h body S =
     (let (r, S) = acquireRequest env S
      in case fill_key h False body (fill_header h (req_of S r)) of
           None \<Rightarrow> None
         | Some q \<Rightarrow> submit_write cfg env h r False (cache_delete cfg env q (upd_req r (\<lambda>_. q) S)))"

text \<open>The prepared answer of echo mode; only the opaque is stamped per request.\<close>

definition echoResponseBuf :: "EndpointCfg \<Rightarrow> bytes" where
  "echoResponseBuf cfg =
     (case ec_echoValue cfg of
        None \<Rightarrow> []
      | Some val \<Rightarrow>
          hdr_bytes (hton \<lparr>magic = kResponseMagic, opcode = opcode_val OpGet, keyLen = 0, extrasLen = 4, dataType = 0,
            specific = status_val Success, bodyLen = of_nat (4 + length val), opaque = 0, cas = 1\<rparr>) @
          flagsNBO 0x04000000 @ val)"

definition echo_reply :: "EndpointCfg \<Rightarrow> McbpHeader \<Rightarrow> Connection \<Rightarrow> Connection" where
  "echo_reply cfg h c =
     (let off = length (cn_pending c); out = cn_pending c @ echoResponseBuf cfg
      in c\<lparr>cn_pending := poke out (off + kOpaqueOffset) (bytes_le 4 (opaque h))\<rparr>)"

text \<open>The answer to a GET from a cached document.\<close>

definition cached_reply :: "McbpHeader \<Rightarrow> CachedDoc \<Rightarrow> Connection \<Rightarrow> Connection" where
  "cached_reply h d c =
     c\<lparr>cn_pending :=
        (if cd_deleted d then appendEmptyResponse (cn_pending c) (opcode h) KeyNotFound (opaque h) 0
         else appendGetResponse (cn_pending c) (opaque h) (cd_seqno d) (cd_flags d) (Some (cd_value d)) (length (cd_value d))
                (cd_datatype d))\<rparr>"

definition queue_get :: "EndpointCfg \<Rightarrow> RequestEnv \<Rightarrow> McbpHeader \<Rightarrow> bytes option \<Rightarrow> 'm Endpoint \<Rightarrow> 'm Endpoint option" where
  "queue_get cfg env h body S =
     (let S = on_conn (\<lambda>c. c\<lparr>cn_outstanding := cn_outstanding c + 1\<rparr>) S;
          (r, S) = acquireRequest env S;
          q = (req_of S r)\<lparr>rq_opcode := opcode h, rq_vbucket := specific h, rq_opaque := opaque h,
                rq_conn := Some (ec_self cfg), rq_evb := cn_evb (ep_conn S)\<rparr>
      in case fill_key h True body q of
           None \<Rightarrow> None
         | Some q \<Rightarrow> enqueue_read cfg r (upd_req r (\<lambda>_. q) S))"

definition handleGet :: "EndpointCfg \<Rightarrow> RequestEnv \<Rightarrow> McbpHeader \<Rightarrow> bytes option \<Rightarrow> 'm Endpoint \<Rightarrow> 'm Endpoint option" where
  "handleGet cfg env h body S =
     (if echoResponseBuf cfg \<noteq> [] then Some (on_conn (echo_reply cfg h) S)
      else case (ep_cache S, body) of
             (Some c, Some b) \<Rightarrow>
               (case slice_at b (unat (extrasLen h)) (unat (keyLen h)) of
                  None \<Rightarrow> None
                | Some key \<Rightarrow>
                    let (doc, c) = Get (ec_hash cfg) c (specific h) key; S = S\<lparr>ep_cache := Some c\<rparr>
                    in case doc of
                         Some d \<Rightarrow> Some (on_conn (cached_reply h d) S)
                       | None \<Rightarrow> queue_get cfg env h body S)
           | _ \<Rightarrow> queue_get cfg env h body S)"

definition dispatch :: "EndpointCfg \<Rightarrow> RequestEnv \<Rightarrow> McbpHeader \<Rightarrow> bytes option \<Rightarrow> 'm Endpoint \<Rightarrow> 'm Endpoint option" where
  "dispatch cfg env h body S =
     (case opcode_of (opcode h) of
        Some OpHello \<Rightarrow> Some (handleHello cfg env h body S)
      | Some OpSaslListMechs \<Rightarrow> Some (handleSaslListMechs cfg env h S)
      | Some OpSaslAuth \<Rightarrow> handleSaslAuth cfg env h body S
      | Some OpSaslStep \<Rightarrow> handleSaslStep cfg env h body S
      | Some OpSelectBucket \<Rightarrow> Some (handleSelectBucket cfg env h S)
      | Some OpGetClusterConfig \<Rightarrow> Some (handleGetClusterConfig cfg env h S)
      | Some OpGetErrorMap \<Rightarrow> Some (handleGetErrorMap cfg env h S)
      | Some OpNoop \<Rightarrow> Some (handleNoop cfg env h S)
      | Some OpSet \<Rightarrow> handleSet cfg env h body S
      | Some OpDelete \<Rightarrow> handleDelete cfg env h body S
      | Some OpGet \<Rightarrow> handleGet cfg env h body S
      | None \<Rightarrow> Some (sendUnknownCommand cfg env h S))"

subsection \<open>Framing\<close>

text \<open>One GET of the run of cached GETs at the front of the buffer; \<open>buf\<close> is what is left of the
  contiguous front. The run ends (\<open>Inl\<close>), or the request was answered: its length, and whether enough
  output has gathered.\<close>

definition serve_one :: "EndpointCfg \<Rightarrow> RequestEnv \<Rightarrow> bytes \<Rightarrow> 'm Cache \<Rightarrow> 'm Endpoint \<Rightarrow>
    'm Endpoint + nat \<times> bool \<times> 'm Cache \<times> 'm Endpoint" where
  "serve_one cfg env buf cache S =
     (let h0 = hdr_of_bytes buf; h = ntoh h0; len = kHeaderSize + unat (bodyLen h)
      in if length buf < kHeaderSize \<or> magic h0 \<noteq> kRequestMagic \<or> opcode_of (opcode h0) \<noteq> Some OpGet then Inl S
         else if length buf < len \<or> unat (extrasLen h) + unat (keyLen h) > unat (bodyLen h) then Inl S
         else let key = take (unat (keyLen h)) (drop (kHeaderSize + unat (extrasLen h)) buf);
                  (res, doc, val, cache) = GetCopy (ec_hash cfg) cache (specific h) key kScratch;
                  S = S\<lparr>ep_cache := Some cache\<rparr>
              in if res \<noteq> Hit \<and> res \<noteq> Tombstone then Inl S
                 else let d = the doc;
                          out = cn_pending (ep_conn S);
                          out = (if res = Hit
                                 then appendGetResponse out (opaque h) (cd_seqno d) (cd_flags d) (Some val) (length val) (cd_datatype d)
                                 else appendEmptyResponse out (opcode h) KeyNotFound (opaque h) 0);
                          S = on_conn (\<lambda>c. c\<lparr>cn_pending := out\<rparr>) S;
                          S = (if cn_flushScheduled (ep_conn S) then S
                               else on_conn (scheduleFlush (ec_send cfg) (rv_send env)) S)
                      in Inr (len, length (cn_pending (ep_conn S)) \<ge> sc_flushBytes (ec_send cfg), cache, S))"

lemma serve_one_len:
  assumes "serve_one cfg env buf cache S = Inr (len, full, cache', S')"
  shows "kHeaderSize \<le> len \<and> len \<le> length buf"
  using assms by (auto simp: serve_one_def Let_def split: if_splits prod.splits)

function serve_run :: "EndpointCfg \<Rightarrow> RequestEnv \<Rightarrow> bytes \<Rightarrow> nat \<Rightarrow> 'm Cache \<Rightarrow> 'm Endpoint \<Rightarrow> nat \<times> 'm Endpoint" where
  "serve_run cfg env buf off cache S =
     (case serve_one cfg env buf cache S of
        Inl S \<Rightarrow> (off, S)
      | Inr (len, full, cache, S) \<Rightarrow>
          if full then (off + len, S) else serve_run cfg env (drop len buf) (off + len) cache S)"
  by pat_completeness auto
termination
  by (relation "measure (\<lambda>(cfg, env, buf, off, cache, S). length buf)")
    (auto dest!: serve_one_len simp: kHeaderSize_def)

declare serve_run.simps [simp del]

definition serveCachedGets :: "EndpointCfg \<Rightarrow> RequestEnv \<Rightarrow> 'm Cache \<Rightarrow> 'm Endpoint \<Rightarrow> nat \<times> 'm Endpoint" where
  "serveCachedGets cfg env cache S =
     (let (off, S) = serve_run cfg env (take (rv_front env) (ep_readBuf S)) 0 cache S
      in if off > 0
         then (off, on_conn (scheduleFlush (ec_send cfg) (rv_send env)) (S\<lparr>ep_readBuf := drop off (ep_readBuf S)\<rparr>))
         else (off, S))"

text \<open>Consuming one whole request and handling it.\<close>

definition generic_request :: "EndpointCfg \<Rightarrow> RequestEnv \<Rightarrow> McbpHeader \<Rightarrow> 'm Endpoint \<Rightarrow> 'm Endpoint option" where
  "generic_request cfg env h S =
     (let n = unat (bodyLen h); body = (if n > 0 then Some (take n (drop kHeaderSize (ep_readBuf S))) else None)
      in dispatch cfg env h body (S\<lparr>ep_readBuf := drop (kHeaderSize + n) (ep_readBuf S)\<rparr>))"

definition refuse_input :: "RequestEnv \<Rightarrow> 'm Endpoint \<Rightarrow> 'm Endpoint" where
  "refuse_input env S = on_conn (Conn_Send.destroy (rv_send env)) (S\<lparr>ep_readBuf := []\<rparr>)"

definition parseAndDispatch :: "EndpointCfg \<Rightarrow> RequestEnv \<Rightarrow> 'm Endpoint \<Rightarrow> (bool \<times> 'm Endpoint) option" where
  "parseAndDispatch cfg env S =
     (if length (ep_readBuf S) < kHeaderSize then Some (False, S)
      else let h0 = hdr_of_bytes (ep_readBuf S)
           in if magic h0 \<noteq> kRequestMagic \<or> opcode_of (opcode h0) = None then Some (False, refuse_input env S)
              else let h = ntoh h0; totalLen = kHeaderSize + unat (bodyLen h); opc = the (opcode_of (opcode h0))
                   in if length (ep_readBuf S) < totalLen then Some (False, S)
                      else let (ok, S) = (if opc = OpSet then TakeWriteToken S else (True, S))
                           in if \<not> ok then Some (False, on_conn (\<lambda>c. c\<lparr>cn_stageFull := True\<rparr>) S)
                              else if opc = OpGet \<and> echoResponseBuf cfg \<noteq> []
                              then map_option (Pair True) (handleGet cfg env h None (S\<lparr>ep_readBuf := drop totalLen (ep_readBuf S)\<rparr>))
                              else if opc = OpGet \<and> ep_cache S \<noteq> None
                              then let (n, S) = serveCachedGets cfg env (the (ep_cache S)) S
                                   in if n > 0 then Some (True, S) else map_option (Pair True) (generic_request cfg env h S)
                              else map_option (Pair True) (generic_request cfg env h S))"

text \<open>The loop of a socket wake, with a bound on its rounds; each round that goes on consumes a request.\<close>

primrec parse_loop :: "nat \<Rightarrow> EndpointCfg \<Rightarrow> (nat \<Rightarrow> RequestEnv) \<Rightarrow> 'm Endpoint \<Rightarrow> 'm Endpoint option" where
  "parse_loop 0 cfg E S = None"
| "parse_loop (Suc n) cfg E S =
     (if cn_closing (ep_conn S) \<or> cn_stageFull (ep_conn S) then Some S
      else case parseAndDispatch cfg (E n) S of
             None \<Rightarrow> None
           | Some (False, S) \<Rightarrow> Some S
           | Some (True, S) \<Rightarrow> parse_loop n cfg E S)"

subsection \<open>Socket wakes and back-pressure\<close>

definition pauseForQueue :: "'m Endpoint \<Rightarrow> 'm Endpoint" where
  "pauseForQueue S =
     (let S = on_conn (\<lambda>c. c\<lparr>cn_stageFull := False\<rparr>) S; c = ep_conn S
      in if cn_closing c \<or> cn_migrating c \<or> cn_readPaused c \<or> cn_evb c = None then S
         else (on_conn (\<lambda>c. c\<lparr>cn_readPaused := True, cn_readCB := False, cn_resumeTimer := True\<rparr>) S)
                \<lparr>ep_pausedConns := ep_pausedConns S + 1\<rparr>)"

text \<open>The part every wake shares: handle what is buffered, hand the staged writes over, and stop reading
  when a write was refused.\<close>

definition handle_buffered :: "nat \<Rightarrow> EndpointCfg \<Rightarrow> (nat \<Rightarrow> RequestEnv) \<Rightarrow> 'm Endpoint \<Rightarrow> 'm Endpoint option" where
  "handle_buffered n cfg E S =
     (case parse_loop n cfg E S of
        None \<Rightarrow> None
      | Some S \<Rightarrow> let S = flush_staged S in Some (if cn_stageFull (ep_conn S) then pauseForQueue S else S))"

text \<open>Bytes arrive. The pump of the loop's mailbox that a wake also arms is modelled with the event loops.\<close>

definition readDataAvailable :: "nat \<Rightarrow> EndpointCfg \<Rightarrow> (nat \<Rightarrow> RequestEnv) \<Rightarrow> SendEnv \<Rightarrow> bytes \<Rightarrow> 'm Endpoint \<Rightarrow> 'm Endpoint option" where
  "readDataAvailable n cfg E env arrived S =
     (case handle_buffered n cfg E (S\<lparr>ep_readBuf := ep_readBuf S @ arrived\<rparr>) of
        None \<Rightarrow> None
      | Some S \<Rightarrow>
          Some (if sc_flushDelayUs (ec_send cfg) > 0
                then if cn_pending (ep_conn S) \<noteq> [] then on_conn (scheduleFlush (ec_send cfg) env) S else S
                else on_conn (flushPending (ec_send cfg) env) S))"

definition resumeAfterQueue :: "nat \<Rightarrow> EndpointCfg \<Rightarrow> (nat \<Rightarrow> RequestEnv) \<Rightarrow> SendEnv \<Rightarrow> 'm Endpoint \<Rightarrow> 'm Endpoint option" where
  "resumeAfterQueue n cfg E env S =
     (let c = ep_conn S; unpause = (\<lambda>S. (on_conn (\<lambda>c. c\<lparr>cn_readPaused := False\<rparr>) S)\<lparr>ep_pausedConns := ep_pausedConns S - 1\<rparr>)
      in if \<not> cn_readPaused c then Some S
         else if cn_closing c \<or> cn_migrating c then Some (unpause S)
         else if \<not> WriteQueueHasRoom cfg S then Some (on_conn (\<lambda>c. c\<lparr>cn_resumeTimer := True\<rparr>) S)
         else case handle_buffered n cfg E (on_conn (\<lambda>c. c\<lparr>cn_readCB := True\<rparr>) (unpause S)) of
                None \<Rightarrow> None
              | Some S \<Rightarrow> Some (on_conn (flushPending (ec_send cfg) env) S))"

definition resumeTimeoutExpired :: "nat \<Rightarrow> EndpointCfg \<Rightarrow> (nat \<Rightarrow> RequestEnv) \<Rightarrow> SendEnv \<Rightarrow> 'm Endpoint \<Rightarrow> 'm Endpoint option" where
  "resumeTimeoutExpired n cfg E env S =
     resumeAfterQueue n cfg E env (on_conn (\<lambda>c. c\<lparr>cn_resumeTimer := False\<rparr>) S)"

subsection \<open>Well-formed input\<close>

lemma on_conn_fields [simp]:
  "ep_conn (on_conn f S) = f (ep_conn S)" "ep_readBuf (on_conn f S) = ep_readBuf S" "ep_cache (on_conn f S) = ep_cache S"
  "ep_staging (on_conn f S) = ep_staging S" "ep_queues (on_conn f S) = ep_queues S" "ep_reads (on_conn f S) = ep_reads S"
  "ep_limited (on_conn f S) = ep_limited S" "ep_tokens (on_conn f S) = ep_tokens S" "ep_recycled (on_conn f S) = ep_recycled S"
  "ep_free (on_conn f S) = ep_free S" "ep_pausedConns (on_conn f S) = ep_pausedConns S" "ep_scramNonce (on_conn f S) = ep_scramNonce S"
  "ep_scramPassword (on_conn f S) = ep_scramPassword S" "ep_scramAuth (on_conn f S) = ep_scramAuth S"
  by (simp_all add: on_conn_def)

lemma upd_req_fields [simp]:
  "ep_readBuf (upd_req r f S) = ep_readBuf S" "ep_cache (upd_req r f S) = ep_cache S" "ep_staging (upd_req r f S) = ep_staging S"
  "ep_queues (upd_req r f S) = ep_queues S" "ep_reads (upd_req r f S) = ep_reads S"
  "req_of (upd_req r f S) x = (if x = r then f (req_of S r) else req_of S x)"
  by (simp_all add: upd_req_def req_of_def)

text \<open>A request whose lengths agree with its body and whose vbucket exists, as the protocol asks; a GET
  has a key.\<close>

definition request_ok :: "McbpHeader \<Rightarrow> bool" where
  "request_ok h \<longleftrightarrow> unat (extrasLen h) + unat (keyLen h) \<le> unat (bodyLen h) \<and> unat (specific h) < kMaxVBuckets \<and>
     (opcode_of (opcode h) = Some OpGet \<longrightarrow> keyLen h \<noteq> 0)"

definition framed :: "bytes \<Rightarrow> bool" where
  "framed b \<longleftrightarrow> kHeaderSize \<le> length b \<and> magic (hdr_of_bytes b) = kRequestMagic \<and> opcode_of (opcode (hdr_of_bytes b)) \<noteq> None \<and>
     kHeaderSize + unat (bodyLen (ntoh (hdr_of_bytes b))) \<le> length b"

function well_formed :: "bytes \<Rightarrow> bool" where
  "well_formed b \<longleftrightarrow>
     (if framed b
      then request_ok (ntoh (hdr_of_bytes b)) \<and> well_formed (drop (kHeaderSize + unat (bodyLen (ntoh (hdr_of_bytes b)))) b) else True)"
  by pat_completeness auto
termination
  by (relation "measure length") (auto simp: framed_def kHeaderSize_def)

declare well_formed.simps [simp del]

lemma ntoh_same [simp]: "opcode (ntoh h) = opcode h" "extrasLen (ntoh h) = extrasLen h" "opaque (ntoh h) = opaque h"
  "dataType (ntoh h) = dataType h" "magic (ntoh h) = magic h"
  by (simp_all add: ntoh_def)

lemma value_len:
  assumes "unat (extrasLen h) + unat (keyLen h) \<le> unat (bodyLen h)"
  shows "unat (bodyLen h - ucast (extrasLen h) - ucast (keyLen h)) = unat (bodyLen h) - unat (extrasLen h) - unat (keyLen h)"
proof -
  have e: "unat (ucast (extrasLen h) :: u32) = unat (extrasLen h)" "unat (ucast (keyLen h) :: u32) = unat (keyLen h)"
    using unsigned_less [of "extrasLen h", where 'a = nat] unsigned_less [of "keyLen h", where 'a = nat]
    by (simp_all add: unsigned_ucast_eq take_bit_nat_eq_self)
  note le = assms
  have "(ucast (extrasLen h) :: u32) \<le> bodyLen h" using le e by (simp add: word_le_nat_alt)
  then have 1: "unat (bodyLen h - ucast (extrasLen h)) = unat (bodyLen h) - unat (extrasLen h)" using e by (simp add: unat_sub)
  have "(ucast (keyLen h) :: u32) \<le> bodyLen h - ucast (extrasLen h)" using le 1 e by (simp add: word_le_nat_alt)
  then show ?thesis using 1 e by (simp add: unat_sub)
qed

lemma fill_set_ok:
  assumes "request_ok h" and "body = None \<or> (\<exists>b. body = Some b \<and> length b = unat (bodyLen h))"
  shows "\<exists>q'. fill_set h body q = Some q' \<and> rq_vbucket q' = specific h"
proof (cases body)
  case None
  then show ?thesis by (simp add: fill_set_def fill_header_def)
next
  case (Some b)
  then have b: "length b = unat (bodyLen h)" using assms(2) by simp
  have le: "unat (extrasLen h) + unat (keyLen h) \<le> unat (bodyLen h)" using assms(1) by (simp add: request_ok_def)
  then show ?thesis using Some b value_len [OF le] by (simp add: fill_set_def fill_header_def slice_at_def Let_def)
qed

lemma fill_key_ok:
  assumes "request_ok h" and "body = None \<or> (\<exists>b. body = Some b \<and> length b = unat (bodyLen h))"
  shows "\<exists>q'. fill_key h i body q = Some q' \<and> rq_vbucket q' = rq_vbucket q"
proof (cases body)
  case (Some b)
  then show ?thesis using assms by (auto simp: request_ok_def fill_key_def slice_at_def Let_def)
qed (simp add: fill_key_def)

lemma acquire_readBuf: "acquireRequest env S = (r, S') \<Longrightarrow> ep_readBuf S' = ep_readBuf S"
  by (auto simp: acquireRequest_def Let_def split: if_splits)

lemma acquire_vb_readBuf: "acquireRequest_vb cfg env v S = (r, S') \<Longrightarrow> ep_readBuf S' = ep_readBuf S"
  using acquire_readBuf [of env _ r S']
  by (fastforce simp: acquireRequest_vb_def Let_def split: if_splits option.splits prod.splits)

lemma stage_ok:
  assumes "unat (rq_vbucket (req_of S r)) < kMaxVBuckets"
  shows "\<exists>ok S'. stage cfg r S = Some (ok, S') \<and> ep_readBuf S' = ep_readBuf S"
  using assms by (auto simp: stage_def Let_def split: prod.splits)

lemma submit_write_ok:
  assumes "unat (rq_vbucket (req_of S r)) < kMaxVBuckets"
  shows "\<exists>S'. submit_write cfg env h r stops S = Some S' \<and> ep_readBuf S' = ep_readBuf S"
proof (cases "ec_durable cfg")
  case True
  define T where "T = on_conn (\<lambda>c. c\<lparr>cn_outstanding := cn_outstanding c + 1,
      cn_holds := (case cn_owner c of Some t \<Rightarrow> (cn_holds c)(t := cn_holds c t + 1) | None \<Rightarrow> cn_holds c)\<rparr>)
      (upd_req r (\<lambda>q. q\<lparr>rq_conn := Some (ec_self cfg), rq_evb := cn_evb (ep_conn S), rq_ioOwner := cn_owner (ep_conn S)\<rparr>) S)"
  have "unat (rq_vbucket (req_of T r)) < kMaxVBuckets" using assms by (simp add: T_def req_of_def upd_req_def)
  from stage_ok [OF this, of cfg] obtain ok S' where s: "stage cfg r T = Some (ok, S')" "ep_readBuf S' = ep_readBuf T" by blast
  have b: "ep_readBuf T = ep_readBuf S" by (simp add: T_def)
  show ?thesis using True s b by (cases ok) (simp_all add: submit_write_def Let_def T_def [symmetric] cache_erase_def)
next
  case False
  from stage_ok [OF assms, of cfg] obtain ok S' where s: "stage cfg r S = Some (ok, S')" "ep_readBuf S' = ep_readBuf S" by blast
  show ?thesis using False s by (cases ok) (simp_all add: submit_write_def Let_def cache_erase_def)
qed

lemma handleSet_ok:
  assumes "request_ok h" and "body = None \<or> (\<exists>b. body = Some b \<and> length b = unat (bodyLen h))"
  shows "\<exists>S'. handleSet cfg env h body S = Some S' \<and> ep_readBuf S' = ep_readBuf S"
proof -
  obtain r T where a: "acquireRequest_vb cfg env (specific h) S = (r, T)" by force
  obtain q where q: "fill_set h body (req_of T r) = Some q" "rq_vbucket q = specific h" using fill_set_ok [OF assms] by blast
  define U where "U = cache_write cfg env q (upd_req r (\<lambda>_. q) T)"
  have "req_of U r = q" "ep_readBuf U = ep_readBuf S"
    using acquire_vb_readBuf [OF a] by (simp_all add: U_def cache_write_def req_of_def upd_req_def)
  then have "unat (rq_vbucket (req_of U r)) < kMaxVBuckets" using q(2) assms(1) by (simp add: request_ok_def)
  from submit_write_ok [OF this, of cfg env h True] show ?thesis using \<open>ep_readBuf U = ep_readBuf S\<close>
    by (simp add: handleSet_def a q(1) U_def)
qed

lemma handleDelete_ok:
  assumes "request_ok h" and "body = None \<or> (\<exists>b. body = Some b \<and> length b = unat (bodyLen h))"
  shows "\<exists>S'. handleDelete cfg env h body S = Some S' \<and> ep_readBuf S' = ep_readBuf S"
proof -
  obtain r T where a: "acquireRequest env S = (r, T)" by force
  obtain q where q: "fill_key h False body (fill_header h (req_of T r)) = Some q" "rq_vbucket q = specific h"
    using fill_key_ok [OF assms, of False "fill_header h (req_of T r)"] by (auto simp: fill_header_def)
  define U where "U = cache_delete cfg env q (upd_req r (\<lambda>_. q) T)"
  have "req_of U r = q" "ep_readBuf U = ep_readBuf S"
    using acquire_readBuf [OF a] by (simp_all add: U_def cache_delete_def req_of_def upd_req_def)
  then have "unat (rq_vbucket (req_of U r)) < kMaxVBuckets" using q(2) assms(1) by (simp add: request_ok_def)
  from submit_write_ok [OF this, of cfg env h False] show ?thesis using \<open>ep_readBuf U = ep_readBuf S\<close>
    by (simp add: handleDelete_def a q(1) U_def)
qed

lemma queue_get_ok:
  assumes "request_ok h" and "body = None \<or> (\<exists>b. body = Some b \<and> length b = unat (bodyLen h))"
  shows "\<exists>S'. queue_get cfg env h body S = Some S' \<and> ep_readBuf S' = ep_readBuf S"
proof -
  define S1 where "S1 = on_conn (\<lambda>c. c\<lparr>cn_outstanding := cn_outstanding c + 1\<rparr>) S"
  obtain r T where a: "acquireRequest env S1 = (r, T)" by force
  let ?q = "(req_of T r)\<lparr>rq_opcode := opcode h, rq_vbucket := specific h, rq_opaque := opaque h,
      rq_conn := Some (ec_self cfg), rq_evb := cn_evb (ep_conn T)\<rparr>"
  obtain q where q: "fill_key h True body ?q = Some q" "rq_vbucket q = specific h"
    using fill_key_ok [OF assms, of True ?q] by auto
  define U where "U = upd_req r (\<lambda>_. q) T"
  have u: "req_of U r = q" "ep_readBuf U = ep_readBuf S" using acquire_readBuf [OF a] by (simp_all add: U_def S1_def)
  have "unat (rq_vbucket (req_of U r)) < kMaxVBuckets" using q(2) assms(1) u(1) by (simp add: request_ok_def)
  then have "\<exists>S'. enqueue_read cfg r U = Some S' \<and> ep_readBuf S' = ep_readBuf U"
    by (auto simp: enqueue_read_def split: prod.splits)
  then show ?thesis using u(2) by (simp add: queue_get_def S1_def [symmetric] a q(1) U_def Let_def)
qed

lemma handleGet_ok:
  assumes "request_ok h" and "body = None \<or> (\<exists>b. body = Some b \<and> length b = unat (bodyLen h))"
  shows "\<exists>S'. handleGet cfg env h body S = Some S' \<and> ep_readBuf S' = ep_readBuf S"
proof (cases "echoResponseBuf cfg = [] \<and> ep_cache S \<noteq> None \<and> body \<noteq> None")
  case False
  then show ?thesis using queue_get_ok [OF assms] by (auto simp: handleGet_def split: option.splits)
next
  case True
  then obtain c b where cb: "ep_cache S = Some c" "body = Some b" by auto
  then have "unat (extrasLen h) + unat (keyLen h) \<le> length b" using assms by (auto simp: request_ok_def)
  then obtain k where k: "slice_at b (unat (extrasLen h)) (unat (keyLen h)) = Some k" by (simp add: slice_at_def)
  obtain d c' where g: "Get (ec_hash cfg) c (specific h) k = (d, c')" by force
  obtain T where "queue_get cfg env h body (S\<lparr>ep_cache := Some c'\<rparr>) = Some T" "ep_readBuf T = ep_readBuf S"
    using queue_get_ok [OF assms, of cfg env "S\<lparr>ep_cache := Some c'\<rparr>"] by auto
  then show ?thesis using True cb k g by (cases d) (simp_all add: handleGet_def)
qed

lemma dispatch_ok:
  assumes "request_ok h" and "body = None \<or> (\<exists>b. body = Some b \<and> length b = unat (bodyLen h))"
  shows "\<exists>S'. dispatch cfg env h body S = Some S' \<and> ep_readBuf S' = ep_readBuf S"
proof -
  have p: "sasl_parts h body \<noteq> None" using assms by (auto simp: sasl_parts_def request_ok_def Let_def split: option.splits)
  have "\<exists>S'. handleSaslAuth cfg env h body S = Some S' \<and> ep_readBuf S' = ep_readBuf S"
    using p by (auto simp: handleSaslAuth_def respond_def respond_empty_def Let_def split: option.splits)
  moreover have "\<exists>S'. handleSaslStep cfg env h body S = Some S' \<and> ep_readBuf S' = ep_readBuf S"
    using p by (auto simp: handleSaslStep_def respond_def Let_def split: option.splits)
  ultimately show ?thesis
    using handleSet_ok [OF assms, of cfg env S] handleDelete_ok [OF assms, of cfg env S] handleGet_ok [OF assms, of cfg env S]
    by (simp add: dispatch_def handleHello_def handleSaslListMechs_def handleSelectBucket_def handleGetClusterConfig_def
        handleGetErrorMap_def handleNoop_def sendUnknownCommand_def respond_def respond_empty_def split: option.splits Opcode.splits)
qed

subsection \<open>The run of cached GETs\<close>

lemma hdr_prefix: "kHeaderSize \<le> length b \<Longrightarrow> hdr_of_bytes (b @ r) = hdr_of_bytes b"
proof -
  assume "kHeaderSize \<le> length b"
  then have l: "length (take kHeaderSize b) = kHeaderSize" by simp
  have "hdr_of_bytes (take kHeaderSize b @ x) = hdr_of_bytes (take kHeaderSize b)" for x
    using hdr_of_bytes_append [of "hdr_of_bytes (take kHeaderSize b)" x] hdr_bytes_of_bytes [OF l] by simp
  then show ?thesis by (metis append.assoc append_take_drop_id)
qed

lemma framed_prefix: "framed b \<Longrightarrow> framed (b @ r)" "framed b \<Longrightarrow> hdr_of_bytes (b @ r) = hdr_of_bytes b"
  by (auto simp: framed_def hdr_prefix)

text \<open>What \<open>GetCopy\<close> finds, \<open>Get\<close> finds, and both leave the cache alike.\<close>

lemma GetCopy_Get:
  assumes "GetCopy hf c v k n = (res, doc, val, c')" and "res = Hit \<or> res = Tombstone"
  shows "\<exists>d. Get hf c v k = (Some d, c') \<and> cd_deleted d = (res = Tombstone) \<and> cd_seqno (the doc) = cd_seqno d \<and>
    cd_flags (the doc) = cd_flags d \<and> cd_datatype (the doc) = cd_datatype d \<and> (res = Hit \<longrightarrow> val = cd_value d)"
proof -
  define i where "i = shardFor c (hf v k)"
  obtain s where s: "sh_getCopy hf (c_shards c ! i) v k n = (res, doc, val, s)"
    using assms(1) by (auto simp: GetCopy_def Let_def i_def split: prod.splits)
  then obtain a where a: "sh_find (c_shards c ! i) (hf v k) (map_key v k) = Some a"
    using assms(2) by (cases "sh_find (c_shards c ! i) (hf v k) (map_key v k)") (auto simp: sh_getCopy_def)
  define e where "e = ent (sh_heap (touch (c_shards c ! i) a)) a"
  have "s = touch (c_shards c ! i) a" "the doc = (doc_of e)\<lparr>cd_value := []\<rparr>" "(res = Tombstone) = e_deleted e" "res = Hit \<longrightarrow> val = e_value e"
    using s a assms(2) by (auto simp: sh_getCopy_def Let_def e_def split: if_splits)
  moreover have "c' = upd_stats (set_shard c i s) (if res = Tombstone then tombstone_stat else hit_stat)"
    using assms s by (auto simp: GetCopy_def Let_def i_def)
  moreover have "Get hf c v k = (Some (doc_of e), upd_stats (set_shard c i (touch (c_shards c ! i) a))
      (if cd_deleted (doc_of e) then tombstone_stat else hit_stat))"
    using a by (simp add: Get_def sh_get_def i_def [symmetric] e_def Let_def)
  ultimately show ?thesis by (simp add: doc_of_def)
qed

lemma serve_one_spec:
  assumes "serve_one cfg env buf cache S = Inr (len, full, cache', S')"
  defines "h \<equiv> ntoh (hdr_of_bytes buf)"
  shows "framed buf \<and> opcode_of (opcode h) = Some OpGet \<and> len = kHeaderSize + unat (bodyLen h) \<and>
    unat (extrasLen h) + unat (keyLen h) \<le> unat (bodyLen h) \<and>
    (\<exists>d. Get (ec_hash cfg) cache (specific h) (take (unat (keyLen h)) (drop (kHeaderSize + unat (extrasLen h)) buf)) = (Some d, cache') \<and>
       (let T = on_conn (cached_reply h d) (S\<lparr>ep_cache := Some cache'\<rparr>)
        in S' = (if cn_flushScheduled (ep_conn S) then T else on_conn (scheduleFlush (ec_send cfg) (rv_send env)) T)))"
proof -
  define key where "key = take (unat (keyLen h)) (drop (kHeaderSize + unat (extrasLen h)) buf)"
  obtain res doc val c where g: "GetCopy (ec_hash cfg) cache (specific h) key kScratch = (res, doc, val, c)" by (metis prod_cases4)
  have f: "kHeaderSize \<le> length buf" "magic (hdr_of_bytes buf) = kRequestMagic" "opcode_of (opcode h) = Some OpGet"
      "kHeaderSize + unat (bodyLen h) \<le> length buf" "unat (extrasLen h) + unat (keyLen h) \<le> unat (bodyLen h)"
      "len = kHeaderSize + unat (bodyLen h)" "res = Hit \<or> res = Tombstone" "cache' = c"
    using assms(1) g by (auto simp: serve_one_def Let_def h_def [symmetric] key_def [symmetric] split: if_splits)
      (auto simp: h_def)
  obtain d where d: "Get (ec_hash cfg) cache (specific h) key = (Some d, c)" "cd_deleted d = (res = Tombstone)"
      "cd_seqno (the doc) = cd_seqno d" "cd_flags (the doc) = cd_flags d" "cd_datatype (the doc) = cd_datatype d"
      "res = Hit \<longrightarrow> val = cd_value d"
    using GetCopy_Get [OF g f(7)] by blast
  define out where "out = (if res = Hit
      then appendGetResponse (cn_pending (ep_conn S)) (opaque h) (cd_seqno d) (cd_flags d) (Some val) (length val) (cd_datatype d)
      else appendEmptyResponse (cn_pending (ep_conn S)) (opcode h) KeyNotFound (opaque h) 0)"
  have "(\<lambda>c. c\<lparr>cn_pending := out\<rparr>) (ep_conn S) = cached_reply h d (ep_conn S)"
    using d(2,6) f(7) by (auto simp: out_def cached_reply_def)
  then have o: "on_conn (\<lambda>c. c\<lparr>cn_pending := out\<rparr>) (S\<lparr>ep_cache := Some c\<rparr>) = on_conn (cached_reply h d) (S\<lparr>ep_cache := Some c\<rparr>)"
    by (simp add: on_conn_def)
  have fl: "cn_flushScheduled (cached_reply h' d x) = cn_flushScheduled x" for h' x by (simp add: cached_reply_def)
  have "S' = (let T = on_conn (\<lambda>c. c\<lparr>cn_pending := out\<rparr>) (S\<lparr>ep_cache := Some c\<rparr>)
      in if cn_flushScheduled (ep_conn T) then T else on_conn (scheduleFlush (ec_send cfg) (rv_send env)) T)"
    using assms(1) g f d(3-5) by (auto simp: serve_one_def Let_def h_def [symmetric] key_def [symmetric] out_def split: if_splits)
  then show ?thesis using f d(1) unfolding o by (simp add: framed_def h_def key_def Let_def fl)
qed

text \<open>The same requests handled one by one by the generic path.\<close>

fun generic_gets :: "nat \<Rightarrow> EndpointCfg \<Rightarrow> RequestEnv \<Rightarrow> 'm Endpoint \<Rightarrow> 'm Endpoint option" where
  "generic_gets 0 cfg env S = Some S"
| "generic_gets (Suc k) cfg env S =
     (case generic_request cfg env (ntoh (hdr_of_bytes (ep_readBuf S))) S of None \<Rightarrow> None | Some S \<Rightarrow> generic_gets k cfg env S)"

lemma generic_get:
  assumes "framed B" and "request_ok h" and "opcode_of (opcode h) = Some OpGet" and "echoResponseBuf cfg = []"
    and "ep_cache T = Some c" and "ep_readBuf T = B"
    and g: "Get (ec_hash cfg) c (specific h) (take (unat (keyLen h)) (drop (kHeaderSize + unat (extrasLen h)) B)) = (Some d, c')"
    and h: "h = ntoh (hdr_of_bytes B)"
  shows "generic_request cfg env h T =
    Some (on_conn (cached_reply h d) (T\<lparr>ep_readBuf := drop (kHeaderSize + unat (bodyLen h)) B, ep_cache := Some c'\<rparr>))"
proof -
  define n where "n = unat (bodyLen h)"
  define b where "b = take n (drop kHeaderSize B)"
  have r: "unat (extrasLen h) + unat (keyLen h) \<le> n" "keyLen h \<noteq> 0" using assms(2,3) by (simp_all add: request_ok_def n_def)
  have "0 < unat (keyLen h)" using r(2) by (simp add: unat_gt_0)
  then have n: "0 < n" using r(1) by simp
  have "kHeaderSize + n \<le> length B" using assms(1) h by (simp add: framed_def n_def)
  then have lb: "length b = n" by (simp add: b_def)
  have "take (unat (keyLen h)) (drop (unat (extrasLen h)) b) =
      take (unat (keyLen h)) (drop (unat (extrasLen h)) (drop kHeaderSize B))"
    unfolding b_def drop_take take_take using r(1) by (simp add: min_def)
  then have s: "slice_at b (unat (extrasLen h)) (unat (keyLen h)) =
      Some (take (unat (keyLen h)) (drop (kHeaderSize + unat (extrasLen h)) B))"
    using r(1) lb by (simp add: slice_at_def add.commute)
  show ?thesis
    using n s g assms(3-6)
    by (simp add: generic_request_def n_def [symmetric] b_def [symmetric] dispatch_def handleGet_def)
qed

definition unflagged :: "Connection \<Rightarrow> Connection" where
  "unflagged c = c\<lparr>cn_flushScheduled := False, cn_flushTimer := False, cn_flushCb := False\<rparr>"

lemma unflagged_reply: "unflagged c = unflagged c' \<Longrightarrow> unflagged (cached_reply h d c) = unflagged (cached_reply h d c')"
  by (cases c; cases c') (simp add: unflagged_def cached_reply_def)

lemma unflagged_arm: "\<not> cn_flushScheduled c \<Longrightarrow> unflagged (scheduleFlush cfg env c) = unflagged c"
  by (simp add: scheduleFlush_def unflagged_def)

text \<open>The fast path's state and the generic path's: the same but for the buffer, which the fast path
  trims at the end, and the flush flags.\<close>

definition alike :: "'m Endpoint \<Rightarrow> 'm Endpoint \<Rightarrow> bool" where
  "alike S T \<longleftrightarrow> T\<lparr>ep_conn := ep_conn S, ep_readBuf := ep_readBuf S\<rparr> = S \<and> unflagged (ep_conn T) = unflagged (ep_conn S)"

lemma alike_cache: "alike S T \<Longrightarrow> ep_cache T = ep_cache S"
  unfolding alike_def by (metis Endpoint.select_convs(10) Endpoint.surjective Endpoint.update_convs(1,2))

text \<open>The cache after a lookup that gave the fast path nothing to answer with.\<close>

definition declined :: "hashfn \<Rightarrow> 'm Cache \<Rightarrow> 'm Cache option \<Rightarrow> bool" where
  "declined hf c c' \<longleftrightarrow> (\<exists>v key res doc val c1. GetCopy hf c v key kScratch = (res, doc, val, c1) \<and>
     (res = Miss \<or> res = TooLarge) \<and> c' = Some c1)"

lemma serve_one_stop:
  assumes "serve_one cfg env buf cache S = Inl S'"
  shows "S' = S \<or> (\<exists>c. declined (ec_hash cfg) cache (Some c) \<and> S' = S\<lparr>ep_cache := Some c\<rparr>)"
proof -
  define h where "h = ntoh (hdr_of_bytes buf)"
  define key where "key = take (unat (keyLen h)) (drop (kHeaderSize + unat (extrasLen h)) buf)"
  obtain res doc val c where g: "GetCopy (ec_hash cfg) cache (specific h) key kScratch = (res, doc, val, c)" by (metis prod_cases4)
  have "S' = S \<or> (res \<noteq> Hit \<and> res \<noteq> Tombstone \<and> S' = S\<lparr>ep_cache := Some c\<rparr>)"
    using assms by (auto simp: serve_one_def Let_def h_def [symmetric] key_def [symmetric] g split: if_splits)
  moreover have "res \<noteq> Hit \<and> res \<noteq> Tombstone \<longrightarrow> declined (ec_hash cfg) cache (Some c)"
    unfolding declined_def using g by (cases res) blast+
  ultimately show ?thesis by blast
qed

lemma well_formed_next:
  assumes "well_formed B" and "framed B"
  shows "request_ok (ntoh (hdr_of_bytes B))" and "well_formed (drop (kHeaderSize + unat (bodyLen (ntoh (hdr_of_bytes B)))) B)"
  using assms well_formed.simps [of B] by simp_all

lemma alike_served:
  assumes "alike S T"
    and S': "S' = (let U = on_conn (cached_reply h d) (S\<lparr>ep_cache := Some c\<rparr>)
        in if cn_flushScheduled (ep_conn S) then U else on_conn (scheduleFlush cfg env) U)"
  shows "alike S' (on_conn (cached_reply h d) (T\<lparr>ep_readBuf := B, ep_cache := Some c\<rparr>))" and "ep_readBuf S' = ep_readBuf S"
    and "ep_cache S' = Some c"
proof -
  show b: "ep_readBuf S' = ep_readBuf S" "ep_cache S' = Some c" by (simp_all add: S' Let_def)
  have e: "S' = S\<lparr>ep_cache := Some c, ep_conn := ep_conn S'\<rparr>" by (cases S) (simp add: S' Let_def on_conn_def)
  have "T\<lparr>ep_conn := ep_conn S, ep_readBuf := ep_readBuf S\<rparr> = S" using assms(1) by (simp add: alike_def)
  then have "(on_conn (cached_reply h d) (T\<lparr>ep_readBuf := B, ep_cache := Some c\<rparr>))\<lparr>ep_conn := ep_conn S', ep_readBuf := ep_readBuf S'\<rparr> =
      S\<lparr>ep_cache := Some c, ep_conn := ep_conn S'\<rparr>"
    unfolding b by (cases S; cases T) (simp add: on_conn_def)
  moreover have "unflagged (cached_reply h d (ep_conn T)) = unflagged (ep_conn S')"
  proof -
    have "unflagged (cached_reply h d (ep_conn T)) = unflagged (cached_reply h d (ep_conn S))"
      using assms(1) unflagged_reply by (metis alike_def)
    also have "\<dots> = unflagged (ep_conn S')"
      using unflagged_arm [of "cached_reply h d (ep_conn S)" cfg env] by (simp add: S' Let_def cached_reply_def)
    finally show ?thesis .
  qed
  ultimately show "alike S' (on_conn (cached_reply h d) (T\<lparr>ep_readBuf := B, ep_cache := Some c\<rparr>))"
    unfolding alike_def using e by simp
qed

lemma serve_run_generic:
  assumes "serve_run cfg env buf off cache S = (off', S')" and "ep_cache S = Some cache" and "echoResponseBuf cfg = []"
    and "alike S T" and "ep_readBuf T = buf @ R" and "well_formed (buf @ R)"
  shows "\<exists>k T' c. generic_gets k cfg env T = Some T' \<and> off \<le> off' \<and> off' - off \<le> length buf \<and> (k = 0 \<longleftrightarrow> off' = off) \<and>
    ep_readBuf T' = drop (off' - off) (buf @ R) \<and> well_formed (ep_readBuf T') \<and> ep_readBuf S' = ep_readBuf S \<and>
    ep_cache T' = Some c \<and> alike (S'\<lparr>ep_cache := Some c\<rparr>) T' \<and>
    (ep_cache S' = Some c \<or> declined (ec_hash cfg) c (ep_cache S'))"
  using assms
proof (induction cfg env buf off cache S arbitrary: off' S' T rule: serve_run.induct)
  case (1 cfg env buf off cache S)
  show ?case
  proof (cases "serve_one cfg env buf cache S")
    case (Inl S1)
    then have e: "off' = off" "S' = S1" using "1.prems"(1) by (simp_all add: serve_run.simps)
    have c: "ep_cache T = Some cache" using alike_cache [OF "1.prems"(4)] "1.prems"(2) by simp
    have S1: "S1\<lparr>ep_cache := Some cache\<rparr> = S" "ep_readBuf S1 = ep_readBuf S"
      using serve_one_stop [OF Inl] "1.prems"(2) by (cases S; auto)+
    have "generic_gets 0 cfg env T = Some T" by simp
    moreover have "alike (S'\<lparr>ep_cache := Some cache\<rparr>) T" unfolding e(2) S1(1) by (rule "1.prems"(4))
    moreover have "ep_cache S' = Some cache \<or> declined (ec_hash cfg) cache (ep_cache S')"
      using serve_one_stop [OF Inl] "1.prems"(2) e(2) by auto
    ultimately show ?thesis using e c S1(2) "1.prems"(5,6) by fastforce
  next
    case (Inr x)
    obtain len full cache' S1 where x: "x = (len, full, cache', S1)" by (metis prod_cases4)
    define h where "h = ntoh (hdr_of_bytes buf)"
    note P = serve_one_spec [OF Inr [unfolded x], folded h_def]
    have fb: "framed buf" and len: "len = kHeaderSize + unat (bodyLen h)" "len \<le> length buf" using P by (auto simp: framed_def h_def)
    have hB: "h = ntoh (hdr_of_bytes (buf @ R))" "framed (buf @ R)" using framed_prefix [OF fb] by (simp_all add: h_def)
    note W = well_formed_next [OF "1.prems"(6) hB(2), folded hB(1)]
    obtain d where d: "Get (ec_hash cfg) cache (specific h) (take (unat (keyLen h)) (drop (kHeaderSize + unat (extrasLen h)) buf)) = (Some d, cache')"
      "S1 = (let U = on_conn (cached_reply h d) (S\<lparr>ep_cache := Some cache'\<rparr>)
        in if cn_flushScheduled (ep_conn S) then U else on_conn (scheduleFlush (ec_send cfg) (rv_send env)) U)"
      using P by (auto simp: Let_def)
    have "take (unat (keyLen h)) (drop (kHeaderSize + unat (extrasLen h)) (buf @ R)) =
        take (unat (keyLen h)) (drop (kHeaderSize + unat (extrasLen h)) buf)"
      using P len by simp
    note g = d(1) [folded this]
    define T1 where "T1 = on_conn (cached_reply h d) (T\<lparr>ep_readBuf := drop len (buf @ R), ep_cache := Some cache'\<rparr>)"
    have c: "ep_cache T = Some cache" using alike_cache [OF "1.prems"(4)] "1.prems"(2) by simp
    have oh: "opcode_of (opcode h) = Some OpGet" using P by blast
    have gr: "generic_request cfg env h T = Some T1"
      unfolding T1_def len(1) by (rule generic_get [OF hB(2) W(1) oh "1.prems"(3) c "1.prems"(5) g hB(1)])
    note A = alike_served(1) [OF "1.prems"(4) d(2), where B = "drop len (buf @ R)", folded T1_def]
      alike_served(2,3) [OF "1.prems"(4) d(2)]
    have T1b: "ep_readBuf T1 = drop len buf @ R" using len(2) by (simp add: T1_def)
    have T1c: "ep_cache T1 = Some cache'" by (simp add: T1_def)
    have wf: "well_formed (drop len buf @ R)" using W(2) len by simp
    have gg: "generic_gets (Suc k) cfg env T = generic_gets k cfg env T1" for k using gr "1.prems"(5) hB(1) by simp
    have lp: "0 < len" using len(1) by (simp add: kHeaderSize_def)
    show ?thesis
    proof (cases full)
      case True
      then have e: "off' = off + len" "S' = S1" using "1.prems"(1) Inr x by (simp_all add: serve_run.simps)
      have "S1\<lparr>ep_cache := Some cache'\<rparr> = S1" using A(3) by (cases S1) simp
      then have "alike (S'\<lparr>ep_cache := Some cache'\<rparr>) T1" using A(1) e(2) by metis
      then show ?thesis using e A(2,3) gg [of 0] T1b T1c wf len(2) lp
        by (intro exI [of _ "Suc 0"] exI [of _ T1] exI [of _ cache']) simp
    next
      case False
      then have r: "serve_run cfg env (drop len buf) (off + len) cache' S1 = (off', S')"
        using "1.prems"(1) Inr x by (simp add: serve_run.simps)
      obtain k T' c where I: "generic_gets k cfg env T1 = Some T'" "off + len \<le> off'" "off' - (off + len) \<le> length (drop len buf)"
        "ep_readBuf T' = drop (off' - (off + len)) (drop len buf @ R)" "well_formed (ep_readBuf T')" "ep_readBuf S' = ep_readBuf S1"
        "ep_cache T' = Some c" "alike (S'\<lparr>ep_cache := Some c\<rparr>) T'"
        "ep_cache S' = Some c \<or> declined (ec_hash cfg) c (ep_cache S')"
        using "1.IH" [OF Inr x [symmetric] refl refl False r A(3) "1.prems"(3) A(1) T1b wf] by blast
      have o: "off' - off = (off' - (off + len)) + len" using I(2) by simp
      have "drop (off' - off) (buf @ R) = drop (off' - (off + len)) (drop len buf @ R)"
        unfolding o drop_drop [symmetric] using len(2) by simp
      then have "ep_readBuf T' = drop (off' - off) (buf @ R)" using I(4) by simp
      moreover have "generic_gets (Suc k) cfg env T = Some T'" unfolding gg by (rule I(1))
      moreover have "off \<le> off'" "off' - off \<le> length buf" "Suc k = 0 \<longleftrightarrow> off' = off" using I(2,3) len(2) lp by auto
      moreover have "ep_readBuf S' = ep_readBuf S" using I(6) A(2) by simp
      ultimately show ?thesis using I(5,7-9) by blast
    qed
  qed
qed

text \<open>What the client will have received when all is flushed, and a connection on which no reader is
  sending.\<close>

definition client_output :: "Connection \<Rightarrow> bytes" where
  "client_output c = stream c @ cn_pending c"

definition settled :: "SendCfg \<Rightarrow> Connection \<Rightarrow> bool" where
  "settled cfg c \<longleftrightarrow> \<not> cn_closing c \<and> counted c \<and> (sc_directSend cfg \<or> cn_spill c = []) \<and> cn_sendPending c = []"

lemma schedule_output:
  assumes "settled cfg c" and "env_ok env"
  shows "client_output (scheduleFlush cfg env c) = client_output c"
proof -
  define d where "d = c\<lparr>cn_flushTimer := False, cn_flushScheduled := False\<rparr>"
  have "\<not> cn_closing d" "counted d" "sc_directSend cfg \<or> cn_spill d = []"
    using assms(1) by (simp_all add: settled_def d_def counted_def)
  note F = flushPendingImpl_ok [OF this(1) assms(2) this(2,3)]
  have "cn_sendPending (flushPendingImpl cfg env d) = []" "cn_pending (flushPendingImpl cfg env d) = []"
    using rest_fields(6,7) [OF F(1)] assms(1) by (simp_all add: settled_def d_def)
  then have "client_output (flushPending cfg env d) = client_output d"
    using F(2) by (simp add: flushPending_def drainPendingSends_def client_output_def Let_def)
  moreover have "client_output d = client_output c" by (simp add: d_def client_output_def stream_def)
  ultimately show ?thesis
    by (simp add: scheduleFlush_def d_def [symmetric]) (simp add: client_output_def stream_def)
qed

definition sender_core :: "Connection \<Rightarrow> Connection" where
  "sender_core c = (unflagged c)\<lparr>cn_pending := []\<rparr>"

lemma sender_core_settled: "sender_core c = sender_core c' \<Longrightarrow> settled cfg c = settled cfg c'"
proof -
  assume e: "sender_core c = sender_core c'"
  have "settled cfg (sender_core x) = settled cfg x" for x
    by (simp add: settled_def sender_core_def unflagged_def counted_def)
  then show ?thesis using e by metis
qed

lemma serve_run_core: "serve_run cfg env buf off cache S = (off', S') \<Longrightarrow> sender_core (ep_conn S') = sender_core (ep_conn S)"
proof (induction cfg env buf off cache S arbitrary: off' S' rule: serve_run.induct)
  case (1 cfg env buf off cache S)
  show ?case
  proof (cases "serve_one cfg env buf cache S")
    case (Inl S1)
    then show ?thesis using "1.prems" serve_one_stop [OF Inl] by (auto simp: serve_run.simps)
  next
    case (Inr x)
    obtain len full cache' S1 where x: "x = (len, full, cache', S1)" by (metis prod_cases4)
    have "sender_core (ep_conn S1) = sender_core (ep_conn S)"
      using serve_one_spec [OF Inr [unfolded x]] unflagged_arm
      by (auto simp: sender_core_def Let_def cached_reply_def unflagged_def scheduleFlush_def)
    then show ?thesis using "1.prems" "1.IH" [OF Inr x [symmetric] refl refl] Inr x
      by (cases full) (auto simp: serve_run.simps)
  qed
qed

subsection \<open>Sample requests\<close>

text \<open>A connection at rest, beside a bucket with nothing queued.\<close>

definition idle_endpoint :: "bytes \<Rightarrow> 'm Cache option \<Rightarrow> 'm Endpoint" where
  "idle_endpoint buf cache = \<lparr>ep_conn = new_connection (\<lambda>_. new_request) 0, ep_readBuf = buf, ep_scramNonce = [], ep_scramPassword = [],
     ep_scramAuth = [], ep_recycled = None, ep_staging = empty_staging,
     ep_queues = \<lparr>wq_head = (\<lambda>_. None), wq_scheduled = (\<lambda>_. False), wq_pending = (\<lambda>_. 0), wq_queuedBytes = 0, wq_tasks = []\<rparr>,
     ep_reads = \<lparr>rd_vbs = (\<lambda>_. empty_read_queue), rd_tasks = []\<rparr>, ep_cache = cache,
     ep_free = (\<lambda>_. \<lparr>fp_queue = [], fp_count = 0\<rparr>), ep_limited = False, ep_tokens = 0, ep_pausedConns = 0\<rparr>"

definition sample_endpoint_cfg :: "bool \<Rightarrow> nat \<Rightarrow> EndpointCfg" where
  "sample_endpoint_cfg durable limit = \<lparr>ec_send = \<lparr>sc_directSend = True, sc_flushDelayUs = 0, sc_flushBytes = 65536\<rparr>,
     ec_read = \<lparr>rc_maxBatch = 32, rc_maxOwners = 1\<rparr>, ec_hash = (\<lambda>_ _. 0), ec_durable = durable, ec_memLimit = limit,
     ec_sizeofRequest = 300, ec_numShards = 1, ec_echoValue = None, ec_clusterConfig = [], ec_errorMap = [], ec_self = 0,
     ec_crypto = \<lparr>cy_HMAC = (\<lambda>_ _ _. []), cy_PBKDF2 = (\<lambda>_ _ _ _. []), cy_base64 = id\<rparr>\<rparr>"

definition sample_request_env :: RequestEnv where
  "sample_request_env = \<lparr>rv_front = 25, rv_send = quiet_env [], rv_request = 1, rv_entry = 2, rv_buffer = (\<lambda>n. replicate n 0),
     rv_bodyCap = 1, rv_nonce = []\<rparr>"

text \<open>A request whose key is the first byte of its body, as it arrives.\<close>

definition request_header :: "Opcode \<Rightarrow> u16 \<Rightarrow> bytes \<Rightarrow> McbpHeader" where
  "request_header op v body = \<lparr>magic = kRequestMagic, opcode = opcode_val op, keyLen = 1, extrasLen = 0, dataType = 0, specific = v,
     bodyLen = of_nat (length body), opaque = 5, cas = 0\<rparr>"

definition packet :: "Opcode \<Rightarrow> u16 \<Rightarrow> bytes \<Rightarrow> bytes" where
  "packet op v body = hdr_bytes (hton (request_header op v body)) @ body"

lemma packet_facts [simp]:
  "hdr_of_bytes (packet op v body) = hton (request_header op v body)" "length (packet op v body) = kHeaderSize + length body"
  "drop kHeaderSize (packet op v body) = body" "drop (kHeaderSize + n) (packet op v body) = drop n body"
  "magic (hton (request_header op v body)) = kRequestMagic" "opcode (hton (request_header op v body)) = opcode_val op"
  by (simp_all add: packet_def hton_def request_header_def)

lemma packet_ok:
  assumes "length body < 2 ^ 32" and "body \<noteq> []"
  shows "framed (packet op v body)" and "unat v < kMaxVBuckets \<Longrightarrow> well_formed (packet op v body)"
proof -
  have n: "unat (bodyLen (request_header op v body)) = length body"
    using assms(1) by (simp add: request_header_def unat_of_nat)
  show f: "framed (packet op v body)" using n by (simp add: framed_def)
  have "\<not> framed []" by (simp add: framed_def kHeaderSize_def)
  then have "well_formed []" using well_formed.simps [of "[]"] by simp
  moreover have "unat v < kMaxVBuckets \<Longrightarrow> request_ok (request_header op v body)"
    using n assms(2) by (cases body) (simp_all add: request_ok_def request_header_def)
  ultimately show "unat v < kMaxVBuckets \<Longrightarrow> well_formed (packet op v body)"
    using f n well_formed.simps [of "packet op v body"] by simp
qed

lemma GetCopy_found:
  assumes "cview hf c v k = Some e" and "length (e_value e) \<le> n" and "GetCopy hf c v k n = (res, doc, val, c')"
  shows "res = Hit \<or> res = Tombstone"
proof -
  define s where "s = c_shards c ! shardFor c (hf v k)"
  obtain a where a: "sh_find s (hf v k) (map_key v k) = Some a" "core (ent (sh_heap s) a) = e"
    using assms(1) by (auto simp: cview_def kv_def shard_of_def s_def)
  have "e_value (ent (sh_heap (touch s a)) a) = e_value (ent (sh_heap s) a)"
    by (cases "sh_heap s a") (simp_all add: touch_def Let_def set_ent_def upd_def)
  then have "length (e_value (ent (sh_heap (touch s a)) a)) \<le> n" using a(2) assms(2) by auto
  then show ?thesis using assms(3) a(1)
    by (auto simp: GetCopy_def sh_getCopy_def Let_def s_def [symmetric] split: if_splits)
qed

text \<open>A cache that holds value \<open>[4]\<close> for key \<open>[9]\<close> of vbucket 3.\<close>

definition sample_cache :: "(u64, SeqEntry) alist Cache" where
  "sample_cache = PutIfAbsent alist_f14 (\<lambda>_ _. 0) (S3FifoCache (empty_seq_index DAList.empty) 1000 1) 1 3 [9] [4] 7 0 0 0"

lemma sample_cache_view: "cview (\<lambda>_ _. 0) sample_cache 3 [9] = Some (core (create 3 [9] [4] 7 0 0 0 False))"
  unfolding sample_cache_def
  by (rule first_fill) (simp add: charge_def create_def sizeof_Entry_def kMapSlotOverhead_def mapKey_def)

lemma serve_run_mono: "off \<le> fst (serve_run cfg env buf off cache S)"
proof (induction cfg env buf off cache S rule: serve_run.induct)
  case (1 cfg env buf off cache S)
  show ?case
  proof (cases "serve_one cfg env buf cache S")
    case (Inl S1)
    then show ?thesis by (simp add: serve_run.simps)
  next
    case (Inr x)
    obtain len full c' S1 where x: "x = (len, full, c', S1)" by (metis prod_cases4)
    show ?thesis using "1.IH" [OF Inr x [symmetric] refl refl] Inr x serve_run.simps [of cfg env buf off cache S]
      by (cases full) simp_all
  qed
qed

lemma sample_gets:
  assumes "serveCachedGets (sample_endpoint_cfg d l) sample_request_env sample_cache (idle_endpoint (packet OpGet 3 [9]) (Some sample_cache)) = (n, S')"
  shows "0 < n"
proof -
  let ?cfg = "sample_endpoint_cfg d l" and ?S = "idle_endpoint (packet OpGet 3 [9]) (Some sample_cache)"
  obtain res doc val c where g: "GetCopy (\<lambda>_ _. 0) sample_cache 3 [9] kScratch = (res, doc, val, c)" by (metis prod_cases4)
  have hit: "res = Hit \<or> res = Tombstone"
    using GetCopy_found [OF sample_cache_view _ g] by (simp add: create_def kScratch_def)
  have h: "specific (request_header OpGet 3 [9]) = 3" "extrasLen (request_header OpGet 3 [9]) = 0"
      "unat (keyLen (request_header OpGet 3 [9])) = 1" "unat (bodyLen (request_header OpGet 3 [9])) = 1"
    by (simp_all add: request_header_def)
  obtain x where x: "serve_one ?cfg sample_request_env (packet OpGet 3 [9]) sample_cache ?S = Inr x"
    using hit g by (auto simp: serve_one_def Let_def h sample_endpoint_cfg_def simp del: opcode_val.simps)
  obtain len full c' S1 where x': "x = (len, full, c', S1)" by (metis prod_cases4)
  have "len > 0" using serve_one_len [OF x [unfolded x']] by (simp add: kHeaderSize_def)
  moreover have "len \<le> fst (serve_run ?cfg sample_request_env (packet OpGet 3 [9]) 0 sample_cache ?S)"
    using serve_run_mono [of len ?cfg sample_request_env "drop len (packet OpGet 3 [9])" c' S1]
    by (simp add: serve_run.simps [of ?cfg sample_request_env "packet OpGet 3 [9]"] x x')
  ultimately show ?thesis using assms
    by (auto simp: serveCachedGets_def sample_request_env_def idle_endpoint_def kHeaderSize_def split: if_splits prod.splits)
qed



end
