(* ===== verification/Conn_Wake.thy ===== *)
theory Conn_Wake
  imports Conn_Requests
begin

text \<open>
  Properties of the request handling of \<^verbatim>\<open>Conn_Requests\<close>: that a socket wake handles every whole
  request without leaving the request's bytes and ends, what a SET does in each case, what happens to
  requests whose header lies, and how a miss is counted.
\<close>

subsection \<open>Progress of the request loop\<close>

lemma generic_request_ok:
  assumes "framed (ep_readBuf S)" and "well_formed (ep_readBuf S)"
  defines "h \<equiv> ntoh (hdr_of_bytes (ep_readBuf S))"
  shows "\<exists>S'. generic_request cfg env h S = Some S' \<and> ep_readBuf S' = drop (kHeaderSize + unat (bodyLen h)) (ep_readBuf S)"
proof -
  let ?n = "unat (bodyLen h)" and ?T = "S\<lparr>ep_readBuf := drop (kHeaderSize + unat (bodyLen h)) (ep_readBuf S)\<rparr>"
  define body where "body = (if ?n > 0 then Some (take ?n (drop kHeaderSize (ep_readBuf S))) else None)"
  have "kHeaderSize + ?n \<le> length (ep_readBuf S)" using assms(1) by (simp add: framed_def h_def)
  then have "body = None \<or> (\<exists>b. body = Some b \<and> length b = ?n)" by (auto simp: body_def)
  from dispatch_ok [OF well_formed_next(1) [OF assms(2,1), folded h_def] this, of cfg env ?T]
  show ?thesis by (simp add: generic_request_def body_def Let_def)
qed

lemma shrinks:
  assumes "framed B" and "well_formed B"
  defines "D \<equiv> drop (kHeaderSize + unat (bodyLen (ntoh (hdr_of_bytes B)))) B"
  shows "length D < length B \<and> well_formed D"
  using assms(1) well_formed_next(2) [OF assms(2,1)] by (auto simp: D_def framed_def kHeaderSize_def)

lemma serveCachedGets_ok:
  fixes S :: "'m Endpoint"
  assumes "ep_cache S = Some cache" and "echoResponseBuf cfg = []" and "well_formed (ep_readBuf S)"
    and "serveCachedGets cfg env cache S = (n, S')"
  shows "if n > 0 then length (ep_readBuf S') < length (ep_readBuf S) \<and> well_formed (ep_readBuf S')
    else ep_readBuf S' = ep_readBuf S"
proof -
  let ?f = "rv_front env" and ?B = "ep_readBuf S"
  obtain off S1 where r: "serve_run cfg env (take ?f ?B) 0 cache S = (off, S1)" by force
  have S: "alike S S" by (simp add: alike_def)
  have B: "?B = take ?f ?B @ drop ?f ?B" by simp
  have W: "well_formed (take ?f ?B @ drop ?f ?B)" using assms(3) by simp
  obtain T :: "'m Endpoint" where g: "off \<le> length (take ?f ?B)" "ep_readBuf T = drop off ?B" "well_formed (ep_readBuf T)" "ep_readBuf S1 = ?B"
    using serve_run_generic [OF r assms(1,2) S B W, unfolded append_take_drop_id diff_zero] by blast
  show ?thesis using assms(4) r g by (cases "off > 0") (auto simp: serveCachedGets_def)
qed

lemma parse_unframed:
  assumes "\<not> framed (ep_readBuf S)"
  shows "parseAndDispatch cfg env S = Some (False, S) \<or> parseAndDispatch cfg env S = Some (False, refuse_input env S)"
proof -
  let ?h = "hdr_of_bytes (ep_readBuf S)"
  consider "length (ep_readBuf S) < kHeaderSize"
    | "\<not> length (ep_readBuf S) < kHeaderSize" "magic ?h \<noteq> kRequestMagic \<or> opcode_of (opcode ?h) = None"
    | "\<not> length (ep_readBuf S) < kHeaderSize" "\<not> (magic ?h \<noteq> kRequestMagic \<or> opcode_of (opcode ?h) = None)"
      "length (ep_readBuf S) < kHeaderSize + unat (bodyLen (ntoh ?h))"
    using assms unfolding framed_def by linarith
  then show ?thesis
    by cases (simp_all only: parseAndDispatch_def Let_def if_True if_False simp_thms)
qed

text \<open>A whole request at the front of the buffer: a SET takes a token, and a GET goes the way of echo mode
  or of the cached run before the generic way.\<close>

lemma parse_framed:
  assumes "framed (ep_readBuf S)"
  defines "h \<equiv> ntoh (hdr_of_bytes (ep_readBuf S))"
  defines "opc \<equiv> the (opcode_of (opcode h))"
  assumes "(if opc = OpSet then TakeWriteToken S else (True, S)) = (t, T)"
  shows "parseAndDispatch cfg env S =
      (if \<not> t then Some (False, on_conn (\<lambda>c. c\<lparr>cn_stageFull := True\<rparr>) T)
       else if opc = OpGet \<and> echoResponseBuf cfg \<noteq> []
       then map_option (Pair True) (handleGet cfg env h None (T\<lparr>ep_readBuf := drop (kHeaderSize + unat (bodyLen h)) (ep_readBuf T)\<rparr>))
       else if opc = OpGet \<and> ep_cache T \<noteq> None
       then (case serveCachedGets cfg env (the (ep_cache T)) T of
               (n, U) \<Rightarrow> if n > 0 then Some (True, U) else map_option (Pair True) (generic_request cfg env h U))
       else map_option (Pair True) (generic_request cfg env h T))"
proof -
  let ?h0 = "hdr_of_bytes (ep_readBuf S)"
  have f: "\<not> length (ep_readBuf S) < kHeaderSize" "magic ?h0 = kRequestMagic" "opcode_of (opcode ?h0) \<noteq> None"
      "\<not> length (ep_readBuf S) < kHeaderSize + unat (bodyLen h)"
    using assms(1) by (simp_all add: framed_def h_def)
  have o: "the (opcode_of (opcode ?h0)) = opc" by (simp add: opc_def h_def)
  show ?thesis
    unfolding parseAndDispatch_def Let_def h_def [symmetric] o assms(4) prod.case using f by (simp only: if_False simp_thms)
qed

definition progressed :: "'m Endpoint \<Rightarrow> bool \<Rightarrow> 'm Endpoint \<Rightarrow> bool" where
  "progressed S b S' \<longleftrightarrow> (if b then length (ep_readBuf S') < length (ep_readBuf S) \<and> well_formed (ep_readBuf S')
     else cn_stageFull (ep_conn S') \<or> \<not> framed (ep_readBuf S'))"

lemma generic_progress:
  assumes "framed (ep_readBuf S)" and "well_formed (ep_readBuf S)" and "ep_readBuf U = ep_readBuf S"
  shows "\<exists>V. generic_request cfg env (ntoh (hdr_of_bytes (ep_readBuf S))) U = Some V \<and> progressed S True V"
  using generic_request_ok [of U cfg env] shrinks [OF assms(1,2)] assms by (auto simp: progressed_def)

lemma parse_progress:
  assumes "well_formed (ep_readBuf S)"
  shows "\<exists>b S'. parseAndDispatch cfg env S = Some (b, S') \<and> progressed S b S'"
proof (cases "framed (ep_readBuf S)")
  case False
  have "\<not> framed []" "ep_readBuf (refuse_input env S) = []" by (simp_all add: framed_def kHeaderSize_def refuse_input_def)
  then show ?thesis using parse_unframed [OF False] False unfolding progressed_def by metis
next
  case True
  define h where "h = ntoh (hdr_of_bytes (ep_readBuf S))"
  define opc where "opc = the (opcode_of (opcode h))"
  obtain t T where t: "(if opc = OpSet then TakeWriteToken S else (True, S)) = (t, T)" by force
  then have T: "ep_readBuf T = ep_readBuf S" by (auto simp: TakeWriteToken_def split: if_splits)
  note P = parse_framed [OF True t [unfolded opc_def h_def], folded h_def, folded opc_def]
  note G = generic_progress [OF True assms, folded h_def]
  consider "\<not> t" | "t" "opc = OpGet" "echoResponseBuf cfg \<noteq> []"
    | c where "t" "opc = OpGet" "echoResponseBuf cfg = []" "ep_cache T = Some c"
    | "t" "opc = OpGet \<longrightarrow> echoResponseBuf cfg = [] \<and> ep_cache T = None" by fastforce
  then show ?thesis
  proof cases
    case 1
    then show ?thesis unfolding P by (auto simp: progressed_def)
  next
    case 2
    let ?T = "T\<lparr>ep_readBuf := drop (kHeaderSize + unat (bodyLen h)) (ep_readBuf T)\<rparr>"
    obtain U where U: "handleGet cfg env h None ?T = Some U" "ep_readBuf U = ep_readBuf ?T"
      using handleGet_ok [OF well_formed_next(1) [OF assms True, folded h_def], of None cfg env ?T] by blast
    then show ?thesis unfolding P using 2 shrinks [OF True assms, folded h_def] T by (auto simp: progressed_def)
  next
    case 3
    obtain n U where s: "serveCachedGets cfg env c T = (n, U)" by force
    have Q: "parseAndDispatch cfg env S = (if n > 0 then Some (True, U) else map_option (Pair True) (generic_request cfg env h U))"
      unfolding P using 3 s by simp
    have R: "if n > 0 then progressed S True U else ep_readBuf U = ep_readBuf S"
      using serveCachedGets_ok [OF 3(4,3) _ s, unfolded T, OF assms] by (simp add: progressed_def)
    then show ?thesis unfolding Q using G [of U cfg env] by (cases "n > 0") auto
  next
    case 4
    then show ?thesis unfolding P using G [OF T, of cfg env] by auto
  qed
qed

lemma parse_loop_ok:
  assumes "well_formed (ep_readBuf S)" and "length (ep_readBuf S) < n"
  shows "\<exists>S'. parse_loop n cfg E S = Some S' \<and>
    (cn_closing (ep_conn S') \<or> cn_stageFull (ep_conn S') \<or> \<not> framed (ep_readBuf S'))"
  using assms
proof (induction n arbitrary: S)
  case (Suc n)
  obtain b S1 where p: "parseAndDispatch cfg (E n) S = Some (b, S1)" "progressed S b S1"
    using parse_progress [OF Suc.prems(1), of cfg "E n"] by blast
  show ?case
  proof (cases b)
    case True
    then have "\<exists>S'. parse_loop n cfg E S1 = Some S' \<and>
        (cn_closing (ep_conn S') \<or> cn_stageFull (ep_conn S') \<or> \<not> framed (ep_readBuf S'))"
      using Suc.IH [of S1] Suc.prems(2) p(2) by (simp add: progressed_def)
    then show ?thesis using p(1) True by simp
  next
    case False
    then show ?thesis using p by (simp add: progressed_def)
  qed
qed simp

text \<open>C11. A socket wake handles what it received: when every whole request in the buffer has lengths that
  agree and a vbucket that exists, no handler reads outside a request's body or a vbucket array, the
  loop ends (each round consumes a request, so the length of the buffer bounds the rounds), and it
  stops only when no whole request is left, when a write was refused or when the connection closes.\<close>

theorem wake_handles_requests:
  assumes "well_formed (ep_readBuf S @ arrived)" and "length (ep_readBuf S @ arrived) < n"
  shows "\<exists>S1 S'. parse_loop n cfg E (S\<lparr>ep_readBuf := ep_readBuf S @ arrived\<rparr>) = Some S1 \<and>
    (cn_closing (ep_conn S1) \<or> cn_stageFull (ep_conn S1) \<or> \<not> framed (ep_readBuf S1)) \<and>
    readDataAvailable n cfg E env arrived S = Some S'"
  using parse_loop_ok [of "S\<lparr>ep_readBuf := ep_readBuf S @ arrived\<rparr>" n cfg E] assms
  by (auto simp: readDataAvailable_def handle_buffered_def Let_def)

theorem wake_handles_requests_witness:
  "\<exists>S1 S'. parse_loop 26 (sample_endpoint_cfg False 1000) (\<lambda>_. sample_request_env)
      ((idle_endpoint [] (Some sample_cache))\<lparr>ep_readBuf := packet OpGet 3 [9]\<rparr>) = Some S1 \<and>
    (cn_closing (ep_conn S1) \<or> cn_stageFull (ep_conn S1) \<or> \<not> framed (ep_readBuf S1)) \<and>
    readDataAvailable 26 (sample_endpoint_cfg False 1000) (\<lambda>_. sample_request_env) (quiet_env []) (packet OpGet 3 [9])
      (idle_endpoint [] (Some sample_cache)) = Some S'"
proof -
  have b: "ep_readBuf (idle_endpoint [] (Some sample_cache)) = []" by (simp add: idle_endpoint_def)
  have "well_formed (packet OpGet 3 [9])" by (rule packet_ok(2)) (simp_all add: kMaxVBuckets_def)
  then show ?thesis
    using wake_handles_requests [of "idle_endpoint [] (Some sample_cache)" "packet OpGet 3 [9]" 26] b by (simp add: kHeaderSize_def)
qed

subsection \<open>The outcome of a SET\<close>

lemma foldl_keeps: "(\<And>c r. f (g c r) = f c) \<Longrightarrow> f (foldl g c rs) = f c"
  by (induction rs arbitrary: c) simp_all

lemma acquire_fields:
  assumes "acquireRequest env S = (r, T)"
  shows "ep_cache T = ep_cache S" "ep_staging T = ep_staging S" "ep_queues T = ep_queues S"
    "cn_pending (ep_conn T) = cn_pending (ep_conn S)" "cn_outstanding (ep_conn T) = cn_outstanding (ep_conn S)"
proof -
  have t: "cn_pending (take_returned c) = cn_pending c" "cn_outstanding (take_returned c) = cn_outstanding c" for c
    unfolding take_returned_def by (subst foldl_keeps [where f = cn_pending], simp_all add: Let_def)
      (subst foldl_keeps [where f = cn_outstanding], simp_all add: Let_def)
  show "ep_cache T = ep_cache S" "ep_staging T = ep_staging S" "ep_queues T = ep_queues S"
      "cn_pending (ep_conn T) = cn_pending (ep_conn S)" "cn_outstanding (ep_conn T) = cn_outstanding (ep_conn S)"
    using assms t by (auto simp: acquireRequest_def Let_def split: if_splits)
qed

lemma acquire_vb_fields:
  assumes "acquireRequest_vb cfg env v S = (r, T)"
  shows "ep_cache T = ep_cache S" "ep_staging T = ep_staging S" "ep_queues T = ep_queues S"
    "cn_pending (ep_conn T) = cn_pending (ep_conn S)" "cn_outstanding (ep_conn T) = cn_outstanding (ep_conn S)"
proof -
  define U where "U = (if ep_recycled S = None
      then let (h, p) = TakeRequests (cn_store (ep_conn S)) (ep_free S (unat v mod ec_numShards cfg))
           in S\<lparr>ep_recycled := h, ep_free := (ep_free S)(unat v mod ec_numShards cfg := p)\<rparr> else S)"
  have U: "ep_cache U = ep_cache S" "ep_staging U = ep_staging S" "ep_queues U = ep_queues S" "ep_conn U = ep_conn S"
    by (simp_all add: U_def split: prod.splits)
  have T: "(case ep_recycled U of Some r \<Rightarrow> (r, upd_req r (\<lambda>q. q\<lparr>rq_next := None\<rparr>) (U\<lparr>ep_recycled := rq_next (req_of U r)\<rparr>))
      | None \<Rightarrow> acquireRequest env U) = (r, T)"
    using assms unfolding acquireRequest_vb_def Let_def U_def by simp
  show "ep_cache T = ep_cache S" "ep_staging T = ep_staging S" "ep_queues T = ep_queues S"
      "cn_pending (ep_conn T) = cn_pending (ep_conn S)" "cn_outstanding (ep_conn T) = cn_outstanding (ep_conn S)"
    using T U acquire_fields [of env U r T] by (auto simp: upd_req_def split: option.splits)
qed

text \<open>The fields of a SET whose lengths agree.\<close>

lemma fill_set_fields:
  assumes "unat (extrasLen h) + unat (keyLen h) \<le> unat (bodyLen h)" and "length b = unat (bodyLen h)"
  shows "\<exists>q'. fill_set h (Some b) q = Some q' \<and> rq_vbucket q' = specific h \<and> rq_opcode q' = opcode h \<and> rq_opaque q' = opaque h \<and>
    rq_key q' = take (unat (keyLen h)) (drop (unat (extrasLen h)) b) \<and> rq_value q' = drop (unat (extrasLen h) + unat (keyLen h)) b"
  using assms value_len [OF assms(1)] by (simp add: fill_set_def fill_header_def slice_at_def Let_def)

lemma cache_write_view:
  assumes "ep_cache S = Some c" and "cache_wf (ec_hash cfg) c" and "fresh_for (ec_hash cfg) c (rq_vbucket q, rq_key q) (rv_entry env)"
    and "pins (ec_hash cfg) c (rq_vbucket q, rq_key q) + 1 < 2 ^ 32"
  shows "\<exists>c' d. ep_cache (cache_write cfg env q S) = Some c' \<and> cache_wf (ec_hash cfg) c' \<and>
    cached (ec_hash cfg) c' (rq_vbucket q, rq_key q) = Some d \<and> cd_value d = rq_value q \<and> \<not> cd_deleted d \<and>
    cd_flags d = rq_flags q \<and> cd_expiry d = rq_expiry q \<and> cd_datatype d = rq_datatype q \<and>
    pins (ec_hash cfg) c' (rq_vbucket q, rq_key q) = pins (ec_hash cfg) c (rq_vbucket q, rq_key q) + 1"
proof -
  let ?v = "rq_vbucket q" and ?k = "rq_key q" and ?hf = "ec_hash cfg"
  define e where "e = (if rq_dataBuf q \<noteq> None
    then createShared ?v ?k (rq_value q) (rv_bodyCap env) (rq_flags q) (rq_expiry q) (rq_datatype q) False
    else create ?v ?k (rq_value q) 0 (rq_flags q) (rq_expiry q) (rq_datatype q) False)"
  have w: "ep_cache (cache_write cfg env q S) = Some (putEntry ?hf c (?hf ?v ?k) (rv_entry env) e)"
    using assms(1) by (simp add: cache_write_def e_def Put_def PutShared_def)
  have n: "unat (pending_of (cview ?hf c ?v ?k) + 1) = unat (pending_of (cview ?hf c ?v ?k)) + 1"
    using assms(4) by (simp add: cached_pins_view unat_word_ariths)
  then have nz: "pending_of (cview ?hf c ?v ?k) + 1 \<noteq> 0" by (metis add_is_0 unat_0 zero_neq_one)
  have e: "e_freq e \<le> kMaxFreq" "ekey e = (?v, ?k)" "e_value e = rq_value q" "\<not> e_deleted e" "e_flags e = rq_flags q"
      "e_expiry e = rq_expiry q" "e_datatype e = rq_datatype q"
    by (simp_all add: e_def create_def createShared_def)
  note P = putEntry_ok(1,2) [OF assms(2,3) e(1,2) nz]
  show ?thesis
    by (intro exI conjI, rule w, rule P(1), simp add: cached_pins_view P(2))
      (use e n in \<open>simp_all add: cached_pins_view P(2) doc_of_def\<close>)
qed

text \<open>Staging, when there is room and when there is not.\<close>

definition has_room :: "EndpointCfg \<Rightarrow> 'm Endpoint \<Rightarrow> rid \<Rightarrow> bool" where
  "has_room cfg S r \<longleftrightarrow>
     wq_queuedBytes (ep_queues S) + sg_bytes (ep_staging S) + item_size (ec_sizeofRequest cfg) (req_of S r) \<le> ec_memLimit cfg"

lemma stage_accepts:
  assumes "unat (rq_vbucket (req_of S r)) < kMaxVBuckets" and "has_room cfg S r"
  shows "\<exists>S'. stage cfg r S = Some (True, S') \<and> ep_cache S' = ep_cache S \<and> cn_pending (ep_conn S') = cn_pending (ep_conn S) \<and>
    sg_first (sg_vbs (ep_staging S') (rq_vbucket (req_of S r))) = Some r \<and>
    rq_key (req_of S' r) = rq_key (req_of S r) \<and> rq_value (req_of S' r) = rq_value (req_of S r)"
  using assms by (simp add: stage_def StageWrite_def has_room_def req_of_def Let_def set_next_def not_less [symmetric])

lemma stage_refuses: "\<not> has_room cfg S r \<Longrightarrow> stage cfg r S = Some (False, S)"
  by (cases S) (simp add: stage_def StageWrite_def has_room_def req_of_def Let_def on_conn_def)

lemma submit_write_accepts:
  assumes "unat (rq_vbucket (req_of S r)) < kMaxVBuckets" and "has_room cfg S r"
  shows "\<exists>S'. submit_write cfg env h r stops S = Some S' \<and> ep_cache S' = ep_cache S \<and>
    sg_first (sg_vbs (ep_staging S') (rq_vbucket (req_of S r))) = Some r \<and>
    rq_key (req_of S' r) = rq_key (req_of S r) \<and> rq_value (req_of S' r) = rq_value (req_of S r) \<and>
    cn_pending (ep_conn S') = (if ec_durable cfg then cn_pending (ep_conn S)
      else appendEmptyResponse (cn_pending (ep_conn S)) (opcode h) Success (opaque h) 0)"
proof (cases "ec_durable cfg")
  case True
  define T where "T = on_conn (\<lambda>c. c\<lparr>cn_outstanding := cn_outstanding c + 1,
      cn_holds := (case cn_owner c of Some t \<Rightarrow> (cn_holds c)(t := cn_holds c t + 1) | None \<Rightarrow> cn_holds c)\<rparr>)
      (upd_req r (\<lambda>q. q\<lparr>rq_conn := Some (ec_self cfg), rq_evb := cn_evb (ep_conn S), rq_ioOwner := cn_owner (ep_conn S)\<rparr>) S)"
  have T: "rq_vbucket (req_of T r) = rq_vbucket (req_of S r)" "rq_key (req_of T r) = rq_key (req_of S r)"
      "rq_value (req_of T r) = rq_value (req_of S r)" "ep_cache T = ep_cache S" "cn_pending (ep_conn T) = cn_pending (ep_conn S)"
      "has_room cfg T r"
    using assms(2) by (simp_all add: T_def req_of_def upd_req_def has_room_def item_size_def)
  show ?thesis using True stage_accepts [of T r cfg] T assms(1)
    by (auto simp: submit_write_def Let_def T_def [symmetric])
next
  case False
  show ?thesis using False stage_accepts [OF assms]
    by (auto simp: submit_write_def Let_def reply_empty_def req_of_def)
qed

lemma submit_write_refuses:
  assumes "\<not> has_room cfg S r"
  shows "\<exists>S'. submit_write cfg env h r stops S = Some S' \<and> ep_staging S' = ep_staging S \<and>
    ep_cache S' = map_option (\<lambda>c. Erase (ec_hash cfg) c (rq_vbucket (req_of S r)) (rq_key (req_of S r))) (ep_cache S) \<and>
    (\<not> ec_durable cfg \<longrightarrow> (stops \<longrightarrow> cn_stageFull (ep_conn S')) \<and>
       cn_pending (ep_conn S') = appendEmptyResponse (cn_pending (ep_conn S)) (opcode h) TmpFail (opaque h) 0)"
proof (cases "ec_durable cfg")
  case True
  define T where "T = on_conn (\<lambda>c. c\<lparr>cn_outstanding := cn_outstanding c + 1,
      cn_holds := (case cn_owner c of Some t \<Rightarrow> (cn_holds c)(t := cn_holds c t + 1) | None \<Rightarrow> cn_holds c)\<rparr>)
      (upd_req r (\<lambda>q. q\<lparr>rq_conn := Some (ec_self cfg), rq_evb := cn_evb (ep_conn S), rq_ioOwner := cn_owner (ep_conn S)\<rparr>) S)"
  have "\<not> has_room cfg T r" "ep_staging T = ep_staging S" "ep_cache T = ep_cache S"
    using assms by (simp_all add: T_def req_of_def upd_req_def has_room_def item_size_def)
  then show ?thesis using True stage_refuses [of cfg T r]
    by (simp add: submit_write_def Let_def T_def [symmetric] cache_erase_def)
next
  case False
  have "cn_pending (releaseRequest r x) = cn_pending x" "cn_stageFull (releaseRequest r x) = cn_stageFull x" for x
    by (simp_all add: releaseRequest_def Let_def)
  then show ?thesis using False stage_refuses [OF assms]
    by (simp add: submit_write_def Let_def reply_empty_def cache_erase_def)
qed



lemma overrun_None:
  assumes "length b < unat (extrasLen h) + unat (keyLen h)"
  shows "handleSet cfg env h (Some b) S = None" and "handleDelete cfg env h (Some b) S = None"
proof -
  have s: "slice_at b (unat (extrasLen h)) (unat (keyLen h)) = None" using assms by (simp add: slice_at_def)
  have "fill_set h (Some b) q = None" "fill_key h i (Some b) q = None" for q i
    by (simp_all add: fill_set_def fill_key_def Let_def s)
  then show "handleSet cfg env h (Some b) S = None" "handleDelete cfg env h (Some b) S = None"
    by (simp_all add: handleSet_def handleDelete_def split: prod.splits)
qed

lemma submit_write_no_vb:
  assumes "kMaxVBuckets \<le> unat (rq_vbucket (req_of S r))" and "has_room cfg S r"
  shows "submit_write cfg env h r stops S = None"
proof -
  have N: "stage cfg r T = None" if "kMaxVBuckets \<le> unat (rq_vbucket (req_of T r))" "has_room cfg T r" for T
    using that by (auto simp: stage_def StageWrite_def has_room_def req_of_def Let_def)
  show ?thesis using assms
    by (cases "ec_durable cfg") (simp_all add: submit_write_def Let_def N has_room_def req_of_def upd_req_def item_size_def)
qed

lemma no_vb_None:
  assumes "unat (extrasLen h) + unat (keyLen h) \<le> unat (bodyLen h)" and "length b = unat (bodyLen h)"
    and "kMaxVBuckets \<le> unat (specific h)"
    and "wq_queuedBytes (ep_queues S) + sg_bytes (ep_staging S) + unat (bodyLen h) + ec_sizeofRequest cfg \<le> ec_memLimit cfg"
  shows "handleSet cfg env h (Some b) S = None"
proof -
  obtain r T where a: "acquireRequest_vb cfg env (specific h) S = (r, T)" by force
  note A = acquire_vb_fields [OF a]
  obtain q where q: "fill_set h (Some b) (req_of T r) = Some q" "rq_vbucket q = specific h"
      "rq_key q = take (unat (keyLen h)) (drop (unat (extrasLen h)) b)" "rq_value q = drop (unat (extrasLen h) + unat (keyLen h)) b"
    using fill_set_fields [OF assms(1,2)] by blast
  define U where "U = cache_write cfg env q (upd_req r (\<lambda>_. q) T)"
  have U: "req_of U r = q" "ep_staging U = ep_staging S" "ep_queues U = ep_queues S"
    using A by (simp_all add: U_def cache_write_def req_of_def upd_req_def)
  have "length (rq_key q) + length (rq_value q) \<le> unat (bodyLen h)" using q(3,4) assms(1,2) by simp
  then have "has_room cfg U r" using U assms(4) by (simp add: has_room_def item_size_def)
  then have "submit_write cfg env h r True U = None" using submit_write_no_vb [of U r] U(1) q(2) assms(3) by simp
  then show ?thesis by (simp add: handleSet_def a q(1) U_def)
qed



lemma lookup_miss:
  assumes "cview hf c v k = None"
  shows "GetCopy hf c v k n = (Miss, None, [], upd_stats c miss_stat)" and "Get hf c v k = (None, upd_stats c miss_stat)"
  using assms by (simp_all add: GetCopy_def Get_def sh_getCopy_def sh_get_def cview_def kv_def shard_of_def set_shard_def Let_def)

lemma queue_get_cache: "queue_get cfg env h body S = Some S' \<Longrightarrow> ep_cache S' = ep_cache S"
  using acquire_fields(1) [of env "on_conn (\<lambda>c. c\<lparr>cn_outstanding := cn_outstanding c + 1\<rparr>) S"]
  by (auto simp: queue_get_def enqueue_read_def Let_def split: prod.splits option.splits if_splits)

lemma handleGet_miss:
  assumes "echoResponseBuf cfg = []" and "ep_cache S = Some c" and "request_ok h" and "length b = unat (bodyLen h)"
    and "cview (ec_hash cfg) c (specific h) (take (unat (keyLen h)) (drop (unat (extrasLen h)) b)) = None"
  shows "\<exists>S'. handleGet cfg env h (Some b) S = Some S' \<and> ep_cache S' = Some (upd_stats c miss_stat)"
proof -
  have "slice_at b (unat (extrasLen h)) (unat (keyLen h)) = Some (take (unat (keyLen h)) (drop (unat (extrasLen h)) b))"
    using assms(3,4) by (simp add: slice_at_def request_ok_def)
  then have g: "handleGet cfg env h (Some b) S = queue_get cfg env h (Some b) (S\<lparr>ep_cache := Some (upd_stats c miss_stat)\<rparr>)"
    using assms(1,2) lookup_miss(2) [OF assms(5)] by (simp add: handleGet_def)
  obtain S' where "queue_get cfg env h (Some b) (S\<lparr>ep_cache := Some (upd_stats c miss_stat)\<rparr>) = Some S'"
    using queue_get_ok [OF assms(3)] assms(4) by blast
  then show ?thesis using queue_get_cache [of cfg env h "Some b"] g by fastforce
qed

text \<open>A GET that the cache does not hold, alone in the contiguous front of the buffer, is looked up
  twice, by the fast path and by the generic path it falls back to, and counts as two misses.\<close>

theorem miss_counted_twice:
  assumes "framed (ep_readBuf S)" and "ep_cache S = Some c" and "echoResponseBuf cfg = []"
  defines "h \<equiv> ntoh (hdr_of_bytes (ep_readBuf S))"
  defines "key \<equiv> take (unat (keyLen h)) (drop (kHeaderSize + unat (extrasLen h)) (ep_readBuf S))"
  assumes "opcode_of (opcode h) = Some OpGet" and "request_ok h" and "kHeaderSize + unat (bodyLen h) \<le> rv_front env"
    and "cview (ec_hash cfg) c (specific h) key = None"
  shows "\<exists>S' c'. parseAndDispatch cfg env S = Some (True, S') \<and> ep_cache S' = Some c' \<and> rs_misses (c_stats c') = rs_misses (c_stats c) + 2"
proof -
  let ?B = "ep_readBuf S" and ?f = "rv_front env" and ?c = "upd_stats c miss_stat"
  let ?n = "unat (bodyLen h)" and ?e = "unat (extrasLen h)" and ?k = "unat (keyLen h)"
  have L: "kHeaderSize + ?n \<le> length ?B" "kHeaderSize \<le> length ?B" "magic (hdr_of_bytes ?B) = kRequestMagic"
    using assms(1) by (simp_all add: framed_def h_def)
  have ek: "?e + ?k \<le> ?n" "0 < ?n" using assms(6,7) by (auto simp: request_ok_def unat_gt_0 [symmetric])
  have hb: "hdr_of_bytes (take ?f ?B) = hdr_of_bytes ?B"
    using hdr_prefix [of "take ?f ?B" "drop ?f ?B"] L(2) assms(8) by simp
  have kb: "take ?k (drop (kHeaderSize + ?e) (take ?f ?B)) = key"
    using ek(1) assms(8) by (simp add: key_def drop_take take_drop [symmetric] min_def)
  have o: "opcode_of (opcode (hdr_of_bytes ?B)) = Some OpGet" using assms(6) by (simp add: h_def)
  have one: "serve_one cfg env (take ?f ?B) c S = Inl (S\<lparr>ep_cache := Some ?c\<rparr>)"
    unfolding serve_one_def hb h_def [symmetric] Let_def kb lookup_miss(1) [OF assms(9)] using L ek(1) assms(8) o by simp
  have run: "serveCachedGets cfg env c S = (0, S\<lparr>ep_cache := Some ?c\<rparr>)"
    using one by (simp add: serveCachedGets_def serve_run.simps)
  have P: "parseAndDispatch cfg env S = map_option (Pair True) (generic_request cfg env h (S\<lparr>ep_cache := Some ?c\<rparr>))"
    using parse_framed [OF assms(1), folded h_def, of True S cfg env] assms(2,3,6) run by simp
  define b where "b = take ?n (drop kHeaderSize ?B)"
  have b: "length b = ?n" "take ?k (drop ?e b) = key"
    using L ek(1) by (auto simp: b_def key_def drop_take min_def add.commute)
  have "cview (ec_hash cfg) ?c (specific h) (take ?k (drop ?e b)) = None"
    using assms(9) b(2) by (simp add: cview_def shard_of_def shardFor_def upd_stats_def)
  from handleGet_miss [OF assms(3) _ assms(7) b(1) this, of "S\<lparr>ep_cache := Some ?c, ep_readBuf := drop (kHeaderSize + ?n) ?B\<rparr>" env]
  show ?thesis unfolding P using ek(2) assms(6) by (auto simp: generic_request_def dispatch_def Let_def b_def [symmetric] upd_stats_def miss_stat_def)
qed

theorem miss_counted_twice_witness:
  "\<exists>S' c'. parseAndDispatch (sample_endpoint_cfg False 1000) sample_request_env
      (idle_endpoint (packet OpGet 3 [9]) (Some (S3FifoCache (empty_seq_index (DAList.empty :: (u64, SeqEntry) alist)) 1000 1))) =
      Some (True, S') \<and> ep_cache S' = Some c' \<and> rs_misses (c_stats c') = 2"
proof -
  define c where "c = S3FifoCache (empty_seq_index (DAList.empty :: (u64, SeqEntry) alist)) 1000 1"
  define S where "S = idle_endpoint (packet OpGet 3 [9]) (Some c)"
  let ?h = "request_header OpGet 3 [9]" and ?cfg = "sample_endpoint_cfg False 1000"
  have B: "ep_readBuf S = packet OpGet 3 [9]" "ep_cache S = Some c" by (simp_all add: S_def idle_endpoint_def)
  have h: "ntoh (hdr_of_bytes (ep_readBuf S)) = ?h" "opcode_of (opcode ?h) = Some OpGet" "request_ok ?h" "specific ?h = 3"
      "unat (keyLen ?h) = 1" "unat (extrasLen ?h) = 0" "unat (bodyLen ?h) = 1"
    by (simp_all add: B) (simp_all add: request_header_def request_ok_def kMaxVBuckets_def opcode_of_def all_opcodes_def)
  have m: "echoResponseBuf ?cfg = []" "kHeaderSize + 1 \<le> rv_front sample_request_env"
      "cview (ec_hash ?cfg) c 3 [9] = None"
    by (simp_all add: sample_endpoint_cfg_def echoResponseBuf_def sample_request_env_def kHeaderSize_def c_def new_cache_ok)
  have "rs_misses (c_stats c) = 0" by (simp add: c_def S3FifoCache_def Let_def)
  note m = m this
  have f: "framed (ep_readBuf S)" unfolding B(1) by (rule packet_ok(1)) simp_all
  show ?thesis
    using miss_counted_twice [OF f B(2) m(1), of sample_request_env] m unfolding h S_def [symmetric] c_def [symmetric]
    by (simp add: h B numeral_2_eq_2)
qed

end
