(* ===== verification/Send_Handover.thy ===== *)
theory Send_Handover
  imports Flux_Prelude "HOL-Library.Multiset"
begin

text \<open>
  How threads share the right to write to a connection's socket (\<^verbatim>\<open>server/connection.cc\<close>:
  \<open>sendDirect\<close>, \<open>sendHeld\<close>, \<open>drainPendingSends\<close>, and the other users of the send lock), as interleaved
  atomic steps. A sender that finds the lock taken leaves its responses on a chain, tries once more
  and goes away; whoever holds the lock is to send them. Threads at the same point with the same
  local variables are interchangeable, so a state counts them; any number is covered. A lock attempt
  fails only while the lock is held. Some users of the lock only change a flag or a counter under it
  and do not look at the chain afterwards (\<open>releaseOutstanding\<close>, \<open>migrateTo\<close>, \<open>tryFinishMigrate\<close>); a
  parameter says whether such users occur.
\<close>

subsection \<open>The protocol\<close>

text \<open>Who holds the lock: a sender before it takes the chain, with its own responses, or after, with
  what it is to write; the loop during a flush; one of the brief users.\<close>

datatype holder = Free | Sending "nat list" | Writing "nat list" | Flushing | Brief

record SendSched =
  ss_chain :: "nat list"                 \<comment> \<open>\<open>sendPending_\<close>, head first\<close>
  ss_lock :: holder
  ss_sent :: "nat list"                  \<comment> \<open>written to the socket\<close>
  sn_calling :: "nat list multiset"      \<comment> \<open>senders about to try the lock\<close>
  sn_failed :: "nat list multiset"       \<comment> \<open>found it taken, about to leave these\<close>
  sn_pushed :: nat                       \<comment> \<open>left theirs, about to try again\<close>
  sn_unlocked :: nat                     \<comment> \<open>wrote and unlocked, about to look at the chain\<close>
  sn_again :: nat                        \<comment> \<open>saw responses there, about to try the lock\<close>
  lp_flushed :: nat                      \<comment> \<open>the loop after a flush, about to look\<close>
  lp_again :: nat                        \<comment> \<open>saw responses, about to try the lock\<close>

definition no_sends :: SendSched where
  "no_sends = \<lparr>ss_chain = [], ss_lock = Free, ss_sent = [], sn_calling = {#}, sn_failed = {#}, sn_pushed = 0,
     sn_unlocked = 0, sn_again = 0, lp_flushed = 0, lp_again = 0\<rparr>"

definition call_send :: "nat list \<Rightarrow> SendSched \<Rightarrow> SendSched" where
  "call_send b s = s\<lparr>sn_calling := add_mset b (sn_calling s)\<rparr>"

inductive send_internal :: "SendSched \<Rightarrow> SendSched \<Rightarrow> bool" where
  try_ok: "sn_calling s = add_mset b M \<Longrightarrow> ss_lock s = Free \<Longrightarrow>
    send_internal s (s\<lparr>sn_calling := M, ss_lock := Sending b\<rparr>)"
| try_fails: "sn_calling s = add_mset b M \<Longrightarrow> ss_lock s \<noteq> Free \<Longrightarrow>
    send_internal s (s\<lparr>sn_calling := M, sn_failed := add_mset b (sn_failed s)\<rparr>)"
| pushes: "sn_failed s = add_mset b M \<Longrightarrow>
    send_internal s (s\<lparr>sn_failed := M, ss_chain := b @ ss_chain s, sn_pushed := sn_pushed s + 1\<rparr>)"
| retry_ok: "0 < sn_pushed s \<Longrightarrow> ss_lock s = Free \<Longrightarrow>
    send_internal s (s\<lparr>sn_pushed := sn_pushed s - 1, ss_lock := Sending []\<rparr>)"
| retry_fails: "0 < sn_pushed s \<Longrightarrow> ss_lock s \<noteq> Free \<Longrightarrow> send_internal s (s\<lparr>sn_pushed := sn_pushed s - 1\<rparr>)"
| takes_chain: "ss_lock s = Sending b \<Longrightarrow> send_internal s (s\<lparr>ss_lock := Writing (b @ ss_chain s), ss_chain := []\<rparr>)"
| writes: "ss_lock s = Writing b \<Longrightarrow>
    send_internal s (s\<lparr>ss_sent := ss_sent s @ b, ss_lock := Free, sn_unlocked := sn_unlocked s + 1\<rparr>)"
| sees_none: "0 < sn_unlocked s \<Longrightarrow> ss_chain s = [] \<Longrightarrow> send_internal s (s\<lparr>sn_unlocked := sn_unlocked s - 1\<rparr>)"
| sees_more: "0 < sn_unlocked s \<Longrightarrow> ss_chain s \<noteq> [] \<Longrightarrow>
    send_internal s (s\<lparr>sn_unlocked := sn_unlocked s - 1, sn_again := sn_again s + 1\<rparr>)"
| relocks: "0 < sn_again s \<Longrightarrow> ss_lock s = Free \<Longrightarrow>
    send_internal s (s\<lparr>sn_again := sn_again s - 1, ss_lock := Sending []\<rparr>)"
| gives_up: "0 < sn_again s \<Longrightarrow> ss_lock s \<noteq> Free \<Longrightarrow> send_internal s (s\<lparr>sn_again := sn_again s - 1\<rparr>)"
| flush_ends: "ss_lock s = Flushing \<Longrightarrow> send_internal s (s\<lparr>ss_lock := Free, lp_flushed := lp_flushed s + 1\<rparr>)"
| loop_sees_none: "0 < lp_flushed s \<Longrightarrow> ss_chain s = [] \<Longrightarrow> send_internal s (s\<lparr>lp_flushed := lp_flushed s - 1\<rparr>)"
| loop_sees_more: "0 < lp_flushed s \<Longrightarrow> ss_chain s \<noteq> [] \<Longrightarrow>
    send_internal s (s\<lparr>lp_flushed := lp_flushed s - 1, lp_again := lp_again s + 1\<rparr>)"
| loop_locks: "0 < lp_again s \<Longrightarrow> ss_lock s = Free \<Longrightarrow>
    send_internal s (s\<lparr>lp_again := lp_again s - 1, ss_lock := Sending []\<rparr>)"
| loop_gives_up: "0 < lp_again s \<Longrightarrow> ss_lock s \<noteq> Free \<Longrightarrow> send_internal s (s\<lparr>lp_again := lp_again s - 1\<rparr>)"
| brief_ends: "ss_lock s = Brief \<Longrightarrow> send_internal s (s\<lparr>ss_lock := Free\<rparr>)"

text \<open>Runs: calls, flushes of the loop and, if there are any, brief users of the lock may begin at any
  time. The list holds the responses of the calls so far.\<close>

inductive sends_run :: "bool \<Rightarrow> nat list list \<Rightarrow> SendSched \<Rightarrow> bool" for brief where
  start: "sends_run brief [] no_sends"
| call: "sends_run brief cs s \<Longrightarrow> sends_run brief (cs @ [b]) (call_send b s)"
| flush: "sends_run brief cs s \<Longrightarrow> ss_lock s = Free \<Longrightarrow> sends_run brief cs (s\<lparr>ss_lock := Flushing\<rparr>)"
| brief: "sends_run brief cs s \<Longrightarrow> brief \<Longrightarrow> ss_lock s = Free \<Longrightarrow> sends_run brief cs (s\<lparr>ss_lock := Brief\<rparr>)"
| step: "sends_run brief cs s \<Longrightarrow> send_internal s s' \<Longrightarrow> sends_run brief cs s'"

subsection \<open>Invariant\<close>

fun lock_holds :: "holder \<Rightarrow> nat list" where
  "lock_holds (Sending b) = b"
| "lock_holds (Writing b) = b"
| "lock_holds _ = []"

text \<open>Where the responses are, and that someone will look at the chain while there is anything on it.\<close>

definition all_responses :: "SendSched \<Rightarrow> nat multiset" where
  "all_responses s = mset (ss_sent s) + mset (lock_holds (ss_lock s)) + mset (ss_chain s) +
     sum_mset (image_mset mset (sn_calling s)) + sum_mset (image_mset mset (sn_failed s))"

definition watched :: "SendSched \<Rightarrow> bool" where
  "watched s \<longleftrightarrow> ss_chain s = [] \<or> ss_lock s \<notin> {Free, Brief} \<or> 0 < sn_pushed s + sn_unlocked s + sn_again s + lp_flushed s + lp_again s"

lemma all_responses_step: "send_internal s s' \<Longrightarrow> all_responses s' = all_responses s"
  by (cases rule: send_internal.cases, assumption) (simp_all add: all_responses_def)

lemma watched_step: "send_internal s s' \<Longrightarrow> ss_lock s \<noteq> Brief \<Longrightarrow> watched s \<Longrightarrow> watched s' \<and> ss_lock s' \<noteq> Brief"
  by (cases rule: send_internal.cases, assumption) (auto simp: watched_def)

lemma run_responses: "sends_run brief cs s \<Longrightarrow> all_responses s = mset (concat cs)"
proof (induction rule: sends_run.induct)
  case (step cs s s')
  then show ?case using all_responses_step by simp
qed (simp_all add: all_responses_def no_sends_def call_send_def ac_simps)

lemma run_watched: "sends_run brief cs s \<Longrightarrow> \<not> brief \<Longrightarrow> watched s \<and> ss_lock s \<noteq> Brief"
proof (induction rule: sends_run.induct)
  case (step cs s s')
  then show ?case using watched_step by blast
qed (auto simp: watched_def no_sends_def call_send_def)

subsection \<open>Rest\<close>

definition at_rest :: "SendSched \<Rightarrow> bool" where
  "at_rest s \<longleftrightarrow> ss_lock s = Free \<and> sn_calling s = {#} \<and> sn_failed s = {#} \<and>
     sn_pushed s + sn_unlocked s + sn_again s + lp_flushed s + lp_again s = 0"

lemma stuck_at_rest:
  assumes "\<And>s'. \<not> send_internal s s'"
  shows "at_rest s"
proof -
  have l: "ss_lock s = Free" using assms takes_chain writes flush_ends brief_ends by (cases "ss_lock s") blast+
  have "sn_calling s = {#}" using assms try_ok [OF _ l] by (cases "sn_calling s") blast+
  moreover have "sn_failed s = {#}" using assms pushes by (cases "sn_failed s") blast+
  moreover have "sn_pushed s = 0" "sn_again s = 0" "lp_again s = 0"
    using assms retry_ok [OF _ l] relocks [OF _ l] loop_locks [OF _ l] by blast+
  moreover have "sn_unlocked s = 0" "lp_flushed s = 0"
    using assms sees_none sees_more loop_sees_none loop_sees_more by blast+
  ultimately show ?thesis using l by (simp add: at_rest_def)
qed

lemma rest_stuck: "at_rest s \<Longrightarrow> \<not> send_internal s s'"
  by (auto simp: at_rest_def elim: send_internal.cases)

text \<open>Why the threads come to rest: no response is left twice, the chain only grows when one is left,
  and otherwise every step brings its thread nearer to its end.\<close>

fun lock_effort :: "bool \<Rightarrow> holder \<Rightarrow> nat" where
  "lock_effort any Free = 0"
| "lock_effort any (Sending b) = 3"
| "lock_effort any (Writing b) = (if any then 6 else 2)"
| "lock_effort any Flushing = (if any then 6 else 2)"
| "lock_effort any Brief = 1"

definition effort :: "SendSched \<Rightarrow> nat \<times> nat \<times> nat" where
  "effort s = (let any = (ss_chain s \<noteq> [])
     in (2 * size (sn_calling s) + size (sn_failed s), (if any then 1 else 0),
         lock_effort any (ss_lock s) + 7 * sn_pushed s + 4 * (sn_again s + lp_again s) +
         (if any then 5 else 1) * (sn_unlocked s + lp_flushed s)))"

lemma effort_step:
  assumes "send_internal s s'"
  shows "(effort s', effort s) \<in> less_than <*lex*> less_than <*lex*> less_than"
  using assms by cases (auto simp: effort_def Let_def)

lemma internal_terminates: "wfp (\<lambda>s' s. send_internal s s')"
  unfolding wfp_def
  by (rule wf_subset [OF wf_inv_image [OF wf_lex_prod [OF wf_less_than wf_lex_prod [OF wf_less_than wf_less_than]], of effort]])
    (use effort_step in auto)


lemma one_sender:
  fixes r
  defines "s \<equiv> no_sends\<lparr>ss_sent := [r]\<rparr>"
  shows "sends_run False [[r]] s" and "at_rest s"
proof -
  define s1 where "s1 = call_send [r] no_sends"
  define s2 where "s2 = no_sends\<lparr>ss_lock := Sending [r]\<rparr>"
  define s3 where "s3 = no_sends\<lparr>ss_lock := Writing [r]\<rparr>"
  define s4 where "s4 = no_sends\<lparr>ss_sent := [r], sn_unlocked := 1\<rparr>"
  have "sends_run False [[r]] s1" using sends_run.call [OF sends_run.start, of False "[r]"] by (simp add: s1_def)
  moreover have "send_internal s1 s2" using try_ok [of s1 "[r]" "{#}"] by (simp add: s1_def s2_def call_send_def no_sends_def)
  moreover have "send_internal s2 s3" using takes_chain [of s2 "[r]"] by (simp add: s2_def s3_def no_sends_def)
  moreover have "send_internal s3 s4" using writes [of s3 "[r]"] by (simp add: s3_def s4_def no_sends_def)
  moreover have "send_internal s4 s" using sees_none [of s4] by (simp add: s4_def s_def no_sends_def)
  ultimately show "sends_run False [[r]] s" by (meson sends_run.step)
  show "at_rest s" by (simp add: s_def at_rest_def no_sends_def)
qed


text \<open>C39. Not every user of the lock looks: \<open>releaseOutstanding\<close> holds it while it lowers a count, and
  \<open>migrateTo\<close> while it sets a flag. A sender whose two attempts both fall into such a moment leaves its
  responses on the chain, and all threads come to rest with them unsent: nothing will send them until
  the client, which may be waiting for just this response, sends anything else.\<close>

theorem brief_lock_strands_responses:
  "\<exists>s. sends_run True [[r]] s \<and> at_rest s \<and> ss_chain s = [r] \<and> ss_sent s = []"
proof -
  define s1 where "s1 = (call_send [r] no_sends)\<lparr>ss_lock := Brief\<rparr>"
  have "sends_run True [[r]] s1"
    unfolding s1_def using sends_run.brief [OF sends_run.call [OF sends_run.start, of True "[r]"]]
    by (simp add: call_send_def no_sends_def)
  moreover define s2 where "s2 = s1\<lparr>sn_calling := {#}, sn_failed := {#[r]#}\<rparr>"
  then have "send_internal s1 s2"
    using try_fails [of s1 "[r]" "{#}"] by (simp add: s1_def call_send_def no_sends_def)
  moreover define s3 where "s3 = s2\<lparr>sn_failed := {#}, ss_chain := [r], sn_pushed := 1\<rparr>"
  then have "send_internal s2 s3"
    using pushes [of s2 "[r]" "{#}"] by (simp add: s2_def s1_def call_send_def no_sends_def)
  moreover define s4 where "s4 = s3\<lparr>sn_pushed := 0\<rparr>"
  then have "send_internal s3 s4"
    using retry_fails [of s3] by (simp add: s3_def s2_def s1_def call_send_def no_sends_def)
  moreover define s5 where "s5 = s4\<lparr>ss_lock := Free\<rparr>"
  then have "send_internal s4 s5"
    using brief_ends [of s4] by (simp add: s4_def s3_def s2_def s1_def call_send_def no_sends_def)
  ultimately have "sends_run True [[r]] s5" by (meson sends_run.step)
  moreover have "at_rest s5 \<and> ss_chain s5 = [r] \<and> ss_sent s5 = []"
    by (simp add: at_rest_def s5_def s4_def s3_def s2_def s1_def call_send_def no_sends_def)
  ultimately show ?thesis by blast
qed
end
