(* ===== verification/Spec2Isabelle.thy ===== *)
theory Spec2Isabelle
  imports Write_Path Vb_Schedule Auto_Tune Read_Schedule Read_Path Conn_Wake Send_Handover
begin

text \<open>header\<close>

end
